(* ===== verification/Prelude.thy ===== *)
theory Prelude
  imports Main "HOL-Library.Word" "HOL-Library.Monad_Syntax"
begin

text \<open>
  Shared vocabulary of the development.

  \<^item> \<^bold>\<open>Faults.\<close> A C++ operation that may read out of bounds, dereference a null or
    tagged pointer, fail an \<open>assert\<close> or throw is a function into \<open>'a option\<close>: \<open>None\<close> is
    the fault, and the do-notation of \<open>Monad_Syntax\<close> sequences the operations, so a fault
    of any step is a fault of the whole.  A loop of the source with no evident bound is a
    \<open>partial_function (option)\<close>; for it \<open>None\<close> also stands for not returning, so that
    a theorem with a conclusion \<open>f x = Some y\<close> always includes termination.
  \<^item> \<^bold>\<open>\<open>std::optional\<close>.\<close> The type \<open>optional\<close> is kept apart from faults.
  \<^item> \<^bold>\<open>Integers.\<close> Offsets and lengths are \<open>nat\<close>; every narrowing conversion and every
    subtraction that may wrap is written out (\<open>u16\<close>, \<open>u32\<close>, \<open>sub32\<close>, \<open>sub64\<close>).  Bytes and
    code points are words.
\<close>

unbundle bit_operations_syntax

type_synonym byte = "8 word"
type_synonym bytes = "byte list"

datatype 'a optional = nullopt | Val (val: 'a)

named_theorems run \<open>equations that evaluate the model on a closed input\<close>

subsection \<open>Fixed-width arithmetic on nat\<close>

definition u16 :: "nat \<Rightarrow> nat" where
  "u16 n = n mod 2 ^ 16"

definition u32 :: "nat \<Rightarrow> nat" where
  "u32 n = n mod 2 ^ 32"

definition sub32 :: "nat \<Rightarrow> nat \<Rightarrow> nat" where
  "sub32 a b = (a + 2 ^ 32 - b mod 2 ^ 32) mod 2 ^ 32"

definition sub64 :: "nat \<Rightarrow> nat \<Rightarrow> nat" where
  "sub64 a b = (a + 2 ^ 64 - b mod 2 ^ 64) mod 2 ^ 64"

lemma u16_id [simp]: "n < 65536 \<Longrightarrow> u16 n = n"
  by (simp add: u16_def)

lemma u32_id [simp]: "n < 4294967296 \<Longrightarrow> u32 n = n"
  by (simp add: u32_def)

lemma u16_less: "u16 n < 65536"
  by (simp add: u16_def)

lemma sub32_eq: "b \<le> a \<Longrightarrow> a < 2 ^ 32 \<Longrightarrow> sub32 a b = a - b"
  by (simp add: sub32_def le_mod_geq)

lemma sub64_eq: "b \<le> a \<Longrightarrow> a < 2 ^ 64 \<Longrightarrow> sub64 a b = a - b"
  by (simp add: sub64_def le_mod_geq)

subsection \<open>Reads with a bounds check\<close>

definition rd :: "'a list \<Rightarrow> nat \<Rightarrow> 'a option" where
  "rd xs i = (if i < length xs then Some (xs ! i) else None)"

lemma rd_Some [simp]: "i < length xs \<Longrightarrow> rd xs i = Some (xs ! i)"
  by (simp add: rd_def)

lemma rd_eq_Some_iff: "rd xs i = Some x \<longleftrightarrow> i < length xs \<and> xs ! i = x"
  by (auto simp: rd_def)

lemma rd_None_iff: "rd xs i = None \<longleftrightarrow> length xs \<le> i"
  by (auto simp: rd_def)

lemma rd_run [run]:
  "rd [] i = None"
  "rd (x # xs) 0 = Some x"
  "rd (x # xs) (Suc i) = rd xs i"
  "rd (x # xs) (numeral k) = rd xs (pred_numeral k)"
  by (auto simp: rd_def numeral_eq_Suc)

subsection \<open>Evaluation of monadic code\<close>

text \<open>
  The continuation of a bind is left alone until its first argument is a value; without
  this rule the simplifier would unfold loops under the lambda of the continuation.
\<close>

lemma option_bind_weak_cong [cong]: "m = m' \<Longrightarrow> Option.bind m f = Option.bind m' f"
  by simp

definition assert_opt :: "bool \<Rightarrow> unit option" where
  "assert_opt b = (if b then Some () else None)"

lemma assert_opt_simps [simp]: "assert_opt True = Some ()" "assert_opt False = None"
  by (simp_all add: assert_opt_def)

lemma assert_opt_Some [simp]: "assert_opt b = Some u \<longleftrightarrow> b"
  by (simp add: assert_opt_def)

subsection \<open>Words\<close>

lemma word_high_bits: "(c :: 'a::len word) < 2 ^ n \<Longrightarrow> n < LENGTH('a) \<Longrightarrow> n \<le> i \<Longrightarrow> \<not> bit c i"
proof -
  assume a: "c < 2 ^ n" "n < LENGTH('a)" "n \<le> i"
  then have "c = take_bit n c" by (metis less_mask_eq take_bit_eq_mask and.commute)
  then show ?thesis using a by (metis bit_take_bit_iff not_le)
qed

lemma byte_all: "list_all (\<lambda>n. P (word_of_nat n :: byte)) [0..<256] \<Longrightarrow> P b"
proof -
  assume a: "list_all (\<lambda>n. P (word_of_nat n :: byte)) [0..<256]"
  have "unat b < 256" using unsigned_less[of b] by simp
  then have "unat b \<in> set [0..<256]" by simp
  with a have "P (word_of_nat (unat b))" unfolding list_all_iff by blast
  then show "P b" by simp
qed

subsection \<open>Runs of indices and of list elements\<close>

text \<open>\<open>run_end P i n\<close> is the first index from \<open>i\<close> on that is not below \<open>n\<close> or violates \<open>P\<close>.\<close>

definition run_end :: "(nat \<Rightarrow> bool) \<Rightarrow> nat \<Rightarrow> nat \<Rightarrow> nat" where
  "run_end P i n = i + length (takeWhile P [i..<n])"

lemma run_end_step [simp]:
  "i < n \<Longrightarrow> P i \<Longrightarrow> run_end P i n = run_end P (Suc i) n"
  "i < n \<Longrightarrow> \<not> P i \<Longrightarrow> run_end P i n = i"
  "n \<le> i \<Longrightarrow> run_end P i n = i"
  by (simp_all add: run_end_def upt_conv_Cons)

lemma run_end_ge: "i \<le> run_end P i n"
  by (simp add: run_end_def)

lemma run_end_le: "i \<le> n \<Longrightarrow> run_end P i n \<le> n"
  using length_takeWhile_le [of P "[i..<n]"] by (simp add: run_end_def)

lemma run_end_inside: "i \<le> k \<Longrightarrow> k < run_end P i n \<Longrightarrow> P k"
proof -
  assume a: "i \<le> k" "k < run_end P i n"
  then have l: "k - i < length (takeWhile P [i..<n])" by (simp add: run_end_def)
  then have "takeWhile P [i..<n] ! (k - i) = k"
    using length_takeWhile_le [of P "[i..<n]"] a
    by (simp add: takeWhile_nth)
  with l show "P k" by (metis nth_mem set_takeWhileD)
qed

lemma run_end_stop: "run_end P i n < n \<Longrightarrow> \<not> P (run_end P i n)"
  using nth_length_takeWhile [of P "[i..<n]"] by (simp add: run_end_def)

text \<open>The maximal runs of elements that satisfy a predicate.\<close>

function runs :: "('a \<Rightarrow> bool) \<Rightarrow> 'a list \<Rightarrow> 'a list list" where
  "runs P [] = []"
| "runs P (x # xs) =
    (if P x then (x # takeWhile P xs) # runs P (dropWhile P xs) else runs P xs)"
  by pat_completeness auto
termination
  by (relation "measure (\<lambda>(P, xs). length xs)") (auto simp: le_imp_less_Suc length_dropWhile_le)

lemma runs_map: "runs P (map f xs) = map (map f) (runs (P \<circ> f) xs)"
  by (induction "P \<circ> f" xs rule: runs.induct)
     (auto simp: takeWhile_map dropWhile_map comp_def)

lemma runs_cong: "xs = ys \<Longrightarrow> (\<And>x. x \<in> set ys \<Longrightarrow> P x = Q x) \<Longrightarrow> runs P xs = runs Q ys"
proof -
  have "(\<And>x. x \<in> set xs \<Longrightarrow> P x = Q x) \<Longrightarrow> runs P xs = runs Q xs" for xs
  proof (induction P xs rule: runs.induct)
    case (2 P x xs)
    have "takeWhile P xs = takeWhile Q xs" "dropWhile P xs = dropWhile Q xs"
      using 2(3) by (auto intro: takeWhile_cong dropWhile_cong)
    then show ?case using 2 by (auto dest: set_dropWhileD)
  qed simp
  then show "xs = ys \<Longrightarrow> (\<And>x. x \<in> set ys \<Longrightarrow> P x = Q x) \<Longrightarrow> runs P xs = runs Q ys" by blast
qed

lemma takeWhile_upt: "takeWhile P [i..<n] = [i..<run_end P i n]"
proof (cases "i \<le> n")
  case True
  then have "takeWhile P [i..<n] = take (run_end P i n - i) [i..<n]"
    by (metis run_end_def takeWhile_eq_take diff_add_inverse)
  with True run_end_le [OF True, of P] run_end_ge [of i P n] show ?thesis by simp
qed (simp add: run_end_def)

lemma dropWhile_upt: "dropWhile P [i..<n] = [run_end P i n..<n]"
  by (metis dropWhile_eq_drop drop_upt run_end_def)

lemma runs_upt: "runs P [i..<n] =
  (let s = run_end (\<lambda>k. \<not> P k) i n in
   if s \<ge> n then [] else [s..<run_end P s n] # runs P [run_end P s n..<n])"
proof (induction "n - i" arbitrary: i)
  case (Suc m)
  then have i: "i < n" and u: "[i..<n] = i # [Suc i..<n]" by (simp_all add: upt_conv_Cons)
  show ?case
  proof (cases "P i")
    case True
    have "[i..<run_end P (Suc i) n] = i # [Suc i..<run_end P (Suc i) n]"
      using run_end_ge [of "Suc i" P n] by (simp add: upt_conv_Cons)
    with True i show ?thesis
      by (simp add: u takeWhile_upt dropWhile_upt del: upt_Suc)
  next
    case False
    with Suc(1) [of "Suc i"] Suc(2) i show ?thesis
      by (simp add: u Let_def del: upt_Suc)
  qed
qed simp

lemma run_end_all: "i \<le> n \<Longrightarrow> (\<And>k. i \<le> k \<Longrightarrow> k < n \<Longrightarrow> P k) \<Longrightarrow> run_end P i n = n"
  by (simp add: run_end_def takeWhile_eq_all_conv [THEN iffD2])

lemma runs_upt_consecutive:
  "r \<in> set (runs P [i..<n]) \<Longrightarrow> \<exists>a b. r = [a..<b] \<and> i \<le> a \<and> a < b \<and> b \<le> n"
proof (induction "n - i" arbitrary: i rule: less_induct)
  case less
  define s where "s = run_end (\<lambda>k. \<not> P k) i n"
  define e where "e = run_end P s n"
  have s: "s < n" "P s" using less.prems run_end_stop [of "\<lambda>k. \<not> P k" i n]
    by (auto simp: runs_upt s_def [symmetric] Let_def split: if_splits)
  have "i \<le> s" unfolding s_def by (rule run_end_ge)
  moreover have "s < e" unfolding e_def using s run_end_ge [of "Suc s" P n] by simp
  moreover have "e \<le> n" unfolding e_def using s run_end_le [of s n P] by (simp del: run_end_step)
  moreover have "runs P [i..<n] = [s..<e] # runs P [e..<n]"
    using s by (subst runs_upt) (simp add: Let_def flip: s_def e_def)
  ultimately have "r = [s..<e] \<or> r \<in> set (runs P [e..<n])" using less.prems by simp
  then show ?case
  proof
    assume "r \<in> set (runs P [e..<n])"
    moreover have "n - e < n - i" using \<open>i \<le> s\<close> \<open>s < e\<close> \<open>e \<le> n\<close> by linarith
    ultimately obtain a b where
      "r = [a..<b]" "e \<le> a" "a < b" "b \<le> n" using less.hyps [of e] by blast
    moreover from this \<open>i \<le> s\<close> \<open>s < e\<close> have "i \<le> a" by simp
    ultimately show ?thesis by blast
  qed (use \<open>i \<le> s\<close> \<open>s < e\<close> \<open>e \<le> n\<close> in blast)
qed

lemma concat_runs: "concat (runs P xs) = filter P xs"
proof (induction P xs rule: runs.induct)
  case (2 P x xs)
  have "filter P xs = takeWhile P xs @ filter P (dropWhile P xs)"
    by (induction xs) auto
  with 2 show ?case by (cases "P x") simp_all
qed simp

lemma runs_nonempty: "r \<in> set (runs P xs) \<Longrightarrow> r \<noteq> []"
  by (induction P xs rule: runs.induct) (auto split: if_splits)

lemma runs_nth: "n \<le> length xs \<Longrightarrow> map (map ((!) xs)) (runs (\<lambda>k. P (xs ! k)) [0..<n]) = runs P (take n xs)"
proof -
  assume "n \<le> length xs"
  then have "map ((!) xs) [0..<n] = take n xs" by (intro nth_equalityI) auto
  with runs_map [of P "(!) xs" "[0..<n]"] show ?thesis by (simp add: comp_def)
qed

end
