(* ===== verification/Utf8.thy ===== *)
theory Utf8
  imports Prelude
begin

text \<open>
  \<open>src/src/include/common/utf8.h\<close>: reading and writing UTF-8 code points.  A reader or
  writer pointer is an index into a buffer; \<open>readerLimit\<close> is an index too.  A byte is a
  \<open>char\<close>, which is signed on the platforms the project builds for, so it is converted to
  \<open>int\<close> with \<open>scast\<close>; the masks of the code remove the copied sign bits.
\<close>

subsection \<open>Writing\<close>

definition writeCodePointUnchecked :: "32 word \<Rightarrow> bytes" where
  "writeCodePointUnchecked c =
    (if c \<le> 0x7F then [ucast c]
     else if c \<le> 0x7FF then
       [ucast (0xC0 OR drop_bit 6 c), ucast (0x80 OR (c AND 0x3F))]
     else if c \<le> 0xFFFF then
       [ucast (0xE0 OR drop_bit 12 c), ucast (0x80 OR (drop_bit 6 c AND 0x3F)),
        ucast (0x80 OR (c AND 0x3F))]
     else if c \<le> 0x1FFFFF then
       [ucast (0xF0 OR drop_bit 18 c), ucast (0x80 OR (drop_bit 12 c AND 0x3F)),
        ucast (0x80 OR (drop_bit 6 c AND 0x3F)), ucast (0x80 OR (c AND 0x3F))]
     else if c \<le> 0x3FFFFFF then
       [ucast (0xF8 OR drop_bit 24 c), ucast (0x80 OR (drop_bit 18 c AND 0x3F)),
        ucast (0x80 OR (drop_bit 12 c AND 0x3F)), ucast (0x80 OR (drop_bit 6 c AND 0x3F)),
        ucast (0x80 OR (c AND 0x3F))]
     else if c \<le> 0x7FFFFFFF then
       [ucast (0xFC OR drop_bit 30 c), ucast (0x80 OR (drop_bit 24 c AND 0x3F)),
        ucast (0x80 OR (drop_bit 18 c AND 0x3F)), ucast (0x80 OR (drop_bit 12 c AND 0x3F)),
        ucast (0x80 OR (drop_bit 6 c AND 0x3F)), ucast (0x80 OR (c AND 0x3F))]
     else [])"

text \<open>The bounds-checked writer; \<open>room\<close> is \<open>writerLimit - writer\<close>.\<close>

definition writeCodePoint :: "nat \<Rightarrow> 32 word \<Rightarrow> bytes" where
  "writeCodePoint room c =
    (if c \<le> 0x7F then
       (if 1 > room then [] else [ucast c])
     else if c \<le> 0x7FF then
       (if 2 > room then [] else
        [ucast (0xC0 OR drop_bit 6 c), ucast (0x80 OR (c AND 0x3F))])
     else if c \<le> 0xFFFF then
       (if 3 > room then [] else
        [ucast (0xE0 OR drop_bit 12 c), ucast (0x80 OR (drop_bit 6 c AND 0x3F)),
         ucast (0x80 OR (c AND 0x3F))])
     else if c \<le> 0x1FFFFF then
       (if 4 > room then [] else
        [ucast (0xF0 OR drop_bit 18 c), ucast (0x80 OR (drop_bit 12 c AND 0x3F)),
         ucast (0x80 OR (drop_bit 6 c AND 0x3F)), ucast (0x80 OR (c AND 0x3F))])
     else if c \<le> 0x3FFFFFF then
       (if 5 > room then [] else
        [ucast (0xF8 OR drop_bit 24 c), ucast (0x80 OR (drop_bit 18 c AND 0x3F)),
         ucast (0x80 OR (drop_bit 12 c AND 0x3F)), ucast (0x80 OR (drop_bit 6 c AND 0x3F)),
         ucast (0x80 OR (c AND 0x3F))])
     else if c \<le> 0x7FFFFFFF then
       (if 6 > room then [] else
        [ucast (0xFC OR drop_bit 30 c), ucast (0x80 OR (drop_bit 24 c AND 0x3F)),
         ucast (0x80 OR (drop_bit 18 c AND 0x3F)), ucast (0x80 OR (drop_bit 12 c AND 0x3F)),
         ucast (0x80 OR (drop_bit 6 c AND 0x3F)), ucast (0x80 OR (c AND 0x3F))])
     else [])"

definition getCodePointLen :: "32 word \<Rightarrow> nat" where
  "getCodePointLen c =
    (if c \<le> 0x7F then 1 else if c \<le> 0x7FF then 2 else if c \<le> 0xFFFF then 3
     else if c \<le> 0x1FFFFF then 4 else if c \<le> 0x3FFFFFF then 5
     else if c \<le> 0x7FFFFFFF then 6 else 0)"

subsection \<open>Reading\<close>

definition char_int :: "byte \<Rightarrow> 32 word" where
  "char_int b = scast b"

text \<open>The multi-byte slow path; any other length is the \<open>default\<close> of the switch.\<close>

definition readMultiByteCase :: "bytes \<Rightarrow> nat \<Rightarrow> byte \<Rightarrow> nat \<Rightarrow> (32 word) option" where
  "readMultiByteCase buf reader firstByte byteLen =
    (if byteLen = 2 then do {
       b1 \<leftarrow> rd buf (reader + 1);
       Some (push_bit 6 (char_int firstByte AND 0x1F) OR (char_int b1 AND 0x3F)) }
     else if byteLen = 3 then do {
       b1 \<leftarrow> rd buf (reader + 1);
       b2 \<leftarrow> rd buf (reader + 2);
       Some (push_bit 12 (char_int firstByte AND 0xF) OR push_bit 6 (char_int b1 AND 0x3F)
             OR (char_int b2 AND 0x3F)) }
     else if byteLen = 4 then do {
       b1 \<leftarrow> rd buf (reader + 1);
       b2 \<leftarrow> rd buf (reader + 2);
       b3 \<leftarrow> rd buf (reader + 3);
       Some (push_bit 18 (char_int firstByte AND 0x7) OR push_bit 12 (char_int b1 AND 0x3F)
             OR push_bit 6 (char_int b2 AND 0x3F) OR (char_int b3 AND 0x3F)) }
     else if byteLen = 5 then do {
       b1 \<leftarrow> rd buf (reader + 1);
       b2 \<leftarrow> rd buf (reader + 2);
       b3 \<leftarrow> rd buf (reader + 3);
       b4 \<leftarrow> rd buf (reader + 4);
       Some (push_bit 24 (char_int firstByte AND 0x3) OR push_bit 18 (char_int b1 AND 0x3F)
             OR push_bit 12 (char_int b2 AND 0x3F) OR push_bit 6 (char_int b3 AND 0x3F)
             OR (char_int b4 AND 0x3F)) }
     else if byteLen = 6 then do {
       b1 \<leftarrow> rd buf (reader + 1);
       b2 \<leftarrow> rd buf (reader + 2);
       b3 \<leftarrow> rd buf (reader + 3);
       b4 \<leftarrow> rd buf (reader + 4);
       b5 \<leftarrow> rd buf (reader + 5);
       Some (push_bit 30 (char_int firstByte AND 0x1) OR push_bit 24 (char_int b1 AND 0x3F)
             OR push_bit 18 (char_int b2 AND 0x3F) OR push_bit 12 (char_int b3 AND 0x3F)
             OR push_bit 6 (char_int b4 AND 0x3F) OR (char_int b5 AND 0x3F)) }
     else Some 0)"

text \<open>
  \<open>__builtin_clz\<close> counts the leading zeros of a non-zero 32-bit word and is undefined at
  zero; \<open>clz\<close> asserts that its argument is not zero.
\<close>

definition builtin_clz :: "32 word \<Rightarrow> nat option" where
  "builtin_clz w = (if w = 0 then None
     else Some (length (takeWhile (\<lambda>i. \<not> bit w i) (rev [0..<32]))))"

definition clz :: "byte \<Rightarrow> nat option" where
  "clz a = do { assert_opt (a \<noteq> 0); z \<leftarrow> builtin_clz (ucast a); Some (z - 8 * (4 - 1)) }"

definition multiByteSequenceLength :: "byte \<Rightarrow> nat option" where
  "multiByteSequenceLength firstByte = do {
     len \<leftarrow> clz (NOT firstByte);
     Some (if len \<noteq> 0 then len else 1) }"

record readCodePointResult =
  next_pos :: nat
  codePoint :: "32 word"

definition readCodePoint :: "bytes \<Rightarrow> nat \<Rightarrow> nat \<Rightarrow> readCodePointResult option" where
  "readCodePoint buf reader readerLimit = do {
     firstByte \<leftarrow> rd buf reader;
     if firstByte AND 0x80 = 0
     then Some \<lparr>next_pos = reader + 1, codePoint = char_int firstByte\<rparr>
     else do {
       multiByteLen \<leftarrow> multiByteSequenceLength firstByte;
       if reader + multiByteLen > readerLimit
       then Some \<lparr>next_pos = readerLimit, codePoint = 0x3F\<rparr>
       else do {
         cp \<leftarrow> readMultiByteCase buf reader firstByte multiByteLen;
         Some \<lparr>next_pos = reader + multiByteLen, codePoint = cp\<rparr> } } }"

text \<open>
  Stepping back to the first byte of a code point.  Running off the front of the buffer is
  a fault.
\<close>

fun moveBackwardsToCodePointBegin :: "bytes \<Rightarrow> nat \<Rightarrow> nat option" where
  "moveBackwardsToCodePointBegin buf 0 = do {
     b \<leftarrow> rd buf 0;
     if b AND 0xC0 = 0x80 then None else Some 0 }"
| "moveBackwardsToCodePointBegin buf (Suc reader) = do {
     b \<leftarrow> rd buf (Suc reader);
     if b AND 0xC0 = 0x80 then moveBackwardsToCodePointBegin buf reader
     else Some (Suc reader) }"

subsection \<open>Bits of headers and continuation bytes\<close>

text \<open>The header table: the length announced by a byte, read off its leading ones.\<close>

definition mb_len :: "byte \<Rightarrow> nat option" where
 "mb_len b = (if \<not> bit b 7 \<or> \<not> bit b 6 then Some 1 else if \<not> bit b 5 then Some 2 else if \<not> bit b 4 then Some 3
  else if \<not> bit b 3 then Some 4 else if \<not> bit b 2 then Some 5 else if \<not> bit b 1 then Some 6 else if \<not> bit b 0 then Some 7 else None)"

lemma multiByteSequenceLength_eq: "multiByteSequenceLength b = mb_len b"
  by (rule byte_all[where P="\<lambda>b. multiByteSequenceLength b = mb_len b"]) code_simp

lemma ascii_bit: "b AND 0x80 = 0 \<longleftrightarrow> \<not> bit (b::byte) 7"
  by (rule byte_all[where P="\<lambda>b. b AND 0x80 = 0 \<longleftrightarrow> \<not> bit (b::byte) 7"]) code_simp
lemma mask_consts: "0x1F = (mask 5 :: 'a::len word)" "0x3F = (mask 6:: 'a::len word)" "0xF = (mask 4:: 'a::len word)"
 "1 = (mask 1 :: 32 word)" "7 = (mask 3:: 'a::len word)" "3 = (mask 2:: 'a::len word)"
 by (simp_all add: mask_eq_exp_minus_1)


lemma hdr_bits:
  "bit (0x80 :: 'a::len word) i \<longleftrightarrow> i < LENGTH('a) \<and> i = 7"
  "bit (0xC0 :: 'a::len word) i \<longleftrightarrow> i < LENGTH('a) \<and> 6 \<le> i \<and> i < 8"
  "bit (0xE0 :: 'a::len word) i \<longleftrightarrow> i < LENGTH('a) \<and> 5 \<le> i \<and> i < 8"
  "bit (0xF0 :: 'a::len word) i \<longleftrightarrow> i < LENGTH('a) \<and> 4 \<le> i \<and> i < 8"
  "bit (0xF8 :: 'a::len word) i \<longleftrightarrow> i < LENGTH('a) \<and> 3 \<le> i \<and> i < 8"
  "bit (0xFC :: 'a::len word) i \<longleftrightarrow> i < LENGTH('a) \<and> 2 \<le> i \<and> i < 8"
proof -
  have *:  "0x80 = (push_bit 7 1 :: 'a word)" "0xC0 = (push_bit 6 (mask 2) :: 'a word)" "0xE0 = (push_bit 5 (mask 3) :: 'a word)"
   "0xF0 = (push_bit 4 (mask 4) :: 'a word)" "0xF8 = (push_bit 3 (mask 5) :: 'a word)" "0xFC = (push_bit 2 (mask 6) :: 'a word)"
    by (simp_all add: mask_eq_exp_minus_1)
  show 
  "bit (0x80 :: 'a word) i \<longleftrightarrow> i < LENGTH('a) \<and> i = 7"
  "bit (0xC0 :: 'a word) i \<longleftrightarrow> i < LENGTH('a) \<and> 6 \<le> i \<and> i < 8"
  "bit (0xE0 :: 'a word) i \<longleftrightarrow> i < LENGTH('a) \<and> 5 \<le> i \<and> i < 8"
  "bit (0xF0 :: 'a word) i \<longleftrightarrow> i < LENGTH('a) \<and> 4 \<le> i \<and> i < 8"
  "bit (0xF8 :: 'a word) i \<longleftrightarrow> i < LENGTH('a) \<and> 3 \<le> i \<and> i < 8"
  "bit (0xFC :: 'a word) i \<longleftrightarrow> i < LENGTH('a) \<and> 2 \<le> i \<and> i < 8"
    unfolding * by (auto simp only: bit_push_bit_iff bit_mask_iff bit_1_iff possible_bit_word) auto?
qed
lemma char_int_mask: "n < 8 \<Longrightarrow> char_int (ucast w) AND mask n = w AND mask n"
  by (intro bit_word_eqI) (auto simp: char_int_def bit_simps)
lemma or_low: "(\<And>i. i < n \<Longrightarrow> \<not> bit h i) \<Longrightarrow> (h OR x) AND mask n = x AND mask n"
  for h x :: "'a::len word"
  by (intro bit_word_eqI) (auto simp: bit_simps)
lemma tail_bits: "char_int (ucast (0x80 OR (x AND 0x3F))) AND 0x3F = x AND 0x3F"
proof -
  have "\<not> bit (0x80 :: 32 word) i" if "i < 6" for i using that by (auto simp only: hdr_bits)
  then show ?thesis unfolding mask_consts by (simp add: char_int_mask or_low and.assoc)
qed
lemma head_bits: 
  "x < 2 ^ 5 \<Longrightarrow> char_int (ucast (0xC0 OR x)) AND 0x1F = x"
  "x < 2 ^ 4 \<Longrightarrow> char_int (ucast (0xE0 OR x)) AND 0xF = x"
  "x < 2 ^ 3 \<Longrightarrow> char_int (ucast (0xF0 OR x)) AND 7 = x"
  "x < 2 ^ 2 \<Longrightarrow> char_int (ucast (0xF8 OR x)) AND 3 = x"
  "x < 2 ^ 1 \<Longrightarrow> char_int (ucast (0xFC OR x)) AND 1 = x"
proof -
  have gen: "char_int (ucast (h OR x)) AND mask n = x" 
    if "x < 2 ^ n" "n < 8" "\<And>i. i < n \<Longrightarrow> \<not> bit h i" for h n
    using that char_int_mask[of n "h OR x"] or_low[OF that(3), where x=x] less_mask_eq[OF that(1)] by simp
  show 
  "x < 2 ^ 5 \<Longrightarrow> char_int (ucast (0xC0 OR x)) AND 0x1F = x"
  "x < 2 ^ 4 \<Longrightarrow> char_int (ucast (0xE0 OR x)) AND 0xF = x"
  "x < 2 ^ 3 \<Longrightarrow> char_int (ucast (0xF0 OR x)) AND 7 = x"
  "x < 2 ^ 2 \<Longrightarrow> char_int (ucast (0xF8 OR x)) AND 3 = x"
  "x < 2 ^ 1 \<Longrightarrow> char_int (ucast (0xFC OR x)) AND 1 = x"
  unfolding mask_consts by (rule gen, assumption, simp, (auto simp only: hdr_bits)[1])+
qed
lemma join6: "push_bit (n + 6) (drop_bit (n + 6) c) OR push_bit n (drop_bit n c AND 0x3F) = push_bit n (drop_bit n (c::32 word))"
  unfolding mask_consts
proof (intro bit_word_eqI)
  fix i
  show "bit (push_bit (n + 6) (drop_bit (n + 6) c) OR push_bit n (drop_bit n c AND mask 6)) i = bit (push_bit n (drop_bit n c)) i" if "i < LENGTH(32)"
    using that by (cases "n + 6 \<le> i") (auto simp: bit_simps)
qed
lemma join0: "push_bit 6 (drop_bit 6 c) OR (c AND 0x3F) = (c::32 word)"
  unfolding mask_consts
  by (intro bit_word_eqI) (auto simp: bit_simps)

lemma hdr_len:
  "x < 2 ^ 5 \<Longrightarrow> multiByteSequenceLength (ucast (0xC0 OR x :: 32 word)) = Some 2"
  "x < 2 ^ 4 \<Longrightarrow> multiByteSequenceLength (ucast (0xE0 OR x :: 32 word)) = Some 3"
  "x < 2 ^ 3 \<Longrightarrow> multiByteSequenceLength (ucast (0xF0 OR x :: 32 word)) = Some 4"
  "x < 2 ^ 2 \<Longrightarrow> multiByteSequenceLength (ucast (0xF8 OR x :: 32 word)) = Some 5"
  "x < 2 ^ 1 \<Longrightarrow> multiByteSequenceLength (ucast (0xFC OR x :: 32 word)) = Some 6"
proof -
  note hi = word_high_bits[where 'a=32 and c=x]
  show "x < 2 ^ 5 \<Longrightarrow> multiByteSequenceLength (ucast (0xC0 OR x :: 32 word)) = Some 2"
    unfolding multiByteSequenceLength_eq mb_len_def using hi[of 5] by (simp add: bit_simps)
  show "x < 2 ^ 4 \<Longrightarrow> multiByteSequenceLength (ucast (0xE0 OR x :: 32 word)) = Some 3"
    unfolding multiByteSequenceLength_eq mb_len_def using hi[of 4] by (simp add: bit_simps)
  show "x < 2 ^ 3 \<Longrightarrow> multiByteSequenceLength (ucast (0xF0 OR x :: 32 word)) = Some 4"
    unfolding multiByteSequenceLength_eq mb_len_def using hi[of 3] by (simp add: bit_simps)
  show "x < 2 ^ 2 \<Longrightarrow> multiByteSequenceLength (ucast (0xF8 OR x :: 32 word)) = Some 5"
    unfolding multiByteSequenceLength_eq mb_len_def using hi[of 2] by (simp add: bit_simps)
  show "x < 2 ^ 1 \<Longrightarrow> multiByteSequenceLength (ucast (0xFC OR x :: 32 word)) = Some 6"
    unfolding multiByteSequenceLength_eq mb_len_def using hi[of 1] by (simp add: bit_simps)
qed
lemma hdr_hi:
  "ucast (0xC0 OR x :: 32 word) AND 0x80 \<noteq> (0::byte)"
  "ucast (0xE0 OR x :: 32 word) AND 0x80 \<noteq> (0::byte)"
  "ucast (0xF0 OR x :: 32 word) AND 0x80 \<noteq> (0::byte)"
  "ucast (0xF8 OR x :: 32 word) AND 0x80 \<noteq> (0::byte)"
  "ucast (0xFC OR x :: 32 word) AND 0x80 \<noteq> (0::byte)"
  unfolding ascii_bit by (simp_all add: bit_simps)
lemma drop_less: "c \<le> 0x7FF \<Longrightarrow> drop_bit 6 c < (2 ^ 5 :: 32 word)"
 "c \<le> 0xFFFF \<Longrightarrow> drop_bit 12 c < (2 ^ 4 :: 32 word)"
 "c \<le> 0x1FFFFF \<Longrightarrow> drop_bit 18 c < (2 ^ 3 :: 32 word)"
 "c \<le> 0x3FFFFFF \<Longrightarrow> drop_bit 24 c < (2 ^ 2 :: 32 word)"
 "c \<le> 0x7FFFFFFF \<Longrightarrow> drop_bit 30 c < (2 ^ 1 :: 32 word)"
proof -
  have "unat (drop_bit n c) = unat c div 2 ^ n" for n
    by (metis unat_drop_bit_eq drop_bit_eq_div)
  then show "c \<le> 0x7FF \<Longrightarrow> drop_bit 6 c < (2 ^ 5 :: 32 word)"
 "c \<le> 0xFFFF \<Longrightarrow> drop_bit 12 c < (2 ^ 4 :: 32 word)"
 "c \<le> 0x1FFFFF \<Longrightarrow> drop_bit 18 c < (2 ^ 3 :: 32 word)"
 "c \<le> 0x3FFFFFF \<Longrightarrow> drop_bit 24 c < (2 ^ 2 :: 32 word)"
 "c \<le> 0x7FFFFFFF \<Longrightarrow> drop_bit 30 c < (2 ^ 1 :: 32 word)"
    by (simp_all only: word_le_nat_alt word_less_nat_alt) (simp_all)
qed
lemma read_ascii: "c \<le> 0x7F \<Longrightarrow> ucast c AND 0x80 = (0::byte) \<and> char_int (ucast c) = c"
proof -
  assume "c \<le> 0x7F"
  then have "c < 2 ^ 7" by (simp add: word_le_nat_alt word_less_nat_alt)
  note hi = word_high_bits[OF this]
  have "bit (char_int (ucast c)) i = bit c i" if "i < 32" for i
    using that hi by (cases "i < 7") (auto simp: char_int_def bit_simps min_def)
  with hi show ?thesis unfolding ascii_bit
    by (auto intro!: bit_word_eqI simp: bit_simps)
qed
lemma joins:
  "push_bit 12 (drop_bit 12 c) OR push_bit 6 (drop_bit 6 c AND 0x3F) OR y = push_bit 6 (drop_bit 6 (c::32 word)) OR y"
  "push_bit 18 (drop_bit 18 c) OR push_bit 12 (drop_bit 12 c AND 0x3F) OR y = push_bit 12 (drop_bit 12 (c::32 word)) OR y"
  "push_bit 24 (drop_bit 24 c) OR push_bit 18 (drop_bit 18 c AND 0x3F) OR y = push_bit 18 (drop_bit 18 (c::32 word)) OR y"
  "push_bit 30 (drop_bit 30 c) OR push_bit 24 (drop_bit 24 c AND 0x3F) OR y = push_bit 24 (drop_bit 24 (c::32 word)) OR y"
  using join6[of 6 c] join6[of 12 c] join6[of 18 c] join6[of 24 c]
  by (simp_all del: push_bit_and add: or.assoc [symmetric])
lemma read_written:
  assumes "c \<le> 0x7FFFFFFF"
  shows "readCodePoint (pre @ writeCodePointUnchecked c @ post) (length pre)
           (length pre + length (writeCodePointUnchecked c) + k) =
         Some \<lparr>next_pos = length pre + length (writeCodePointUnchecked c), codePoint = c\<rparr>"
  using assms
  unfolding readCodePoint_def writeCodePointUnchecked_def readMultiByteCase_def
  by (simp add: rd_def nth_append read_ascii hdr_hi tail_bits join0
      hdr_len(1)[OF drop_less(1)] hdr_len(2)[OF drop_less(2)] hdr_len(3)[OF drop_less(3)]
      hdr_len(4)[OF drop_less(4)] hdr_len(5)[OF drop_less(5)] head_bits(1)[OF drop_less(1)]
      head_bits(2)[OF drop_less(2)] head_bits(3)[OF drop_less(3)] head_bits(4)[OF drop_less(4)]
      head_bits(5)[OF drop_less(5)] joins del: push_bit_and)

text \<open>Strings of code points and their encoding.\<close>

definition valid_cps :: "32 word list \<Rightarrow> bool" where
  "valid_cps cs \<longleftrightarrow> (\<forall>c \<in> set cs. c \<le> 0x7FFFFFFF)"

definition encode :: "32 word list \<Rightarrow> bytes" where
  "encode cs = concat (map writeCodePointUnchecked cs)"

lemma encode_simps [simp]:
  "encode [] = []"
  "encode (c # cs) = writeCodePointUnchecked c @ encode cs"
  "encode (xs @ ys) = encode xs @ encode ys"
  by (simp_all add: encode_def)

lemma valid_cps_simps [simp]:
  "valid_cps []"
  "valid_cps (c # cs) \<longleftrightarrow> c \<le> 0x7FFFFFFF \<and> valid_cps cs"
  "valid_cps (xs @ ys) \<longleftrightarrow> valid_cps xs \<and> valid_cps ys"
  by (auto simp: valid_cps_def)

lemma writeCodePoint_nonempty: "c \<le> 0x7FFFFFFF \<Longrightarrow> writeCodePointUnchecked c \<noteq> []"
  by (simp add: writeCodePointUnchecked_def)

lemma encode_eq_Nil [simp]: "valid_cps cs \<Longrightarrow> encode cs = [] \<longleftrightarrow> cs = []"
  by (cases cs) (auto dest: writeCodePoint_nonempty)

lemma read_encoded:
  assumes "valid_cps (c # cs)"
  shows "readCodePoint (pre @ encode (c # cs) @ post) (length pre) (length pre + length (encode (c # cs))) =
    Some \<lparr>next_pos = length pre + length (writeCodePointUnchecked c), codePoint = c\<rparr>"
  using read_written [of c pre "encode cs @ post" "length (encode cs)"] assms by (simp add: add.assoc)

lemma read_zero:
  "readCodePoint (pre @ 0 # post) (length pre) n = Some \<lparr>next_pos = length pre + 1, codePoint = 0\<rparr>"
  by (simp add: readCodePoint_def char_int_def)

subsection \<open>Properties\<close>

text \<open>Property C29: reading back a code point that \<open>writeCodePointUnchecked\<close> wrote, anywhere in a
  buffer whose limit does not cut it, returns the code point and the position after it, for
  every 31-bit code point and all six encoding lengths.\<close>

theorem read_write_codepoint:
  assumes "c \<le> 0x7FFFFFFF"
  shows "readCodePoint (pre @ writeCodePointUnchecked c @ post) (length pre)
           (length pre + length (writeCodePointUnchecked c) + k) =
         Some \<lparr>next_pos = length pre + length (writeCodePointUnchecked c), codePoint = c\<rparr>"
  using assms by (rule read_written)

theorem read_write_codepoint_witness:
  "readCodePoint ([0x41] @ writeCodePointUnchecked 0x20AC @ [0x42]) 1 5 =
     Some \<lparr>next_pos = 4, codePoint = 0x20AC\<rparr>"
  using read_write_codepoint [of "0x20AC" "[0x41]" "[0x42]" 1]
  by (simp add: writeCodePointUnchecked_def Suc_eq_plus1 del: One_nat_def)

text \<open>The bounds-checked writer emits the same bytes as the unchecked one when they
  fit and nothing otherwise, and the number of bytes is \<open>getCodePointLen\<close>.\<close>

theorem writeCodePoint_spec:
  "writeCodePoint room c =
     (if getCodePointLen c \<le> room then writeCodePointUnchecked c else [])
   \<and> length (writeCodePointUnchecked c) = getCodePointLen c"
  by (simp add: writeCodePoint_def writeCodePointUnchecked_def getCodePointLen_def)

lemma mb_len_pos: "mb_len b = Some n \<Longrightarrow> 0 < n"
  by (auto simp: mb_len_def split: if_splits)

lemma mb_len_None_iff: "mb_len b = None \<longleftrightarrow> b = 0xFF"
  by (rule byte_all [where P = "\<lambda>b. mb_len b = None \<longleftrightarrow> b = 0xFF"]) code_simp

lemma readMultiByteCase_total:
  "reader + n \<le> length buf \<Longrightarrow> \<exists>c. readMultiByteCase buf reader b n = Some c"
  by (auto simp: readMultiByteCase_def)

text \<open>Property C30: inside the buffer a read never leaves it: it faults exactly on a header byte
  \<open>0xFF\<close>, for which \<open>clz\<close> is called with 0, and otherwise makes progress and stops at or
  before \<open>readerLimit\<close>, whatever the bytes are.\<close>

theorem readCodePoint_progress:
  assumes "reader < readerLimit" "readerLimit \<le> length buf"
  shows "case readCodePoint buf reader readerLimit of
           None \<Rightarrow> buf ! reader = 0xFF
         | Some r \<Rightarrow> buf ! reader \<noteq> 0xFF \<and> reader < next_pos r \<and> next_pos r \<le> readerLimit"
proof -
  obtain n where n: "mb_len (buf ! reader) = Some n" "0 < n" if "buf ! reader \<noteq> 0xFF"
    using mb_len_None_iff mb_len_pos by blast
  show ?thesis
  proof (cases "buf ! reader = 0xFF")
    case True
    then show ?thesis using assms
      by (simp add: readCodePoint_def multiByteSequenceLength_eq mb_len_None_iff [THEN iffD2])
  next
    case False
    from n [OF this] readMultiByteCase_total [of reader n buf "buf ! reader"] False assms
    show ?thesis
      by (auto simp: readCodePoint_def multiByteSequenceLength_eq)
  qed
qed

theorem readCodePoint_progress_witness:
  "case readCodePoint [0xE2, 0x82] 0 2 of None \<Rightarrow> False
   | Some r \<Rightarrow> 0 < next_pos r \<and> next_pos r \<le> 2"
  using readCodePoint_progress [of 0 2 "[0xE2, 0x82]"] by (simp split: option.splits)

end
