(* ===== verification/Tokenizer.thy ===== *)
theory Tokenizer
  imports Prelude
begin

text \<open>
  \<open>src/src/include/aho_corasick/tokenizer.h\<close> and \<open>src/src/tokenizer.cc\<close>: the two-level
  tokenizer of LIKE patterns.  The record \<open>tokenizer\<close> has the private fields of the class;
  every read of the pattern goes through \<open>rd\<close>, so a length that exceeds the pattern is a
  fault.  The first group of lemmas closes the loops into \<open>run_end\<close>; the second states what
  iterating \<open>NextSegment\<close> and \<open>NextLiteral\<close> yields, as the maximal runs between the delimiters the
  code tests for; the third compares these with the delimiters of the documentation of the class
  (\<open>made_literal\<close>); the fourth is about removing escapes.
\<close>

definition PERCENTAGE :: byte where
  "PERCENTAGE = 0x25"

definition UNDERSCORE :: byte where
  "UNDERSCORE = 0x5F"

record LiteralSpan =
  start :: nat
  len :: nat
  escape_prefix_before_start :: nat

record tokenizer =
  tok_p :: bytes
  tok_plen :: nat
  tok_esc_char :: byte
  tok_has_escape :: bool
  tok_pos :: nat
  tok_lit_pos :: nat
  tok_accum_esc_len :: nat

definition Tokenizer :: "bytes \<Rightarrow> nat \<Rightarrow> bytes \<Rightarrow> tokenizer" where
  "Tokenizer pattern plen escape_str =
    \<lparr>tok_p = pattern, tok_plen = plen,
     tok_esc_char = (case escape_str of [] \<Rightarrow> 0 | c # cs \<Rightarrow> c),
     tok_has_escape = (escape_str \<noteq> []),
     tok_pos = 0, tok_lit_pos = 0, tok_accum_esc_len = 0\<rparr>"

definition Pos :: "tokenizer \<Rightarrow> nat" where
  "Pos t = tok_pos t"

definition IsEscaped :: "tokenizer \<Rightarrow> nat \<Rightarrow> bool option" where
  "IsEscaped t i =
    (if tok_has_escape t \<and> i > 0
     then do { b \<leftarrow> rd (tok_p t) (i - 1); Some (b = tok_esc_char t) }
     else Some False)"

definition IsSegmentDelim :: "tokenizer \<Rightarrow> nat \<Rightarrow> bool option" where
  "IsSegmentDelim t i = do {
     b \<leftarrow> rd (tok_p t) i;
     if b = PERCENTAGE then do { e \<leftarrow> IsEscaped t i; Some (\<not> e) } else Some False }"

definition IsLiteralDelim :: "tokenizer \<Rightarrow> nat \<Rightarrow> bool option" where
  "IsLiteralDelim t i = do {
     b \<leftarrow> rd (tok_p t) i;
     if b = UNDERSCORE then do { e \<leftarrow> IsEscaped t i; Some (\<not> e) } else Some False }"

definition IsEscapable :: "tokenizer \<Rightarrow> nat \<Rightarrow> bool option" where
  "IsEscapable t i = do {
     b \<leftarrow> rd (tok_p t) i;
     Some (b = PERCENTAGE \<or> b = UNDERSCORE \<or> b = tok_esc_char t) }"

subsection \<open>NextSegment\<close>

text \<open>The two loops: \<open>while (pos_ < plen_ && IsSegmentDelim(pos_) = d) pos_++\<close>.\<close>

function scan_segment :: "tokenizer \<Rightarrow> bool \<Rightarrow> nat \<Rightarrow> nat option" where
  "scan_segment t d i =
    (if i < tok_plen t
     then do {
       b \<leftarrow> IsSegmentDelim t i;
       if b = d then scan_segment t d (i + 1) else Some i }
     else Some i)"
  by auto
termination by (relation "measure (\<lambda>(t, d, i). tok_plen t - i)") auto

definition NextSegment :: "tokenizer \<Rightarrow> (LiteralSpan optional \<times> tokenizer) option" where
  "NextSegment t = do {
     let before = tok_pos t;
     s \<leftarrow> scan_segment t True (tok_pos t);
     if s \<ge> tok_plen t then Some (nullopt, t\<lparr>tok_pos := before\<rparr>)
     else do {
       e \<leftarrow> scan_segment t False s;
       Some (Val \<lparr>start = s, len = sub32 e s, escape_prefix_before_start = 0\<rparr>,
             t\<lparr>tok_pos := e, tok_lit_pos := s, tok_accum_esc_len := 0\<rparr>) } }"

subsection \<open>NextLiteral\<close>

function skip_literal_delims :: "tokenizer \<Rightarrow> nat \<Rightarrow> nat \<Rightarrow> nat option" where
  "skip_literal_delims t seg_end i =
    (if i < seg_end
     then do {
       b \<leftarrow> IsLiteralDelim t i;
       if b then skip_literal_delims t seg_end (i + 1) else Some i }
     else Some i)"
  by auto
termination by (relation "measure (\<lambda>(t, e, i). e - i)") auto

text \<open>The literal run, with the running count of escape prefixes.\<close>

function scan_literal :: "tokenizer \<Rightarrow> nat \<Rightarrow> nat \<Rightarrow> nat \<Rightarrow> (nat \<times> nat) option" where
  "scan_literal t seg_end i acc =
    (if i < seg_end
     then do {
       ld \<leftarrow> IsLiteralDelim t i;
       if ld then Some (i, acc)
       else do {
         sd \<leftarrow> IsSegmentDelim t i;
         if sd then Some (i, acc)
         else do {
           esc \<leftarrow> (if tok_has_escape t then IsEscaped t i else Some False);
           able \<leftarrow> (if esc then IsEscapable t i else Some False);
           scan_literal t seg_end (i + 1) (if able then u32 (acc + 1) else acc) } } }
     else Some (i, acc))"
  by auto
termination by (relation "measure (\<lambda>(t, e, i, a). e - i)") auto

definition NextLiteral :: "tokenizer \<Rightarrow> LiteralSpan \<Rightarrow> (LiteralSpan optional \<times> tokenizer) option" where
  "NextLiteral t seg = do {
     let seg_end = u32 (start seg + len seg);
     s \<leftarrow> skip_literal_delims t seg_end (tok_lit_pos t);
     if s \<ge> seg_end then Some (nullopt, t\<lparr>tok_lit_pos := s\<rparr>)
     else do {
       let escape_before_start = tok_accum_esc_len t;
       (e, acc) \<leftarrow> scan_literal t seg_end s (tok_accum_esc_len t);
       Some (Val \<lparr>start = s, len = sub32 e s, escape_prefix_before_start = escape_before_start\<rparr>,
             t\<lparr>tok_lit_pos := e, tok_accum_esc_len := acc\<rparr>) } }"

subsection \<open>StripEscapes\<close>

text \<open>
  The copy loop; the result is the content of the caller's buffer.  Without an escape
  string the view points into the pattern, whose bytes it is.
\<close>

function strip_loop :: "tokenizer \<Rightarrow> nat \<Rightarrow> nat \<Rightarrow> bytes \<Rightarrow> bytes option" where
  "strip_loop t stop src out =
    (if src < stop
     then do {
       b \<leftarrow> rd (tok_p t) src;
       if b = tok_esc_char t
       then (if src + 1 < stop
             then do { c \<leftarrow> rd (tok_p t) (src + 1); strip_loop t stop (src + 2) (out @ [c]) }
             else strip_loop t stop (src + 1) out)
       else strip_loop t stop (src + 1) (out @ [b]) }
     else Some out)"
  by auto
termination by (relation "measure (\<lambda>(t, e, s, out). e - s)") auto

definition StripEscapes :: "tokenizer \<Rightarrow> LiteralSpan \<Rightarrow> bytes option" where
  "StripEscapes t span =
    (if \<not> tok_has_escape t
     then (if start span + len span \<le> length (tok_p t)
           then Some (take (len span) (drop (start span) (tok_p t))) else None)
     else strip_loop t (start span + len span) (start span) [])"

declare scan_segment.simps [simp del] skip_literal_delims.simps [simp del]
  scan_literal.simps [simp del] strip_loop.simps [simp del]

subsection \<open>The delimiters the code tests for, as predicates\<close>

definition tok_wf :: "tokenizer \<Rightarrow> bool" where
  "tok_wf t \<longleftrightarrow> tok_plen t \<le> length (tok_p t) \<and> tok_plen t < 2 ^ 32"

definition escaped_at :: "tokenizer \<Rightarrow> nat \<Rightarrow> bool" where
  "escaped_at t i \<longleftrightarrow> tok_has_escape t \<and> i > 0 \<and> tok_p t ! (i - 1) = tok_esc_char t"

definition seg_delim :: "tokenizer \<Rightarrow> nat \<Rightarrow> bool" where
  "seg_delim t i \<longleftrightarrow> tok_p t ! i = PERCENTAGE \<and> \<not> escaped_at t i"

definition lit_delim :: "tokenizer \<Rightarrow> nat \<Rightarrow> bool" where
  "lit_delim t i \<longleftrightarrow> tok_p t ! i = UNDERSCORE \<and> \<not> escaped_at t i"

definition escapable_at :: "tokenizer \<Rightarrow> nat \<Rightarrow> bool" where
  "escapable_at t i \<longleftrightarrow> tok_p t ! i \<in> {PERCENTAGE, UNDERSCORE, tok_esc_char t}"

text \<open>The escape prefixes that \<open>NextLiteral\<close> counts between two offsets.\<close>

definition esc_count :: "tokenizer \<Rightarrow> nat \<Rightarrow> nat \<Rightarrow> nat" where
  "esc_count t i j = length (filter (\<lambda>k. escaped_at t k \<and> escapable_at t k) [i..<j])"

lemma read_delims [simp]:
  assumes "i < length (tok_p t)"
  shows "IsEscaped t i = Some (escaped_at t i)"
    "IsSegmentDelim t i = Some (seg_delim t i)"
    "IsLiteralDelim t i = Some (lit_delim t i)"
    "IsEscapable t i = Some (escapable_at t i)"
  using assms
  by (auto simp: IsEscaped_def IsSegmentDelim_def IsLiteralDelim_def IsEscapable_def
      escaped_at_def seg_delim_def lit_delim_def escapable_at_def)

lemma scan_segment_eq:
  "tok_plen t \<le> length (tok_p t) \<Longrightarrow>
   scan_segment t d i = Some (run_end (\<lambda>k. seg_delim t k = d) i (tok_plen t))"
  by (induction t d i rule: scan_segment.induct) (subst scan_segment.simps, simp)

lemma skip_literal_delims_eq:
  "e \<le> length (tok_p t) \<Longrightarrow>
   skip_literal_delims t e i = Some (run_end (lit_delim t) i e)"
  by (induction t e i rule: skip_literal_delims.induct) (subst skip_literal_delims.simps, simp)

lemma esc_count_step [simp]:
  "i < j \<Longrightarrow> esc_count t i j =
     (if escaped_at t i \<and> escapable_at t i then 1 else 0) + esc_count t (Suc i) j"
  "j \<le> i \<Longrightarrow> esc_count t i j = 0"
  by (simp_all add: esc_count_def upt_conv_Cons)

lemma esc_count_le: "i \<le> j \<Longrightarrow> esc_count t i j \<le> j - i"
  using length_filter_le [of _ "[i..<j]"] by (simp add: esc_count_def)

lemma scan_literal_eq:
  "e \<le> length (tok_p t) \<Longrightarrow> acc + (e - i) < 2 ^ 32 \<Longrightarrow>
   scan_literal t e i acc =
     (let j = run_end (\<lambda>k. \<not> lit_delim t k \<and> \<not> seg_delim t k) i e
      in Some (j, acc + esc_count t i j))"
proof (induction "e - i" arbitrary: i acc)
  case 0
  then show ?case by (subst scan_literal.simps) simp
next
  case (Suc m)
  let ?P = "\<lambda>k. \<not> lit_delim t k \<and> \<not> seg_delim t k"
  have i: "i < e" "i < length (tok_p t)" using Suc.hyps Suc.prems by auto
  show ?case
  proof (cases "?P i")
    case True
    let ?acc = "if escaped_at t i \<and> escapable_at t i then u32 (acc + 1) else acc"
    have "scan_literal t e i acc = scan_literal t e (Suc i) ?acc"
      using i True by (subst scan_literal.simps) (auto simp: escaped_at_def)
    moreover have "i < run_end ?P i e" using run_end_ge [of "Suc i" ?P e] i True by simp
    ultimately show ?thesis
      using Suc.hyps(1) [of "Suc i" ?acc] Suc.hyps(2) Suc.prems i True by (auto simp: Let_def)
  next
    case False
    with i show ?thesis by (subst scan_literal.simps) (auto simp: Let_def)
  qed
qed

subsection \<open>What the iterations yield\<close>

definition first_span :: "nat \<Rightarrow> nat \<Rightarrow> LiteralSpan" where
  "first_span s e = \<lparr>start = s, len = e - s, escape_prefix_before_start = 0\<rparr>"

lemma NextSegment_eq:
  assumes "tok_wf t"
  shows "NextSegment t =
    (let s = run_end (seg_delim t) (tok_pos t) (tok_plen t);
         e = run_end (\<lambda>k. \<not> seg_delim t k) s (tok_plen t)
     in Some (if tok_plen t \<le> s then (nullopt, t)
              else (Val (first_span s e),
                    t\<lparr>tok_pos := e, tok_lit_pos := s, tok_accum_esc_len := 0\<rparr>)))"
proof -
  define s where "s = run_end (seg_delim t) (tok_pos t) (tok_plen t)"
  define e where "e = run_end (\<lambda>k. \<not> seg_delim t k) s (tok_plen t)"
  have "s \<le> e" by (simp add: e_def run_end_ge)
  moreover have "e < 2 ^ 32" if "s < tok_plen t"
    using assms run_end_le [of s "tok_plen t" "\<lambda>k. \<not> seg_delim t k"] that
    unfolding tok_wf_def e_def by simp
  ultimately show ?thesis using assms
    unfolding NextSegment_def tok_wf_def
    by (simp add: scan_segment_eq first_span_def sub32_eq flip: s_def e_def)
qed

lemma NextLiteral_eq:
  assumes "tok_wf t" "start seg + len seg \<le> tok_plen t" "tok_accum_esc_len t \<le> tok_lit_pos t"
  shows "NextLiteral t seg =
    (let stop = start seg + len seg;
         s = run_end (lit_delim t) (tok_lit_pos t) stop;
         e = run_end (\<lambda>k. \<not> lit_delim t k \<and> \<not> seg_delim t k) s stop;
         acc = tok_accum_esc_len t
     in Some (if stop \<le> s then (nullopt, t\<lparr>tok_lit_pos := s\<rparr>)
              else (Val \<lparr>start = s, len = e - s, escape_prefix_before_start = acc\<rparr>,
                    t\<lparr>tok_lit_pos := e, tok_accum_esc_len := acc + esc_count t s e\<rparr>)))"
proof -
  define stop where "stop = start seg + len seg"
  define s where "s = run_end (lit_delim t) (tok_lit_pos t) stop"
  define e where "e = run_end (\<lambda>k. \<not> lit_delim t k \<and> \<not> seg_delim t k) s stop"
  have st: "stop < 2 ^ 32" "stop \<le> length (tok_p t)" "u32 stop = stop"
    using assms by (auto simp: stop_def tok_wf_def)
  have "s \<le> e" by (simp add: e_def run_end_ge)
  moreover have "e \<le> stop" if "s < stop"
    using run_end_le [of s stop] that unfolding e_def by simp
  moreover have "tok_lit_pos t \<le> s" unfolding s_def by (rule run_end_ge)
  moreover have "sub32 e s = e - s" if "s < stop"
    using calculation that st(1) by (simp add: sub32_eq)
  ultimately show ?thesis using st assms(3)
    unfolding NextLiteral_def stop_def [symmetric]
    by (simp add: Let_def [of "tok_accum_esc_len t"] skip_literal_delims_eq scan_literal_eq sub32_eq flip: s_def e_def)
qed

partial_function (option) all_segments :: "tokenizer \<Rightarrow> LiteralSpan list option" where [code]:
  "all_segments t = do {
     (s, t') \<leftarrow> NextSegment t;
     case s of nullopt \<Rightarrow> Some []
     | Val seg \<Rightarrow> do { segs \<leftarrow> all_segments t'; Some (seg # segs) } }"

partial_function (option) all_literals :: "tokenizer \<Rightarrow> LiteralSpan \<Rightarrow> LiteralSpan list option" where [code]:
  "all_literals t seg = do {
     (s, t') \<leftarrow> NextLiteral t seg;
     case s of nullopt \<Rightarrow> Some []
     | Val lit \<Rightarrow> do { lits \<leftarrow> all_literals t' seg; Some (lit # lits) } }"


lemma delims_update [simp]:
  "seg_delim (t\<lparr>tok_pos := a\<rparr>) = seg_delim t" "lit_delim (t\<lparr>tok_pos := a\<rparr>) = lit_delim t"
  "seg_delim (t\<lparr>tok_lit_pos := a\<rparr>) = seg_delim t" "lit_delim (t\<lparr>tok_lit_pos := a\<rparr>) = lit_delim t"
  "seg_delim (t\<lparr>tok_accum_esc_len := a\<rparr>) = seg_delim t"
  "lit_delim (t\<lparr>tok_accum_esc_len := a\<rparr>) = lit_delim t"
  "esc_count (t\<lparr>tok_pos := a\<rparr>) = esc_count t" "esc_count (t\<lparr>tok_lit_pos := a\<rparr>) = esc_count t"
  "esc_count (t\<lparr>tok_accum_esc_len := a\<rparr>) = esc_count t"
  "tok_wf (t\<lparr>tok_pos := a\<rparr>) = tok_wf t" "tok_wf (t\<lparr>tok_lit_pos := a\<rparr>) = tok_wf t"
  "tok_wf (t\<lparr>tok_accum_esc_len := a\<rparr>) = tok_wf t"
  by (simp_all add: fun_eq_iff seg_delim_def lit_delim_def escaped_at_def esc_count_def
      escapable_at_def tok_wf_def)

definition span_of :: "nat list \<Rightarrow> LiteralSpan" where
  "span_of r = \<lparr>start = hd r, len = length r, escape_prefix_before_start = 0\<rparr>"

definition lit_span_of :: "tokenizer \<Rightarrow> nat \<Rightarrow> nat list \<Rightarrow> LiteralSpan" where
  "lit_span_of t base r =
    \<lparr>start = hd r, len = length r, escape_prefix_before_start = esc_count t base (hd r)\<rparr>"

lemma all_segments_from:
  "tok_wf t \<Longrightarrow> all_segments t =
     Some (map span_of (runs (\<lambda>k. \<not> seg_delim t k) [tok_pos t..<tok_plen t]))"
proof (induction "tok_plen t - tok_pos t" arbitrary: t rule: less_induct)
  case less
  define s where "s = run_end (seg_delim t) (tok_pos t) (tok_plen t)"
  define e where "e = run_end (\<lambda>k. \<not> seg_delim t k) s (tok_plen t)"
  show ?case
  proof (cases "tok_plen t \<le> s")
    case True
    with less.prems show ?thesis
      by (subst all_segments.simps) (simp add: NextSegment_eq runs_upt flip: s_def)
  next
    case False
    then have s: "s < tok_plen t" "\<not> seg_delim t s"
      using run_end_stop [of "seg_delim t" "tok_pos t" "tok_plen t"] by (auto simp: s_def)
    then have "s < e"
      unfolding e_def using run_end_ge [of "Suc s" "\<lambda>k. \<not> seg_delim t k" "tok_plen t"] by simp
    moreover have "tok_pos t \<le> s" by (simp add: s_def run_end_ge)
    ultimately have IH: "all_segments (t\<lparr>tok_pos := e, tok_lit_pos := s, tok_accum_esc_len := 0\<rparr>)
      = Some (map span_of (runs (\<lambda>k. \<not> seg_delim t k) [e..<tok_plen t]))"
      using less s by simp
    have r: "runs (\<lambda>k. \<not> seg_delim t k) [tok_pos t..<tok_plen t] =
      [s..<e] # runs (\<lambda>k. \<not> seg_delim t k) [e..<tok_plen t]"
      using s by (subst runs_upt) (simp flip: s_def e_def)
    have "span_of [s..<e] = first_span s e"
      using \<open>s < e\<close> by (simp add: span_of_def first_span_def)
    with s less.prems IH show ?thesis
      by (subst all_segments.simps) (simp add: NextSegment_eq r del: runs.simps flip: s_def e_def)
  qed
qed

lemma esc_count_append: "i \<le> j \<Longrightarrow> j \<le> k \<Longrightarrow> esc_count t i j + esc_count t j k = esc_count t i k"
  using upt_add_eq_append [of i j "k - j"] by (simp add: esc_count_def)

lemma esc_count_lit_delims:
  "esc_count t i (run_end (lit_delim t) i n) = 0"
proof -
  have "\<not> escaped_at t k" if "i \<le> k" "k < run_end (lit_delim t) i n" for k
    using run_end_inside [OF that] by (simp add: lit_delim_def)
  then show ?thesis by (simp add: esc_count_def filter_empty_conv)
qed

lemma all_literals_from:
  "tok_wf t \<Longrightarrow> start seg + len seg \<le> tok_plen t \<Longrightarrow>
   (\<And>k. start seg \<le> k \<Longrightarrow> k < start seg + len seg \<Longrightarrow> \<not> seg_delim t k) \<Longrightarrow>
   start seg \<le> tok_lit_pos t \<Longrightarrow>
   tok_accum_esc_len t = esc_count t (start seg) (tok_lit_pos t) \<Longrightarrow>
   all_literals t seg = Some (map (lit_span_of t (start seg))
     (runs (\<lambda>k. \<not> lit_delim t k) [tok_lit_pos t..<start seg + len seg]))"
proof (induction "start seg + len seg - tok_lit_pos t" arbitrary: t rule: less_induct)
  case less
  define stop where "stop = start seg + len seg"
  let ?P = "\<lambda>k. \<not> lit_delim t k"
  define s where "s = run_end (lit_delim t) (tok_lit_pos t) stop"
  define e where "e = run_end ?P s stop"
  have acc: "tok_accum_esc_len t \<le> tok_lit_pos t"
    using less.prems esc_count_le [of "start seg" "tok_lit_pos t" t] by simp
  have ls: "tok_lit_pos t \<le> s" by (simp add: s_def run_end_ge)
  have accs: "tok_accum_esc_len t = esc_count t (start seg) s"
    using esc_count_append [of "start seg" "tok_lit_pos t" s t] less.prems ls
      esc_count_lit_delims [of t "tok_lit_pos t" stop]
    by (simp flip: s_def)
  have same: "run_end (\<lambda>k. \<not> lit_delim t k \<and> \<not> seg_delim t k) s stop = e"
  proof -
    have "takeWhile (\<lambda>k. \<not> lit_delim t k \<and> \<not> seg_delim t k) [s..<stop] = takeWhile ?P [s..<stop]"
      using less.prems ls by (intro takeWhile_cong) (auto simp: stop_def)
    then show ?thesis by (simp add: run_end_def e_def)
  qed
  let ?t' = "t\<lparr>tok_lit_pos := e, tok_accum_esc_len := tok_accum_esc_len t + esc_count t s e\<rparr>"
  have NL: "NextLiteral t seg = Some (if stop \<le> s then (nullopt, t\<lparr>tok_lit_pos := s\<rparr>)
     else (Val \<lparr>start = s, len = e - s, escape_prefix_before_start = tok_accum_esc_len t\<rparr>, ?t'))"
    using NextLiteral_eq [OF less.prems(1,2) acc]
    by (simp add: Let_def same flip: stop_def s_def)
  show ?case
  proof (cases "stop \<le> s")
    case True
    then show ?thesis unfolding stop_def [symmetric]
      by (subst all_literals.simps) (simp add: NL runs_upt Let_def flip: s_def)
  next
    case False
    then have s: "s < stop" "?P s"
      using run_end_stop [of "lit_delim t" "tok_lit_pos t" stop] by (auto simp: s_def)
    then have "s < e"
      unfolding e_def using run_end_ge [of "Suc s" ?P stop] by simp
    have "all_literals ?t' seg =
      Some (map (lit_span_of t (start seg)) (runs ?P [e..<stop]))"
      using less.hyps [of ?t'] less.prems s \<open>s < e\<close> ls accs esc_count_append [of "start seg" s e t]
      by (simp add: lit_span_of_def [abs_def] flip: stop_def)
    moreover have "runs ?P [tok_lit_pos t..<stop] = [s..<e] # runs ?P [e..<stop]"
      using s by (subst runs_upt) (simp flip: s_def e_def)
    moreover have "lit_span_of t (start seg) [s..<e] =
      \<lparr>start = s, len = e - s, escape_prefix_before_start = tok_accum_esc_len t\<rparr>"
      using \<open>s < e\<close> accs by (simp add: lit_span_of_def)
    ultimately show ?thesis using s less.prems unfolding stop_def [symmetric]
      by (subst all_literals.simps) (simp add: NL)
  qed
qed

subsection \<open>The documented escapes\<close>

text \<open>
  \<open>The escape character immediately before %, _, or itself makes that character literal.\<close>  An escape
  character that was itself made literal makes nothing literal.
\<close>

fun made_literal :: "byte option \<Rightarrow> bytes \<Rightarrow> nat \<Rightarrow> bool" where
  "made_literal esc p 0 \<longleftrightarrow> False"
| "made_literal esc p (Suc i) \<longleftrightarrow>
    esc = Some (p ! i) \<and> \<not> made_literal esc p i \<and> p ! Suc i \<in> {PERCENTAGE, UNDERSCORE, p ! i}"

definition percent_at :: "byte option \<Rightarrow> bytes \<Rightarrow> nat \<Rightarrow> bool" where
  "percent_at esc p i \<longleftrightarrow> p ! i = PERCENTAGE \<and> \<not> made_literal esc p i"

definition underscore_at :: "byte option \<Rightarrow> bytes \<Rightarrow> nat \<Rightarrow> bool" where
  "underscore_at esc p i \<longleftrightarrow> p ! i = UNDERSCORE \<and> \<not> made_literal esc p i"

text \<open>A literal with the number of escape prefixes that the documentation counts before it.\<close>

definition documented_literal :: "byte option \<Rightarrow> bytes \<Rightarrow> nat \<Rightarrow> nat list \<Rightarrow> LiteralSpan" where
  "documented_literal esc p base r =
    \<lparr>start = hd r, len = length r,
     escape_prefix_before_start = length (filter (made_literal esc p) [base..<hd r])\<rparr>"

text \<open>
  The only places where the code, which looks at the byte before alone, differs: an escapable byte
  right behind an escape character that is itself literal.
\<close>

definition after_literal_escape :: "byte option \<Rightarrow> bytes \<Rightarrow> nat \<Rightarrow> bool" where
  "after_literal_escape esc p i \<longleftrightarrow>
    0 < i \<and> esc = Some (p ! (i - 1)) \<and> made_literal esc p (i - 1) \<and> p ! i \<in> {PERCENTAGE, UNDERSCORE, p ! (i - 1)}"

definition escape_of :: "tokenizer \<Rightarrow> byte option" where
  "escape_of t = (if tok_has_escape t then Some (tok_esc_char t) else None)"

lemma escaped_documented:
  "escaped_at t i \<and> escapable_at t i \<longleftrightarrow>
    made_literal (escape_of t) (tok_p t) i \<or> after_literal_escape (escape_of t) (tok_p t) i"
  by (cases i) (auto simp: escaped_at_def escapable_at_def escape_of_def after_literal_escape_def)

lemma not_both: "after_literal_escape esc p i \<Longrightarrow> \<not> made_literal esc p i"
  by (cases i) (auto simp: after_literal_escape_def)

lemma delims_documented:
  "seg_delim t i \<longleftrightarrow> percent_at (escape_of t) (tok_p t) i \<and> \<not> after_literal_escape (escape_of t) (tok_p t) i"
  "lit_delim t i \<longleftrightarrow> underscore_at (escape_of t) (tok_p t) i \<and> \<not> after_literal_escape (escape_of t) (tok_p t) i"
  using escaped_documented [of t i]
  by (auto simp: seg_delim_def lit_delim_def percent_at_def underscore_at_def escapable_at_def)

lemma span_of_inj: "inj_on span_of {[a..<b] | a b. a < b}"
  by (auto simp: inj_on_def span_of_def) (metis add_diff_inverse_nat nat_less_le not_less)

lemma spans_eq_iff:
  "map span_of (runs P [0..<n]) = map span_of (runs Q [0..<n]) \<longleftrightarrow> (\<forall>k<n. P k = Q k)"
proof
  have "set (runs P [0..<n]) \<union> set (runs Q [0..<n]) \<subseteq> {[a..<b] | a b. a < b}"
    using runs_upt_consecutive by fastforce
  then have inj: "inj_on span_of (set (runs P [0..<n]) \<union> set (runs Q [0..<n]))"
    by (rule inj_on_subset [OF span_of_inj])
  assume "map span_of (runs P [0..<n]) = map span_of (runs Q [0..<n])"
  with inj have "runs P [0..<n] = runs Q [0..<n]" by (simp only: inj_on_map_eq_map)
  then have "filter P [0..<n] = filter Q [0..<n]" by (simp flip: concat_runs)
  then show "\<forall>k<n. P k = Q k" by (auto dest!: arg_cong [of _ _ set] simp: set_eq_iff)
qed (auto intro!: arg_cong [of _ _ "map span_of"] runs_cong)

subsection \<open>Escapes\<close>

definition span_bytes :: "bytes \<Rightarrow> LiteralSpan \<Rightarrow> bytes" where
  "span_bytes p s = take (len s) (drop (start s) p)"

fun strip :: "byte \<Rightarrow> bytes \<Rightarrow> bytes" where
  "strip e [] = []"
| "strip e [x] = (if x = e then [] else [x])"
| "strip e (x # y # ys) = (if x = e then y # strip e ys else x # strip e (y # ys))"

fun escape :: "byte \<Rightarrow> bytes \<Rightarrow> bytes" where
  "escape e [] = []"
| "escape e (c # cs) =
    (if c \<in> {PERCENTAGE, UNDERSCORE, e} then [e, c] else [c]) @ escape e cs"

lemma strip_loop_eq:
  "stop \<le> length (tok_p t) \<Longrightarrow>
   strip_loop t stop src out = Some (out @ strip (tok_esc_char t) (take (stop - src) (drop src (tok_p t))))"
proof (induction "stop - src" arbitrary: src out rule: less_induct)
  case less
  let ?p = "tok_p t"
  show ?case
  proof (cases "src < stop")
    case True
    with less.prems have 1: "drop src ?p = ?p ! src # drop (Suc src) ?p"
      by (simp add: Cons_nth_drop_Suc)
    show ?thesis
    proof (cases "Suc src < stop")
      case t2: True
      with less.prems have 2: "drop (Suc src) ?p = ?p ! Suc src # drop (Suc (Suc src)) ?p"
        by (simp add: Cons_nth_drop_Suc)
      obtain m where m: "stop = Suc (Suc (src + m))" using t2 less_iff_Suc_add by auto
      then have "take (stop - src) (drop src ?p) = ?p ! src # ?p ! Suc src # take m (drop (Suc (Suc src)) ?p)"
        "take (stop - Suc src) (drop (Suc src) ?p) = ?p ! Suc src # take m (drop (Suc (Suc src)) ?p)"
        "take (stop - Suc (Suc src)) (drop (Suc (Suc src)) ?p) = take m (drop (Suc (Suc src)) ?p)"
        using 1 2 by simp_all
      with less.hyps [of "Suc src"] less.hyps [of "Suc (Suc src)"] True t2 less.prems show ?thesis
        by (subst strip_loop.simps) simp
    next
      case False
      with True have m: "stop = Suc src" by simp
      with less.hyps [of "Suc src"] True less.prems 1 show ?thesis
        by (subst strip_loop.simps) simp
    qed
  next
    case False
    then show ?thesis by (subst strip_loop.simps) simp
  qed
qed

lemma strip_escape: "strip e (escape e xs) = xs"
  by (induction xs rule: induct_list012) (auto simp: neq_Nil_conv)

lemma strip_length: "length (strip e xs) \<le> length xs"
  by (induction e xs rule: strip.induct) auto

lemma escape_eq_Nil [simp]: "escape e xs = [] \<longleftrightarrow> xs = []"
  by (cases xs) auto

lemma escape_guard:
  "k < length (escape e xs) \<Longrightarrow> escape e xs ! k \<in> {PERCENTAGE, UNDERSCORE} \<Longrightarrow>
   e \<notin> {PERCENTAGE, UNDERSCORE} \<Longrightarrow> 0 < k \<and> escape e xs ! (k - 1) = e"
proof (induction xs arbitrary: k)
  case (Cons c cs)
  show ?case
  proof (cases "c \<in> {PERCENTAGE, UNDERSCORE, e}")
    case True
    then show ?thesis using Cons.prems Cons.IH [of "k - 2"]
      by (cases k; cases "k - 1") (auto simp: nth_Cons split: nat.splits)
  next
    case False
    then show ?thesis using Cons.prems Cons.IH [of "k - 1"]
      by (cases k) (auto simp: nth_Cons split: nat.splits)
  qed
qed simp

lemma StripEscapes_eq:
  "start s + len s \<le> length (tok_p t) \<Longrightarrow>
   StripEscapes t s = Some (if tok_has_escape t then strip (tok_esc_char t) (span_bytes (tok_p t) s)
                            else span_bytes (tok_p t) s)"
  by (simp add: StripEscapes_def span_bytes_def strip_loop_eq)

lemma Tokenizer_fields [simp]:
  "tok_p (Tokenizer p n esc) = p" "tok_plen (Tokenizer p n esc) = n"
  "tok_pos (Tokenizer p n esc) = 0" "tok_lit_pos (Tokenizer p n esc) = 0"
  "tok_accum_esc_len (Tokenizer p n esc) = 0" "tok_has_escape (Tokenizer p n esc) = (esc \<noteq> [])"
  "tok_esc_char (Tokenizer p n (e # es)) = e"
  by (simp_all add: Tokenizer_def)

lemma span_bytes_run: "b \<le> length p \<Longrightarrow> a < b \<Longrightarrow> span_bytes p (span_of [a..<b]) = map ((!) p) [a..<b]"
  by (simp add: span_bytes_def span_of_def) (intro nth_equalityI; simp)

subsection \<open>Properties\<close>

text \<open>Property C18: iterating \<open>NextSegment\<close> until it is exhausted terminates.  The segments are the
  maximal non-empty runs between the percent signs that the documentation leaves as wildcards, so that
  leading, trailing and doubled percent signs yield no empty segment, exactly if no percent sign stands
  right behind an escape character that is itself escaped.\<close>

theorem tokenize_segments:
  fixes p plen esc
  defines "E \<equiv> escape_of (Tokenizer p plen esc)"
  assumes "plen \<le> length p" "plen < 2 ^ 32"
  shows "\<exists>ss. all_segments (Tokenizer p plen esc) = Some ss \<and>
    (ss = map span_of (runs (\<lambda>k. \<not> percent_at E p k) [0..<plen]) \<longleftrightarrow>
      \<not> (\<exists>i<plen. p ! i = PERCENTAGE \<and> after_literal_escape E p i))"
proof -
  have "percent_at E p i \<longleftrightarrow> p ! i = PERCENTAGE" if "after_literal_escape E p i" for i
    using not_both [OF that] by (simp add: percent_at_def)
  moreover have "p ! i = PERCENTAGE" if "percent_at E p i" for i using that by (simp add: percent_at_def)
  moreover have "all_segments (Tokenizer p plen esc) =
      Some (map span_of (runs (\<lambda>k. \<not> seg_delim (Tokenizer p plen esc) k) [0..<plen]))"
    using assms by (simp add: all_segments_from tok_wf_def)
  ultimately show ?thesis by (auto simp: spans_eq_iff delims_documented simp flip: E_def)
qed

theorem tokenize_segments_witness:
  "\<exists>ss. all_segments (Tokenizer [0x21, 0x21, 0x25] 3 [0x21]) = Some ss \<and>
    ss \<noteq> map span_of (runs (\<lambda>k. \<not> percent_at (Some 0x21) [0x21, 0x21, 0x25] k) [0..<3])"
proof -
  have "after_literal_escape (Some 0x21) [0x21, 0x21, 0x25] 2"
    by (simp add: after_literal_escape_def PERCENTAGE_def)
  then show ?thesis using tokenize_segments [of 3 "[0x21, 0x21, 0x25]" "[0x21]"]
    by (auto simp: escape_of_def PERCENTAGE_def intro!: exI [of _ "2 :: nat"])
qed

text \<open>Without an escape character the bytes of the segments are the pattern split
  at its percent signs, empty pieces left out.\<close>

theorem tokenize_segments_plain:
  assumes "length p < 2 ^ 32"
  shows "map_option (map (span_bytes p)) (all_segments (Tokenizer p (length p) [])) =
    Some (runs (\<lambda>b. b \<noteq> PERCENTAGE) p)"
proof -
  let ?P = "\<lambda>k. p ! k \<noteq> PERCENTAGE"
  have d: "seg_delim (Tokenizer p (length p) []) k \<longleftrightarrow> p ! k = PERCENTAGE" for k
    by (simp add: seg_delim_def escaped_at_def)
  have "map (span_bytes p \<circ> span_of) (runs ?P [0..<length p]) = map (map ((!) p)) (runs ?P [0..<length p])"
    by (intro map_cong refl) (auto dest!: runs_upt_consecutive simp: span_bytes_run)
  also have "\<dots> = runs (\<lambda>b. b \<noteq> PERCENTAGE) p"
    using runs_nth [of "length p" p "\<lambda>b. b \<noteq> PERCENTAGE"] by simp
  finally show ?thesis using assms
    by (simp add: all_segments_from tok_wf_def d)
qed

theorem tokenize_segments_plain_witness:
  "map_option (map (span_bytes [0x25, 0x61, 0x25, 0x25, 0x62]))
     (all_segments (Tokenizer [0x25, 0x61, 0x25, 0x25, 0x62] 5 [])) = Some [[0x61], [0x62]]"
  using tokenize_segments_plain [of "[0x25, 0x61, 0x25, 0x25, 0x62]"]
  by (simp add: PERCENTAGE_def flip: numeral_2_eq_2)

lemma all_literals_of_segment:
  assumes "tok_wf t" "NextSegment t = Some (Val seg, t')"
  shows "all_literals t' seg =
    Some (map (lit_span_of t (start seg))
      (runs (\<lambda>k. \<not> lit_delim t k) [start seg..<start seg + len seg]))"
proof -
  define s where "s = run_end (seg_delim t) (tok_pos t) (tok_plen t)"
  define e where "e = run_end (\<lambda>k. \<not> seg_delim t k) s (tok_plen t)"
  have s: "s < tok_plen t" and seg: "seg = first_span s e"
    and t': "t' = t\<lparr>tok_pos := e, tok_lit_pos := s, tok_accum_esc_len := 0\<rparr>"
    using assms by (auto simp: NextSegment_eq Let_def simp flip: s_def e_def split: if_splits)
  have "s \<le> e" "e \<le> tok_plen t"
    using s run_end_ge [of s] run_end_le [of s "tok_plen t"] unfolding e_def by simp_all
  moreover have "\<not> seg_delim t k" if "s \<le> k" "k < e" for k
    using run_end_inside [of s k "\<lambda>k. \<not> seg_delim t k"] that unfolding e_def by blast
  ultimately show ?thesis using assms(1)
    by (subst all_literals_from)
       (auto simp: seg t' first_span_def lit_span_of_def [abs_def])
qed

text \<open>Property C19: inside a segment that \<open>NextSegment\<close> returned, iterating \<open>NextLiteral\<close> terminates and
  yields exactly the maximal runs between the underscores that the documentation leaves as wildcards,
  each with the number of bytes that an escape character makes literal from the segment's start up to
  the literal; provided that in the segment no escapable byte stands right behind an escape character
  that is itself escaped.\<close>

theorem tokenize_literals:
  fixes t
  defines "E \<equiv> escape_of t"
  assumes "tok_wf t" "NextSegment t = Some (Val seg, t')"
    "\<forall>i \<in> {start seg..<start seg + len seg}. \<not> after_literal_escape E (tok_p t) i"
  shows "all_literals t' seg =
    Some (map (documented_literal E (tok_p t) (start seg))
      (runs (\<lambda>k. \<not> underscore_at E (tok_p t) k) [start seg..<start seg + len seg]))"
proof -
  let ?stop = "start seg + len seg"
  have "runs (\<lambda>k. \<not> lit_delim t k) [start seg..<?stop] = runs (\<lambda>k. \<not> underscore_at E (tok_p t) k) [start seg..<?stop]"
    using assms(4) by (intro runs_cong) (auto simp: delims_documented E_def)
  moreover have "lit_span_of t (start seg) r = documented_literal E (tok_p t) (start seg) r"
    if r: "r \<in> set (runs P [start seg..<?stop])" for r P
  proof -
    obtain a b where "r = [a..<b]" "start seg \<le> a" "a < b" "b \<le> ?stop" using runs_upt_consecutive [OF r] by blast
    then have "filter (\<lambda>k. escaped_at t k \<and> escapable_at t k) [start seg..<hd r] = filter (made_literal E (tok_p t)) [start seg..<hd r]"
      using assms(4) unfolding escaped_documented by (intro filter_cong refl) (auto simp: E_def)
    then show ?thesis by (simp add: lit_span_of_def documented_literal_def esc_count_def)
  qed
  ultimately show ?thesis using all_literals_of_segment [OF assms(2,3)] by (auto intro: map_cong)
qed

theorem tokenize_literals_witness:
  "all_literals ((Tokenizer [0x21, 0x5F, 0x5F, 0x62] 4 [0x21])\<lparr>tok_pos := 4\<rparr>) (first_span 0 4) =
    Some (map (documented_literal (Some 0x21) [0x21, 0x5F, 0x5F, 0x62] 0)
      (runs (\<lambda>k. \<not> underscore_at (Some 0x21) [0x21, 0x5F, 0x5F, 0x62] k) [0..<4]))"
proof -
  let ?t = "Tokenizer [0x21, 0x5F, 0x5F, 0x62] 4 [0x21]"
  have "tok_wf ?t" by (simp add: tok_wf_def)
  moreover from this have "NextSegment ?t = Some (Val (first_span 0 4), ?t\<lparr>tok_pos := 4\<rparr>)"
    by (simp add: NextSegment_eq run_end_def upt_rec seg_delim_def escaped_at_def PERCENTAGE_def
        Tokenizer_def flip: numeral_2_eq_2 numeral_3_eq_3)
  moreover have "\<forall>i \<in> {0..<4}. \<not> after_literal_escape (Some 0x21) [0x21, 0x5F, 0x5F, 0x62] i"
    by (simp add: after_literal_escape_def PERCENTAGE_def UNDERSCORE_def atLeastLessThan_nat_numeral)
  ultimately show ?thesis using tokenize_literals [of ?t "first_span 0 4" "?t\<lparr>tok_pos := 4\<rparr>"]
    by (simp add: first_span_def escape_of_def)
qed

text \<open>Property C17: a non-empty literal, escaped byte by byte with an escape character other than the wildcards, is read back by the tokenizer: it is
  one segment and one literal, whatever wildcards and escape characters it contains, and
  \<open>StripEscapes\<close> returns the original bytes.\<close>

theorem escape_roundtrip:
  assumes "xs \<noteq> []" "length (escape e xs) < 2 ^ 32" "e \<noteq> PERCENTAGE" "e \<noteq> UNDERSCORE"
  shows "do { (s, t) \<leftarrow> NextSegment (Tokenizer (escape e xs) (length (escape e xs)) [e]);
              (l, t) \<leftarrow> NextLiteral t (val s);
              c \<leftarrow> StripEscapes t (val l);
              (s', t') \<leftarrow> NextSegment t;
              (l', t'') \<leftarrow> NextLiteral t (val s);
              Some (s', l', c) } = Some (nullopt, nullopt, xs)"
proof -
  let ?p = "escape e xs"
  let ?n = "length ?p"
  let ?t = "Tokenizer ?p ?n [e]"
  have n: "0 < ?n" using assms(1) by simp
  have wf: "tok_wf ?t" using assms by (simp add: tok_wf_def)
  have guard: "\<not> seg_delim ?t k" "\<not> lit_delim ?t k" if "k < ?n" for k
    using escape_guard [OF that] assms(3,4)
    by (auto simp: seg_delim_def lit_delim_def escaped_at_def)
  have ends: "run_end (\<lambda>k. \<not> seg_delim ?t k) 0 ?n = ?n"
      "run_end (\<lambda>k. \<not> lit_delim ?t k \<and> \<not> seg_delim ?t k) 0 ?n = ?n"
    using guard by (auto intro!: run_end_all)
  let ?t1 = "?t\<lparr>tok_pos := ?n, tok_lit_pos := 0, tok_accum_esc_len := 0\<rparr>"
  let ?t2 = "?t\<lparr>tok_pos := ?n, tok_lit_pos := ?n, tok_accum_esc_len := esc_count ?t 0 ?n\<rparr>"
  have 1: "NextSegment ?t = Some (Val (first_span 0 ?n), ?t1)"
    using n guard ends by (simp add: NextSegment_eq [OF wf] Let_def del: run_end_step(1))
  have 2: "NextLiteral ?t1 (first_span 0 ?n) = Some (Val (first_span 0 ?n), ?t2)"
    using n guard ends wf
    by (simp add: NextLiteral_eq Let_def first_span_def del: run_end_step(1))
  have 3: "StripEscapes ?t2 (first_span 0 ?n) = Some xs"
    by (simp add: StripEscapes_eq first_span_def span_bytes_def strip_escape)
  have 4: "NextSegment ?t2 = Some (nullopt, ?t2)"
    using wf by (simp add: NextSegment_eq Let_def)
  have 5: "NextLiteral ?t2 (first_span 0 ?n) = Some (nullopt, ?t2)"
    using wf esc_count_le [of 0 ?n ?t] by (simp add: NextLiteral_eq Let_def first_span_def)
  show ?thesis by (simp add: 1 2 3 4 5)
qed

theorem escape_roundtrip_witness:
  "do { (s, t) \<leftarrow> NextSegment (Tokenizer (escape 0x21 [0x61, 0x25]) 3 [0x21]);
        (l, t) \<leftarrow> NextLiteral t (val s);
        c \<leftarrow> StripEscapes t (val l);
        (s', t') \<leftarrow> NextSegment t;
        (l', t'') \<leftarrow> NextLiteral t (val s);
        Some (s', l', c) } = Some (nullopt, nullopt, [0x61, 0x25])"
  using escape_roundtrip [of "[0x61, 0x25]" "0x21"]
  by (simp add: PERCENTAGE_def UNDERSCORE_def flip: numeral_2_eq_2)

end
