(* ===== verification/Interfaces.thy ===== *)
theory Interfaces
  imports Prelude "HOL-Library.Multiset"
begin

text \<open>
  The contracts between the components, as locales.  Each is interpreted on the model of the
  component that provides it, in that component's theory; the lemmas proved here once are what
  the clients of the component rely on.
\<close>

subsection \<open>A bounded cache of keyed entries\<close>

text \<open>The most recent entry first; inserting beyond the capacity drops the oldest.\<close>

definition touch :: "nat \<Rightarrow> 'k \<Rightarrow> 'v \<Rightarrow> ('k \<times> 'v) list \<Rightarrow> ('k \<times> 'v) list" where
  "touch cap k v xs = take cap ((k, v) # filter (\<lambda>kv. fst kv \<noteq> k) xs)"

definition forget :: "'k \<Rightarrow> ('k \<times> 'v) list \<Rightarrow> ('k \<times> 'v) list" where
  "forget k = filter (\<lambda>kv. fst kv \<noteq> k)"

lemma distinct_touch: "distinct (map fst xs) \<Longrightarrow> distinct (map fst (touch cap k v xs))"
  unfolding touch_def by (cases cap) (auto simp: distinct_map_filter simp flip: take_map dest: in_set_takeD)

lemma distinct_forget: "distinct (map fst xs) \<Longrightarrow> distinct (map fst (forget k xs))"
  unfolding forget_def by (rule distinct_map_filter)

lemma map_of_forget: "map_of (forget k xs) = (map_of xs)(k := None)"
  unfolding forget_def by (induction xs) (auto simp: fun_eq_iff)

locale bounded_cache =
  fixes upsert :: "'k \<Rightarrow> 'v \<Rightarrow> 'c \<Rightarrow> 'c option"
    and fetch :: "'k \<Rightarrow> 'c \<Rightarrow> ('v \<times> 'c) option"
    and contain :: "'k \<Rightarrow> 'c \<Rightarrow> bool"
    and reset :: "nat \<Rightarrow> 'c \<Rightarrow> 'c"
    and inv :: "'c \<Rightarrow> bool"
    and content :: "'c \<Rightarrow> ('k \<times> 'v) list"
    and capacity :: "'c \<Rightarrow> nat"
  assumes upsert_law: "inv c \<Longrightarrow> \<exists>c'. upsert k v c = Some c' \<and> inv c' \<and>
      content c' = touch (capacity c) k v (content c) \<and> capacity c' = capacity c"
    and fetch_law: "inv c \<Longrightarrow> map_of (content c) k = Some v \<Longrightarrow> \<exists>c'. fetch k c = Some (v, c') \<and> inv c' \<and>
      content c' = forget k (content c) \<and> capacity c' = capacity c"
    and fetch_fault_law: "inv c \<Longrightarrow> map_of (content c) k = None \<Longrightarrow> fetch k c = None"
    and contain_law: "inv c \<Longrightarrow> contain k c \<longleftrightarrow> map_of (content c) k \<noteq> None"
    and reset_law: "inv (reset n c)" "content (reset n c) = []" "capacity (reset n c) = n"
    and content_law: "inv c \<Longrightarrow> distinct (map fst (content c)) \<and> length (content c) \<le> capacity c"
begin

lemma fetch_iff_contain: "inv c \<Longrightarrow> contain k c \<longleftrightarrow> fetch k c \<noteq> None"
  using fetch_law [of c k] fetch_fault_law [of c k] contain_law [of c k] by fastforce

lemma upsert_then_fetch:
  assumes "inv c" "0 < capacity c"
  shows "\<exists>c'. do { d \<leftarrow> upsert k v c; fetch k d } = Some (v, c')"
proof -
  obtain d where d: "upsert k v c = Some d" "inv d" "content d = touch (capacity c) k v (content c)"
    using upsert_law [OF assms(1)] by blast
  have "map_of (content d) k = Some v" using assms(2) by (cases "capacity c") (simp_all add: d touch_def)
  from fetch_law [OF d(2) this] obtain e where "fetch k d = Some (v, e)" by blast
  with d(1) show ?thesis by simp
qed

text \<open>As long as the keys in use fit the capacity, no entry is ever dropped.\<close>

lemma upsert_keeps_all:
  assumes "inv c" "finite K" "card K \<le> capacity c" "fst ` set (content c) \<subseteq> K" "k \<in> K"
  shows "\<exists>c'. upsert k v c = Some c' \<and> inv c' \<and> content c' = (k, v) # forget k (content c)
    \<and> capacity c' = capacity c \<and> map_of (content c') = (map_of (content c))(k \<mapsto> v)"
proof -
  have d: "distinct (map fst (forget k (content c)))"
    using content_law [OF assms(1)] by (intro distinct_forget) simp
  have "set (map fst (forget k (content c))) \<subseteq> K - {k}" using assms(4) by (auto simp: forget_def)
  then have "card (set (map fst (forget k (content c)))) \<le> card (K - {k})"
    using assms(2) by (intro card_mono) auto
  then have "length (forget k (content c)) \<le> card K - 1"
    using distinct_card [OF d] assms(2,5) by simp
  moreover have "0 < card K" using assms(2,5) card_gt_0_iff by blast
  ultimately have "Suc (length (forget k (content c))) \<le> capacity c" using assms(3) by linarith
  then have t: "touch (capacity c) k v (content c) = (k, v) # forget k (content c)"
    by (simp add: touch_def forget_def)
  have "map_of ((k, v) # forget k (content c)) = (map_of (content c))(k \<mapsto> v)"
    by (simp add: map_of_forget)
  with t upsert_law [OF assms(1), of k v] show ?thesis by auto
qed

end

subsection \<open>A queue that serves the smallest key\<close>

locale min_queue =
  fixes insert :: "'a \<Rightarrow> 'q \<Rightarrow> 'q"
    and front :: "'q \<Rightarrow> 'a option"
    and pop :: "'q \<Rightarrow> 'q option"
    and empty_q :: "'q"
    and key :: "'a \<Rightarrow> nat"
    and inv :: "'q \<Rightarrow> bool"
    and items :: "'q \<Rightarrow> 'a multiset"
  assumes empty_law: "inv empty_q" "items empty_q = {#}"
    and insert_law: "inv q \<Longrightarrow> inv (insert x q)" "inv q \<Longrightarrow> items (insert x q) = items q + {#x#}"
    and front_law: "inv q \<Longrightarrow> items q \<noteq> {#} \<Longrightarrow>
      \<exists>x. front q = Some x \<and> x \<in># items q \<and> (\<forall>y \<in># items q. key x \<le> key y)"
    and front_empty_law: "inv q \<Longrightarrow> items q = {#} \<Longrightarrow> front q = None"
    and pop_law: "inv q \<Longrightarrow> front q = Some x \<Longrightarrow>
      \<exists>q'. pop q = Some q' \<and> inv q' \<and> items q' = items q - {#x#}"
begin

lemma front_in: "inv q \<Longrightarrow> front q = Some x \<Longrightarrow> x \<in># items q"
  using front_law [of q] front_empty_law [of q] by (cases "items q = {#}") auto

lemma front_minimal: "inv q \<Longrightarrow> front q = Some x \<Longrightarrow> y \<in># items q \<Longrightarrow> key x \<le> key y"
  using front_law [of q] front_empty_law [of q] by (cases "items q = {#}") auto

lemma none_ready: "inv q \<Longrightarrow> (\<And>x. front q = Some x \<Longrightarrow> n < key x) \<Longrightarrow> y \<in># items q \<Longrightarrow> n < key y"
proof -
  assume a: "inv q" "\<And>x. front q = Some x \<Longrightarrow> n < key x" "y \<in># items q"
  then obtain x where "front q = Some x" using front_law [of q] by (cases "items q = {#}") auto
  with a front_minimal [OF a(1) this a(3)] show "n < key y" by fastforce
qed

lemma pop_smaller: "inv q \<Longrightarrow> front q = Some x \<Longrightarrow> pop q = Some q' \<Longrightarrow> size (items q') < size (items q)"
  using pop_law [of q x] front_in [of q x] by (auto simp: size_Diff_singleton nonempty_has_size [symmetric] intro!: diff_less)

end

subsection \<open>A map with a size limit\<close>

text \<open>
  The contract of a hash map: \<open>put_new\<close> keeps an old value, \<open>put\<close> replaces it, \<open>at\<close> faults exactly
  on a missing key.  Insertions are promised as long as fewer than \<open>limit\<close> keys are stored.
\<close>

locale dictionary =
  fixes contains :: "'m \<Rightarrow> 'k \<Rightarrow> bool option"
    and at :: "'m \<Rightarrow> 'k \<Rightarrow> 'v option"
    and put_new :: "'m \<Rightarrow> 'k \<Rightarrow> 'v \<Rightarrow> (nat \<times> bool \<times> 'm) option"
    and put :: "'m \<Rightarrow> 'k \<Rightarrow> 'v \<Rightarrow> (nat \<times> bool \<times> 'm) option"
    and del :: "'m \<Rightarrow> 'k \<Rightarrow> (nat \<times> 'm) option"
    and inv :: "'m \<Rightarrow> bool"
    and content :: "'m \<Rightarrow> 'k \<Rightarrow> 'v option"
    and limit :: "'m \<Rightarrow> nat"
  assumes finite_law: "inv m \<Longrightarrow> finite (dom (content m))"
    and contains_law: "inv m \<Longrightarrow> contains m k = Some (content m k \<noteq> None)"
    and at_law: "inv m \<Longrightarrow> at m k = content m k"
    and put_new_law: "inv m \<Longrightarrow> card (dom (content m)) < limit m \<Longrightarrow>
      \<exists>i m'. put_new m k v = Some (i, content m k = None, m') \<and> inv m' \<and> limit m' = limit m \<and>
        content m' = (if content m k = None then (content m)(k \<mapsto> v) else content m)"
    and put_law: "inv m \<Longrightarrow> card (dom (content m)) < limit m \<Longrightarrow>
      \<exists>i m'. put m k v = Some (i, content m k = None, m') \<and> inv m' \<and> limit m' = limit m \<and>
        content m' = (content m)(k \<mapsto> v)"
    and del_law: "inv m \<Longrightarrow> \<exists>m'. del m k = Some (if content m k = None then 0 else 1, m') \<and> inv m' \<and>
      limit m' = limit m \<and> content m' = (content m)(k := None)"

text \<open>Sequences of operations with their answers, on an implementation and on a partial function.\<close>

datatype ('k, 'v) map_op = Put 'k 'v | Put_new 'k 'v | Del 'k | Ask 'k

datatype 'v map_answer = Inserted bool | Erased nat | Found "'v option"

fun map_op_run ::
  "('m \<Rightarrow> 'k \<Rightarrow> bool option) \<Rightarrow> ('m \<Rightarrow> 'k \<Rightarrow> 'v option) \<Rightarrow> ('m \<Rightarrow> 'k \<Rightarrow> 'v \<Rightarrow> (nat \<times> bool \<times> 'm) option) \<Rightarrow>
   ('m \<Rightarrow> 'k \<Rightarrow> 'v \<Rightarrow> (nat \<times> bool \<times> 'm) option) \<Rightarrow> ('m \<Rightarrow> 'k \<Rightarrow> (nat \<times> 'm) option) \<Rightarrow>
   ('k, 'v) map_op \<Rightarrow> 'm \<Rightarrow> ('v map_answer \<times> 'm) option" where
  "map_op_run contains at put_new put del (Put k v) m = do { (_, b, m) \<leftarrow> put m k v; Some (Inserted b, m) }"
| "map_op_run contains at put_new put del (Put_new k v) m = do { (_, b, m) \<leftarrow> put_new m k v; Some (Inserted b, m) }"
| "map_op_run contains at put_new put del (Del k) m = do { (n, m) \<leftarrow> del m k; Some (Erased n, m) }"
| "map_op_run contains at put_new put del (Ask k) m = do {
     c \<leftarrow> contains m k;
     if c then do { v \<leftarrow> at m k; Some (Found (Some v), m) } else Some (Found None, m) }"

fun ops_run :: "('o \<Rightarrow> 'm \<Rightarrow> ('a \<times> 'm) option) \<Rightarrow> 'o list \<Rightarrow> 'm \<Rightarrow> ('a list \<times> 'm) option" where
  "ops_run f [] m = Some ([], m)"
| "ops_run f (x # xs) m = do { (a, m) \<leftarrow> f x m; (as, m) \<leftarrow> ops_run f xs m; Some (a # as, m) }"

fun map_op_spec :: "('k, 'v) map_op \<Rightarrow> ('k \<Rightarrow> 'v option) \<Rightarrow> 'v map_answer \<times> ('k \<Rightarrow> 'v option)" where
  "map_op_spec (Put k v) f = (Inserted (f k = None), f(k \<mapsto> v))"
| "map_op_spec (Put_new k v) f = (Inserted (f k = None), if f k = None then f(k \<mapsto> v) else f)"
| "map_op_spec (Del k) f = (Erased (if f k = None then 0 else 1), f(k := None))"
| "map_op_spec (Ask k) f = (Found (f k), f)"

fun ops_spec :: "('o \<Rightarrow> 's \<Rightarrow> 'a \<times> 's) \<Rightarrow> 'o list \<Rightarrow> 's \<Rightarrow> 'a list \<times> 's" where
  "ops_spec f [] s = ([], s)"
| "ops_spec f (x # xs) s = (let (a, s) = f x s; (as, s) = ops_spec f xs s in (a # as, s))"

context dictionary
begin

lemma op_step:
  assumes "inv m" "card (dom (content m)) < limit m"
  shows "\<exists>m'. map_op_run contains at put_new put del x m = Some (fst (map_op_spec x (content m)), m') \<and> inv m' \<and>
    limit m' = limit m \<and> content m' = snd (map_op_spec x (content m)) \<and>
    card (dom (content m')) \<le> Suc (card (dom (content m)))"
proof (cases x)
  case (Put k v)
  obtain i m' where m': "put m k v = Some (i, content m k = None, m')" "inv m'" "limit m' = limit m"
    "content m' = (content m)(k \<mapsto> v)" using put_law [OF assms, of k v] by blast
  then show ?thesis using finite_law [OF assms(1)] by (simp add: Put card_insert_if)
next
  case (Put_new k v)
  obtain i m' where m': "put_new m k v = Some (i, content m k = None, m')" "inv m'" "limit m' = limit m"
    "content m' = (if content m k = None then (content m)(k \<mapsto> v) else content m)"
    using put_new_law [OF assms, of k v] by blast
  then show ?thesis using finite_law [OF assms(1)] by (simp add: Put_new card_insert_if)
next
  case (Del k)
  obtain m' where m': "del m k = Some (if content m k = None then 0 else 1, m')" "inv m'" "limit m' = limit m"
    "content m' = (content m)(k := None)" using del_law [OF assms(1), of k] by blast
  then show ?thesis using finite_law [OF assms(1)] card_Diff1_le [of "dom (content m)" k] by (simp add: Del)
next
  case (Ask k)
  then show ?thesis using assms contains_law [OF assms(1), of k] at_law [OF assms(1), of k]
    by (cases "content m k") simp_all
qed

lemma ops_refine:
  assumes "inv m" "card (dom (content m)) + length xs \<le> limit m"
  shows "\<exists>m'. ops_run (map_op_run contains at put_new put del) xs m =
      Some (fst (ops_spec map_op_spec xs (content m)), m') \<and>
    inv m' \<and> content m' = snd (ops_spec map_op_spec xs (content m))"
  using assms
proof (induction xs arbitrary: m)
  case (Cons x xs)
  then obtain m1 where m1: "map_op_run contains at put_new put del x m = Some (fst (map_op_spec x (content m)), m1)"
    "inv m1" "limit m1 = limit m" "content m1 = snd (map_op_spec x (content m))"
    "card (dom (content m1)) \<le> Suc (card (dom (content m)))"
    using op_step [of m x] by auto
  moreover from Cons.prems m1 have "card (dom (content m1)) + length xs \<le> limit m1" by simp
  ultimately obtain m2 where "ops_run (map_op_run contains at put_new put del) xs m1 =
      Some (fst (ops_spec map_op_spec xs (content m1)), m2)" "inv m2"
    "content m2 = snd (ops_spec map_op_spec xs (content m1))"
    using Cons.IH [of m1] by blast
  with m1 show ?case by (simp add: split_beta Let_def)
qed simp

lemma put_then_at:
  "inv m \<Longrightarrow> card (dom (content m)) < limit m \<Longrightarrow> \<exists>i b m'. put m k v = Some (i, b, m') \<and> at m' k = Some v"
  using put_law [of m k v] at_law by fastforce

end

subsection \<open>A sequence that grows at its end\<close>

text \<open>
  The contract of \<open>std::vector\<close> that \<open>flat_map.h\<close> asks of its containers: \<open>rep v xs\<close> says that \<open>v\<close> holds
  the elements \<open>xs\<close>; lookups and removals beyond the end fault.  Sequences stay shorter than \<open>limit\<close>.
\<close>

datatype 'a seq_op = Seq_push 'a | Seq_pop | Seq_get nat | Seq_resize nat 'a | Seq_clear | Seq_reserve nat | Seq_shrink

fun seq_op_spec :: "'a seq_op \<Rightarrow> 'a list \<Rightarrow> ('a option \<times> 'a list) option" where
  "seq_op_spec (Seq_push x) xs = Some (None, xs @ [x])"
| "seq_op_spec Seq_pop xs = (if xs = [] then None else Some (None, butlast xs))"
| "seq_op_spec (Seq_get i) xs = do { x \<leftarrow> rd xs i; Some (Some x, xs) }"
| "seq_op_spec (Seq_resize n x) xs = Some (None, take n xs @ replicate (n - length xs) x)"
| "seq_op_spec Seq_clear xs = Some (None, [])"
| "seq_op_spec (Seq_reserve n) xs = Some (None, xs)"
| "seq_op_spec Seq_shrink xs = Some (None, xs)"

fun seq_fits :: "nat \<Rightarrow> 'a seq_op list \<Rightarrow> 'a list \<Rightarrow> bool" where
  "seq_fits limit [] xs = (length xs < limit)"
| "seq_fits limit (x # ops) xs = (length xs < limit \<and>
     (case seq_op_spec x xs of None \<Rightarrow> True | Some (_, ys) \<Rightarrow> seq_fits limit ops ys))"

fun seq_op_run ::
  "('a \<Rightarrow> 'v \<Rightarrow> 'v option) \<Rightarrow> ('v \<Rightarrow> 'v option) \<Rightarrow> ('v \<Rightarrow> nat \<Rightarrow> 'a option) \<Rightarrow> (nat \<Rightarrow> 'a \<Rightarrow> 'v \<Rightarrow> 'v option) \<Rightarrow>
   ('v \<Rightarrow> 'v option) \<Rightarrow> (nat \<Rightarrow> 'v \<Rightarrow> 'v option) \<Rightarrow> ('v \<Rightarrow> 'v) \<Rightarrow> 'a seq_op \<Rightarrow> 'v \<Rightarrow> ('a option \<times> 'v) option" where
  "seq_op_run push pop get resize clear reserve shrink (Seq_push x) v = do { v \<leftarrow> push x v; Some (None, v) }"
| "seq_op_run push pop get resize clear reserve shrink Seq_pop v = do { v \<leftarrow> pop v; Some (None, v) }"
| "seq_op_run push pop get resize clear reserve shrink (Seq_get i) v = do { x \<leftarrow> get v i; Some (Some x, v) }"
| "seq_op_run push pop get resize clear reserve shrink (Seq_resize n x) v = do { v \<leftarrow> resize n x v; Some (None, v) }"
| "seq_op_run push pop get resize clear reserve shrink Seq_clear v = do { v \<leftarrow> clear v; Some (None, v) }"
| "seq_op_run push pop get resize clear reserve shrink (Seq_reserve n) v = do { v \<leftarrow> reserve n v; Some (None, v) }"
| "seq_op_run push pop get resize clear reserve shrink Seq_shrink v = Some (None, shrink v)"

locale sequence =
  fixes push :: "'a \<Rightarrow> 'v \<Rightarrow> 'v option"
    and pop :: "'v \<Rightarrow> 'v option"
    and get :: "'v \<Rightarrow> nat \<Rightarrow> 'a option"
    and resize :: "nat \<Rightarrow> 'a \<Rightarrow> 'v \<Rightarrow> 'v option"
    and clear :: "'v \<Rightarrow> 'v option"
    and reserve :: "nat \<Rightarrow> 'v \<Rightarrow> 'v option"
    and shrink :: "'v \<Rightarrow> 'v"
    and rep :: "'v \<Rightarrow> 'a list \<Rightarrow> bool"
    and limit :: nat
  assumes push_law: "rep v xs \<Longrightarrow> \<exists>v'. push x v = Some v' \<and> rep v' (xs @ [x])"
    and pop_law: "rep v xs \<Longrightarrow> length xs < limit \<Longrightarrow>
      if xs = [] then pop v = None else \<exists>v'. pop v = Some v' \<and> rep v' (butlast xs)"
    and get_law: "rep v xs \<Longrightarrow> get v i = rd xs i"
    and resize_law: "rep v xs \<Longrightarrow> \<exists>v'. resize n x v = Some v' \<and> rep v' (take n xs @ replicate (n - length xs) x)"
    and clear_law: "rep v xs \<Longrightarrow> \<exists>v'. clear v = Some v' \<and> rep v' []"
    and reserve_law: "rep v xs \<Longrightarrow> \<exists>v'. reserve n v = Some v' \<and> rep v' xs"
    and shrink_law: "rep v xs \<Longrightarrow> length xs < limit \<Longrightarrow> rep (shrink v) xs"
begin

lemma seq_step:
  assumes "rep v xs" "length xs < limit"
  shows "case seq_op_spec x xs of None \<Rightarrow> seq_op_run push pop get resize clear reserve shrink x v = None
    | Some (a, ys) \<Rightarrow> \<exists>v'. seq_op_run push pop get resize clear reserve shrink x v = Some (a, v') \<and> rep v' ys"
proof (cases x)
  case (Seq_push a)
  with push_law [OF assms(1), of a] show ?thesis by auto
next
  case Seq_pop
  with pop_law [OF assms] show ?thesis by (auto split: if_splits)
next
  case (Seq_get i)
  with get_law [OF assms(1), of i] assms(1) show ?thesis by (cases "rd xs i") auto
next
  case (Seq_resize n a)
  with resize_law [OF assms(1), of n a] show ?thesis by auto
next
  case Seq_clear
  with clear_law [OF assms(1)] show ?thesis by auto
next
  case (Seq_reserve n)
  with reserve_law [OF assms(1), of n] show ?thesis by auto
qed (use shrink_law [OF assms] in simp_all)

text \<open>Any sequence of operations answers, or faults, as on the list.\<close>

lemma seq_refines:
  "rep v xs \<Longrightarrow> seq_fits limit ops xs \<Longrightarrow>
    case ops_run seq_op_spec ops xs of
      None \<Rightarrow> ops_run (seq_op_run push pop get resize clear reserve shrink) ops v = None
    | Some (as, ys) \<Rightarrow> \<exists>v'. ops_run (seq_op_run push pop get resize clear reserve shrink) ops v = Some (as, v') \<and> rep v' ys"
proof (induction ops arbitrary: v xs)
  case (Cons x ops)
  have len: "length xs < limit" using Cons.prems(2) by simp
  show ?case
  proof (cases "seq_op_spec x xs")
    case None
    with seq_step [OF Cons.prems(1) len, of x] show ?thesis by simp
  next
    case (Some r)
    obtain a ys where r: "r = (a, ys)" by force
    with Some seq_step [OF Cons.prems(1) len, of x] obtain w where
      w: "seq_op_run push pop get resize clear reserve shrink x v = Some (a, w)" "rep w ys" by auto
    from Cons.IH [OF w(2)] Cons.prems(2) Some r w(1) show ?thesis
      by (cases "ops_run seq_op_spec ops ys") auto
  qed
qed simp

end

end
