(* ===== verification/LruCache.thy ===== *)
theory LruCache
  imports Interfaces "HOL-Library.AList"
begin

text \<open>
  \<open>src/src/include/common/lrucache.h\<close>.  \<open>std::list\<close> nodes carry an identity, which is what the
  iterators stored in \<open>item_map_\<close> hold: \<open>item_list\<close> is a list of (node, key, value) and
  \<open>item_map\<close> an association list from keys to nodes.  The first group of lemmas is about the
  node graph; the second proves that the two containers stay consistent (\<open>lru_inv\<close>) and that
  every operation refines the specification over the list of entries, which makes the class an
  instance of \<open>bounded_cache\<close>.
\<close>

record ('k, 'v) lru =
  item_list :: "(nat \<times> 'k \<times> 'v) list"
  item_map :: "('k \<times> nat) list"
  max_size :: nat
  fresh_node :: nat

definition LRUCache :: "nat \<Rightarrow> ('k, 'v) lru" where
  "LRUCache n = \<lparr>item_list = [], item_map = [], max_size = n, fresh_node = 0\<rparr>"

text \<open>\<open>std::list::erase\<close> of an iterator; the iterator must be in the list.\<close>

definition erase_node :: "nat \<Rightarrow> (nat \<times> 'a) list \<Rightarrow> (nat \<times> 'a) list option" where
  "erase_node n xs = (if n \<in> fst ` set xs then Some (filter (\<lambda>x. fst x \<noteq> n) xs) else None)"

definition Upsert :: "'k \<Rightarrow> 'v \<Rightarrow> ('k, 'v) lru \<Rightarrow> ('k, 'v) lru option" where
  "Upsert key v c = do {
     let it = map_of (item_map c) key;
     let node = fresh_node c;
     let items = (node, key, v) # item_list c;
     (items, m) \<leftarrow> (case it of
        None \<Rightarrow> Some (items, item_map c)
      | Some old \<Rightarrow> do {
          items \<leftarrow> erase_node old items;
          Some (items, AList.delete key (item_map c)) });
     let m = AList.update key node m;
     (items, m) \<leftarrow> (if length m > max_size c
        then (if items = [] then None
              else Some (butlast items, AList.delete (fst (snd (last items))) m))
        else Some (items, m));
     Some (c\<lparr>item_list := items, item_map := m, fresh_node := node + 1\<rparr>) }"

definition GetAndRemove :: "'k \<Rightarrow> ('k, 'v) lru \<Rightarrow> ('v \<times> ('k, 'v) lru) option" where
  "GetAndRemove key c = (case map_of (item_map c) key of
     None \<Rightarrow> None
   | Some node \<Rightarrow> do {
       kv \<leftarrow> map_of (item_list c) node;
       items \<leftarrow> erase_node node (item_list c);
       Some (snd kv, c\<lparr>item_list := items, item_map := AList.delete key (item_map c)\<rparr>) })"

definition Contain :: "'k \<Rightarrow> ('k, 'v) lru \<Rightarrow> bool" where
  "Contain key c \<longleftrightarrow> map_of (item_map c) key \<noteq> None"

definition Size :: "('k, 'v) lru \<Rightarrow> nat" where
  "Size c = length (item_map c)"

text \<open>No node is left, so the numbers of the nodes start over.\<close>

definition Reset :: "nat \<Rightarrow> ('k, 'v) lru \<Rightarrow> ('k, 'v) lru" where
  "Reset n c = c\<lparr>item_list := [], item_map := [], max_size := n, fresh_node := 0\<rparr>"

subsection \<open>Entries, nodes and the consistency of list and map\<close>

definition entries :: "('k, 'v) lru \<Rightarrow> ('k \<times> 'v) list" where
  "entries c = map snd (item_list c)"

definition nodes :: "(nat \<times> 'k \<times> 'v) list \<Rightarrow> 'k \<Rightarrow> nat option" where
  "nodes xs = map_of (map (\<lambda>x. (fst (snd x), fst x)) xs)"

definition lru_inv :: "('k, 'v) lru \<Rightarrow> bool" where
  "lru_inv c \<longleftrightarrow> distinct (map fst (item_list c)) \<and> distinct (map fst (entries c))
    \<and> distinct (map fst (item_map c)) \<and> (\<forall>x \<in> set (item_list c). fst x < fresh_node c)
    \<and> map_of (item_map c) = nodes (item_list c) \<and> length (item_list c) \<le> max_size c"

lemma nodes_Nil [simp]: "nodes [] = Map.empty"
  by (simp add: nodes_def)

lemma nodes_Cons [simp]: "nodes (x # xs) = (nodes xs)(fst (snd x) \<mapsto> fst x)"
  by (simp add: nodes_def)

lemma nodes_None: "nodes xs k = None \<longleftrightarrow> k \<notin> (fst \<circ> snd) ` set xs"
  by (induction xs) auto

lemma nodes_Some:
  "distinct (map (fst \<circ> snd) xs) \<Longrightarrow>
   nodes xs k = Some n \<longleftrightarrow> (\<exists>x \<in> set xs. fst x = n \<and> fst (snd x) = k)"
  by (induction xs) force+

lemma nodes_filter: "nodes (filter (\<lambda>x. fst (snd x) \<noteq> k) xs) = (nodes xs)(k := None)"
  by (induction xs) (auto simp: fun_eq_iff)

lemma nodes_butlast:
  "xs \<noteq> [] \<Longrightarrow> distinct (map (fst \<circ> snd) xs) \<Longrightarrow>
   nodes (butlast xs) = (nodes xs)(fst (snd (last xs)) := None)"
proof (induction xs)
  case (Cons x xs)
  show ?case
  proof (cases "xs = []")
    case False
    then have "last xs \<in> set xs" by simp
    then have "fst (snd x) \<noteq> fst (snd (last xs))" using Cons.prems by force
    with Cons False show ?thesis by (auto simp: fun_eq_iff)
  qed (simp add: fun_eq_iff)
qed simp

lemma map_length:
  "distinct (map fst m) \<Longrightarrow> distinct (map (fst \<circ> snd) xs) \<Longrightarrow> map_of m = nodes xs \<Longrightarrow>
   length m = length xs"
proof -
  assume a: "distinct (map fst m)" "distinct (map (fst \<circ> snd) xs)" "map_of m = nodes xs"
  have "set (map fst m) = dom (map_of m)" by (simp add: dom_map_of_conv_image_fst)
  also have "\<dots> = set (map (fst \<circ> snd) xs)"
    by (simp add: a(3) set_eq_iff domIff nodes_None del: not_None_eq)
  finally show ?thesis using a(1,2) by (metis distinct_card length_map)
qed

lemma entries_keys: "map fst (entries c) = map (fst \<circ> snd) (item_list c)"
  by (simp add: entries_def)

lemma lru_inv_Size: "lru_inv c \<Longrightarrow> Size c = length (entries c)"
  unfolding Size_def lru_inv_def entries_keys
  by (subst map_length [of "item_map c" "item_list c"]) (auto simp: entries_def)

lemma erase_node_key:
  assumes "distinct (map fst xs)" "distinct (map (fst \<circ> snd) xs)" "nodes xs k = Some n"
  shows "erase_node n xs = Some (filter (\<lambda>x. fst (snd x) \<noteq> k) xs)"
proof -
  obtain x where x: "x \<in> set xs" "fst x = n" "fst (snd x) = k"
    using nodes_Some assms(2,3) by metis
  have "fst y = n \<longleftrightarrow> y = x" "(fst \<circ> snd) y = k \<longleftrightarrow> y = x" if "y \<in> set xs" for y
    using x that assms(1,2) unfolding distinct_map inj_on_def by (metis, metis comp_apply)
  then have "fst y \<noteq> n \<longleftrightarrow> fst (snd y) \<noteq> k" if "y \<in> set xs" for y
    using that by simp
  then have "filter (\<lambda>x. fst x \<noteq> n) xs = filter (\<lambda>x. fst (snd x) \<noteq> k) xs"
    by (intro filter_cong) auto
  with x show ?thesis by (force simp: erase_node_def)
qed

text \<open>The list and the map after the entry of the key is moved or put at the front.\<close>

lemma Upsert_front:
  assumes "lru_inv c"
  shows "\<exists>m. distinct (map fst m) \<and> map_of m = (nodes (item_list c))(key \<mapsto> fresh_node c) \<and>
    Upsert key v c = (let items = (fresh_node c, key, v) # filter (\<lambda>x. fst (snd x) \<noteq> key) (item_list c) in
      if length m > max_size c
      then Some (c\<lparr>item_list := butlast items, item_map := AList.delete (fst (snd (last items))) m,
                  fresh_node := fresh_node c + 1\<rparr>)
      else Some (c\<lparr>item_list := items, item_map := m, fresh_node := fresh_node c + 1\<rparr>))"
proof (cases "map_of (item_map c) key")
  case None
  then have "nodes (item_list c) key = None" using assms by (simp add: lru_inv_def)
  then have "filter (\<lambda>x. fst (snd x) \<noteq> key) (item_list c) = item_list c"
    by (auto simp: nodes_None filter_id_conv)
  moreover have "distinct (map fst (AList.update key (fresh_node c) (item_map c)))"
    using assms by (simp add: lru_inv_def distinct_update)
  ultimately show ?thesis using assms None
    by (intro exI [of _ "AList.update key (fresh_node c) (item_map c)"])
       (simp add: Upsert_def Let_def update_conv' lru_inv_def)
next
  case (Some old)
  let ?m = "AList.update key (fresh_node c) (AList.delete key (item_map c))"
  have n: "nodes (item_list c) key = Some old" using assms Some by (simp add: lru_inv_def)
  then obtain x where "x \<in> set (item_list c)" "fst x = old"
    using nodes_Some [of "item_list c" key old] assms by (auto simp: lru_inv_def entries_keys)
  then have "old \<noteq> fresh_node c" using assms by (auto simp: lru_inv_def)
  then have "erase_node old ((fresh_node c, key, v) # item_list c) =
      Some ((fresh_node c, key, v) # filter (\<lambda>x. fst (snd x) \<noteq> key) (item_list c))"
    using erase_node_key [of "item_list c" key old] n assms
    by (auto simp: lru_inv_def entries_keys erase_node_def split: if_splits)
  moreover have "distinct (map fst ?m)"
    using assms by (simp add: lru_inv_def distinct_update distinct_delete)
  moreover have "map_of ?m = (nodes (item_list c))(key \<mapsto> fresh_node c)"
    using assms by (auto simp: update_conv' delete_conv' lru_inv_def fun_eq_iff)
  ultimately show ?thesis using Some
    by (intro exI [of _ ?m]) (simp add: Upsert_def Let_def)
qed


lemma Upsert_refines:
  assumes "lru_inv c"
  shows "\<exists>c'. Upsert key v c = Some c' \<and> lru_inv c' \<and>
    entries c' = touch (max_size c) key v (entries c) \<and> max_size c' = max_size c"
proof -
  define items where "items = (fresh_node c, key, v) # filter (\<lambda>x. fst (snd x) \<noteq> key) (item_list c)"
  obtain m where m: "distinct (map fst m)" "map_of m = (nodes (item_list c))(key \<mapsto> fresh_node c)"
    and U: "Upsert key v c = (if length m > max_size c
      then Some (c\<lparr>item_list := butlast items, item_map := AList.delete (fst (snd (last items))) m,
                  fresh_node := fresh_node c + 1\<rparr>)
      else Some (c\<lparr>item_list := items, item_map := m, fresh_node := fresh_node c + 1\<rparr>))"
    using Upsert_front [OF assms, of key v] unfolding items_def Let_def by blast
  have dk: "distinct (map (fst \<circ> snd) items)" and dn: "distinct (map fst items)"
    using assms by (auto simp: lru_inv_def entries_keys items_def distinct_map_filter)
  have fr: "\<forall>x \<in> set items. fst x < fresh_node c + 1"
    using assms by (auto simp: lru_inv_def items_def)
  have nm: "map_of m = nodes items" by (simp add: items_def nodes_filter m(2))
  have lm: "length m = length items" by (rule map_length [OF m(1) dk nm])
  have e: "map snd items = (key, v) # filter (\<lambda>kv. fst kv \<noteq> key) (entries c)"
    by (simp add: items_def entries_def filter_map comp_def)
  have li: "length items \<le> Suc (max_size c)"
    using assms le_trans [OF length_filter_le] by (auto simp: lru_inv_def items_def)
  have ne: "items \<noteq> []" by (simp add: items_def)
  show ?thesis
  proof (cases "length m > max_size c")
    case True
    then have "length items = Suc (max_size c)" using li lm by simp
    then have "map snd (butlast items) = take (max_size c) (map snd items)"
      and "length (butlast items) \<le> max_size c"
      by (simp_all add: butlast_conv_take take_map)
    moreover have "touch (max_size c) key v (entries c) = take (max_size c) (map snd items)"
      by (simp only: touch_def e)
    ultimately have "entries (c\<lparr>item_list := butlast items\<rparr>) = touch (max_size c) key v (entries c)"
      and "length (butlast items) \<le> max_size c"
      by (simp_all add: entries_def)
    moreover have "distinct (map (fst \<circ> snd) (butlast items))" "distinct (map fst (butlast items))"
      using dk dn by (simp_all add: map_butlast distinct_butlast)
    moreover have "\<forall>x \<in> set (butlast items). fst x < fresh_node c + 1"
      using fr by (auto dest: in_set_butlastD)
    moreover have "map_of (AList.delete (fst (snd (last items))) m) = nodes (butlast items)"
      by (simp add: delete_conv' nm nodes_butlast [OF ne dk])
    ultimately show ?thesis using True U m(1)
      by (simp add: lru_inv_def entries_def distinct_delete)
  next
    case False
    then have "touch (max_size c) key v (entries c) = map snd items"
      unfolding touch_def e [symmetric] using lm by simp
    with False show ?thesis using U dk dn fr nm lm m(1)
      by (simp add: lru_inv_def entries_def)
  qed
qed

lemma entries_map_of: "lru_inv c \<Longrightarrow> map_of (entries c) k = map_option (\<lambda>n. snd (the (map_of (item_list c) n))) (map_of (item_map c) k)"
proof -
  assume inv: "lru_inv c"
  show ?thesis
  proof (cases "nodes (item_list c) k")
    case None
    then have "k \<notin> fst ` set (entries c)" by (force simp: nodes_None entries_def)
    with None inv show ?thesis by (simp add: lru_inv_def map_of_eq_None_iff)
  next
    case (Some n)
    then obtain x where x: "x \<in> set (item_list c)" "fst x = n" "fst (snd x) = k"
      using nodes_Some inv by (metis lru_inv_def entries_keys)
    then have "map_of (item_list c) n = Some (snd x)" "map_of (entries c) k = Some (snd (snd x))"
      using inv by (auto simp: lru_inv_def entries_def intro!: map_of_is_SomeI)
    with Some inv show ?thesis by (simp add: lru_inv_def)
  qed
qed

lemma GetAndRemove_refines:
  assumes "lru_inv c"
  shows "case map_of (entries c) k of
    None \<Rightarrow> GetAndRemove k c = None
  | Some v \<Rightarrow> \<exists>c'. GetAndRemove k c = Some (v, c') \<and> lru_inv c' \<and>
      entries c' = forget k (entries c) \<and> max_size c' = max_size c"
proof (cases "map_of (item_map c) k")
  case None
  then show ?thesis using entries_map_of [OF assms, of k] by (simp add: GetAndRemove_def)
next
  case (Some n)
  have dk: "distinct (map (fst \<circ> snd) (item_list c))" "distinct (map fst (item_list c))"
    using assms by (auto simp: lru_inv_def entries_keys)
  have nk: "nodes (item_list c) k = Some n" using assms Some by (simp add: lru_inv_def)
  then obtain x where x: "x \<in> set (item_list c)" "fst x = n" "fst (snd x) = k"
    using nodes_Some dk(1) by metis
  then have mx: "map_of (item_list c) n = Some (snd x)"
    using dk by (auto intro!: map_of_is_SomeI)
  let ?c' = "c\<lparr>item_list := filter (\<lambda>x. fst (snd x) \<noteq> k) (item_list c),
               item_map := AList.delete k (item_map c)\<rparr>"
  have "GetAndRemove k c = Some (snd (snd x), ?c')"
    using Some mx erase_node_key [OF dk(2,1) nk] by (simp add: GetAndRemove_def)
  moreover have "lru_inv ?c'"
    using assms le_trans [OF length_filter_le]
    by (auto simp: lru_inv_def entries_def distinct_map_filter distinct_delete delete_conv' nodes_filter comp_def)
  moreover have "entries ?c' = forget k (entries c)"
    by (simp add: entries_def forget_def filter_map comp_def)
  ultimately show ?thesis using entries_map_of [OF assms, of k] Some mx by auto
qed

interpretation lru: bounded_cache Upsert GetAndRemove Contain Reset lru_inv entries max_size
proof
  fix c :: "('k, 'v) lru" and k v n
  show "lru_inv c \<Longrightarrow> \<exists>c'. Upsert k v c = Some c' \<and> lru_inv c' \<and>
      entries c' = touch (max_size c) k v (entries c) \<and> max_size c' = max_size c"
    by (rule Upsert_refines)
  show "lru_inv c \<Longrightarrow> map_of (entries c) k = Some v \<Longrightarrow> \<exists>c'. GetAndRemove k c = Some (v, c') \<and>
      lru_inv c' \<and> entries c' = forget k (entries c) \<and> max_size c' = max_size c"
    using GetAndRemove_refines [of c k] by simp
  show "lru_inv c \<Longrightarrow> map_of (entries c) k = None \<Longrightarrow> GetAndRemove k c = None"
    using GetAndRemove_refines [of c k] by simp
  show "lru_inv c \<Longrightarrow> Contain k c = (map_of (entries c) k \<noteq> None)"
    by (simp add: Contain_def entries_map_of)
  show "lru_inv (Reset n c)" "entries (Reset n c) = []" "max_size (Reset n c) = n"
    by (simp_all add: Reset_def lru_inv_def entries_def)
  show "lru_inv c \<Longrightarrow> distinct (map fst (entries c)) \<and> length (entries c) \<le> max_size c"
    by (simp add: lru_inv_def entries_def)
qed

lemma LRUCache_empty [simp]: "lru_inv (LRUCache n)" "entries (LRUCache n) = []" "max_size (LRUCache n) = n"
  "item_map (LRUCache n) = []"
  by (simp_all add: LRUCache_def lru_inv_def entries_def)

subsection \<open>Properties\<close>

text \<open>Property C31: from a consistent cache \<open>Upsert\<close> never faults, keeps list and map consistent
  and does to the entries what the specification \<open>touch\<close> does: the key's pair moves or goes
  to the front and the least recent entries beyond the capacity are gone.\<close>

theorem Upsert_spec:
  assumes "lru_inv c"
  shows "\<exists>c'. Upsert key v c = Some c' \<and> lru_inv c' \<and>
    entries c' = touch (max_size c) key v (entries c) \<and> Size c' = min (max_size c) (length (entries c'))"
proof -
  obtain c' where c': "Upsert key v c = Some c'" "lru_inv c'"
    "entries c' = touch (max_size c) key v (entries c)" "max_size c' = max_size c"
    using lru.upsert_law [OF assms] by blast
  with lru.content_law [OF c'(2)] lru_inv_Size [OF c'(2)] show ?thesis by auto
qed

theorem Upsert_spec_witness:
  "\<exists>c'. Upsert (7 :: nat) True (LRUCache 1) = Some c' \<and> entries c' = [(7, True)]"
  using Upsert_spec [of "LRUCache 1" 7 True] by (auto simp: touch_def)

text \<open>Property C32: \<open>GetAndRemove\<close> asserts exactly when \<open>Contain\<close> is false; otherwise it returns
  the value last stored under the key and removes that entry alone.\<close>

theorem GetAndRemove_spec:
  assumes "lru_inv c"
  shows "(GetAndRemove k c = None \<longleftrightarrow> \<not> Contain k c) \<and>
    (\<forall>v c'. GetAndRemove k c = Some (v, c') \<longrightarrow>
       lru_inv c' \<and> (k, v) \<in> set (entries c) \<and> entries c' = forget k (entries c) \<and> \<not> Contain k c')"
proof (intro conjI allI impI)
  show "GetAndRemove k c = None \<longleftrightarrow> \<not> Contain k c" using lru.fetch_iff_contain [OF assms] by blast
  fix v c' assume g: "GetAndRemove k c = Some (v, c')"
  then have m: "map_of (entries c) k = Some v" "lru_inv c'" "entries c' = forget k (entries c)"
    using GetAndRemove_refines [OF assms, of k] by (auto split: option.splits)
  then show "lru_inv c'" "(k, v) \<in> set (entries c)" "entries c' = forget k (entries c)"
    by (auto dest: map_of_SomeD)
  show "\<not> Contain k c'" using lru.contain_law [OF m(2)] m(3) by (simp add: map_of_forget)
qed

theorem GetAndRemove_spec_witness:
  "GetAndRemove (7 :: nat) (LRUCache 1 :: (nat, bool) lru) = None \<and> \<not> Contain 7 (LRUCache 1 :: (nat, bool) lru)"
  using GetAndRemove_spec [of "LRUCache 1 :: (nat, bool) lru" 7] by (simp add: Contain_def)
end
