(* ===== verification/DelayQueue.thy ===== *)
theory DelayQueue
  imports Interfaces
begin

text \<open>
  \<open>src/src/include/aho_corasick/delay_queue.h\<close>: matches waiting for a code point index.
  \<open>std::priority_queue\<close> promises a smallest element at the top and leaves the order of equal
  elements open; the model keeps the queue sorted and serves equal indices in the order they
  were scheduled.  What the clients use of it is the contract \<open>min_queue\<close>.
\<close>

record DelayedMatch =
  pattern_id :: nat
  next_pattern_pos :: nat
  prev_pattern_pos :: nat
  ready_cp_idx :: nat

type_synonym delayed_queue = "DelayedMatch list"

text \<open>\<open>queue_.emplace\<close>: behind every element that is not \<open>operator>\<close> the new one.\<close>

fun emplace :: "DelayedMatch \<Rightarrow> delayed_queue \<Rightarrow> delayed_queue" where
  "emplace x [] = [x]"
| "emplace x (y # ys) =
    (if ready_cp_idx y > ready_cp_idx x then x # y # ys else y # emplace x ys)"

definition Schedule :: "nat \<Rightarrow> nat \<Rightarrow> nat \<Rightarrow> nat \<Rightarrow> delayed_queue \<Rightarrow> delayed_queue" where
  "Schedule pid ready next_patt_offset prev_patt_offset q =
    emplace \<lparr>pattern_id = pid, next_pattern_pos = next_patt_offset,
             prev_pattern_pos = prev_patt_offset, ready_cp_idx = ready\<rparr> q"

definition Pop :: "delayed_queue \<Rightarrow> delayed_queue option" where
  "Pop q = (case q of [] \<Rightarrow> None | x # xs \<Rightarrow> Some xs)"

definition Front :: "delayed_queue \<Rightarrow> DelayedMatch option" where
  "Front q = (case q of [] \<Rightarrow> None | x # xs \<Rightarrow> Some x)"

definition Empty :: "delayed_queue \<Rightarrow> bool" where
  "Empty q \<longleftrightarrow> q = []"

partial_function (option) Clear :: "delayed_queue \<Rightarrow> delayed_queue option" where [code]:
  "Clear q = (if \<not> Empty q then do { q' \<leftarrow> Pop q; Clear q' } else Some q)"

definition FrontReady :: "nat \<Rightarrow> delayed_queue \<Rightarrow> bool" where
  "FrontReady current_cp_idx q \<longleftrightarrow>
    (case Front q of None \<Rightarrow> False | Some x \<Rightarrow> ready_cp_idx x \<le> current_cp_idx)"

subsection \<open>The queue as a multiset\<close>

definition dq_inv :: "delayed_queue \<Rightarrow> bool" where
  "dq_inv q \<longleftrightarrow> sorted (map ready_cp_idx q)"

lemma mset_emplace [simp]: "mset (emplace x q) = add_mset x (mset q)"
  by (induction q) auto

lemma set_emplace [simp]: "set (emplace x q) = insert x (set q)"
  by (induction q) auto

lemma dq_inv_emplace: "dq_inv q \<Longrightarrow> dq_inv (emplace x q)"
  unfolding dq_inv_def by (induction q) fastforce+

interpretation dq: min_queue emplace Front Pop "[]" ready_cp_idx dq_inv mset
proof
  fix q x
  show "dq_inv []" "mset ([] :: delayed_queue) = {#}" by (simp_all add: dq_inv_def)
  show "dq_inv q \<Longrightarrow> dq_inv (emplace x q)" by (rule dq_inv_emplace)
  show "dq_inv q \<Longrightarrow> mset (emplace x q) = mset q + {#x#}" by simp
  show "dq_inv q \<Longrightarrow> mset q \<noteq> {#} \<Longrightarrow>
     \<exists>x. Front q = Some x \<and> x \<in># mset q \<and> (\<forall>y \<in># mset q. ready_cp_idx x \<le> ready_cp_idx y)"
    by (cases q) (auto simp: Front_def dq_inv_def)
  show "dq_inv q \<Longrightarrow> mset q = {#} \<Longrightarrow> Front q = None" by (simp add: Front_def)
  show "dq_inv q \<Longrightarrow> Front q = Some x \<Longrightarrow>
     \<exists>q'. Pop q = Some q' \<and> dq_inv q' \<and> mset q' = mset q - {#x#}"
    by (cases q) (auto simp: Front_def Pop_def dq_inv_def)
qed

lemma Clear_Nil [simp]: "Clear q = Some []"
  by (induction q) (subst Clear.simps, simp add: Empty_def Pop_def)+

text \<open>The client loop: every match that is ready, in the order the queue serves them.\<close>

partial_function (option) pop_ready :: "nat \<Rightarrow> delayed_queue \<Rightarrow> (DelayedMatch list \<times> delayed_queue) option" where [code]:
  "pop_ready n q =
    (if FrontReady n q
     then do { x \<leftarrow> Front q; q' \<leftarrow> Pop q; (xs, r) \<leftarrow> pop_ready n q'; Some (x # xs, r) }
     else Some ([], q))"

lemma pop_ready_eq:
  "pop_ready n q = Some (takeWhile (\<lambda>x. ready_cp_idx x \<le> n) q, dropWhile (\<lambda>x. ready_cp_idx x \<le> n) q)"
  by (induction q) (subst pop_ready.simps, simp add: FrontReady_def Front_def Pop_def)+

subsection \<open>Properties\<close>

text \<open>Property C33: from a queue built by \<open>Schedule\<close>, popping while the front is ready delivers
  exactly the scheduled matches whose code point index has been reached, smallest index first,
  and leaves the others; \<open>Schedule\<close> and \<open>Clear\<close> keep the order of the queue.\<close>

theorem queue_serves_ready:
  assumes "dq_inv q"
  shows "\<exists>xs r. pop_ready n (Schedule pid i nxt prv q) = Some (xs, r) \<and> dq_inv r \<and>
    sorted (map ready_cp_idx xs) \<and>
    mset xs = filter_mset (\<lambda>x. ready_cp_idx x \<le> n)
      (add_mset \<lparr>pattern_id = pid, next_pattern_pos = nxt, prev_pattern_pos = prv, ready_cp_idx = i\<rparr> (mset q)) \<and>
    mset r = filter_mset (\<lambda>x. n < ready_cp_idx x)
      (add_mset \<lparr>pattern_id = pid, next_pattern_pos = nxt, prev_pattern_pos = prv, ready_cp_idx = i\<rparr> (mset q)) \<and>
    Clear r = Some []"
proof -
  let ?x = "\<lparr>pattern_id = pid, next_pattern_pos = nxt, prev_pattern_pos = prv, ready_cp_idx = i\<rparr>"
  let ?q = "emplace ?x q"
  let ?R = "\<lambda>x. ready_cp_idx x \<le> n"
  have inv: "dq_inv ?q" using dq.insert_law(1) [OF assms] .
  have split: "takeWhile ?R p = filter ?R p \<and> dropWhile ?R p = filter (\<lambda>x. n < ready_cp_idx x) p"
    if "dq_inv p" for p
    using that
  proof (induction p)
    case (Cons a p)
    then have "dq_inv p" and a: "\<forall>y \<in> set p. ready_cp_idx a \<le> ready_cp_idx y"
      by (auto simp: dq_inv_def)
    show ?case
    proof (cases "?R a")
      case False
      then have "\<forall>y \<in> set p. n < ready_cp_idx y" using a by (auto intro: less_le_trans)
      with False show ?thesis by (auto simp: filter_empty_conv filter_id_conv not_le [symmetric])
    qed (use Cons.IH \<open>dq_inv p\<close> in simp)
  qed simp
  have "sorted (map ready_cp_idx (filter P ?q))" for P
    using inv unfolding dq_inv_def by (rule sorted_filter)
  then show ?thesis using split [OF inv]
    by (intro exI [of _ "filter ?R ?q"] exI [of _ "filter (\<lambda>x. n < ready_cp_idx x) ?q"])
       (simp add: Schedule_def pop_ready_eq dq_inv_def)
qed

theorem queue_serves_ready_witness:
  "\<exists>xs r. pop_ready 4 (Schedule 0 3 1 2 []) = Some (xs, r) \<and> mset r = {#}"
  using queue_serves_ready [of "[]" 4 0 3 1 2] dq.empty_law(1) by auto

end
