(* ===== verification/Kmp.thy ===== *)
theory Kmp
  imports Prelude "HOL-Library.Sublist"
begin

text \<open>
  \<open>src/src/include/kmp/kmp.h\<close>: the table of longest proper borders and the search.  The class only
  reserves its vector and then reads and writes entries by index, so \<open>size()\<close> stays 0.  For the C++
  standard every such access is undefined; a library whose \<open>operator[]\<close> does not check reaches the
  reserved storage.  Both readings are modelled: the flag \<open>strict\<close> says whether \<open>operator[]\<close> is
  held to \<open>size()\<close>.  In either one an access outside the storage and a read of a cell that was never
  written are faults.

  \<open>overlap p s\<close> is the specification: the longest prefix of \<open>p\<close> that ends \<open>s\<close>; both loops are
  instances of one step lemma about it.
\<close>

definition INVALID_POS :: nat where
  "INVALID_POS = 2 ^ 64 - 1"

subsection \<open>The vector\<close>

text \<open>\<open>cells\<close> is the reserved storage; \<open>None\<close> is a cell that was never written.\<close>

record lps_vector =
  lps_size :: nat
  lps_cells :: "nat option list"

definition empty_lps :: lps_vector where
  "empty_lps = \<lparr>lps_size = 0, lps_cells = []\<rparr>"

definition lps_reserve :: "nat \<Rightarrow> lps_vector \<Rightarrow> lps_vector" where
  "lps_reserve n v = v\<lparr>lps_cells := lps_cells v @ replicate (n - length (lps_cells v)) None\<rparr>"

definition lps_index :: "bool \<Rightarrow> lps_vector \<Rightarrow> nat \<Rightarrow> bool" where
  "lps_index strict v i \<longleftrightarrow> i < (if strict then lps_size v else length (lps_cells v))"

definition lps_get :: "bool \<Rightarrow> lps_vector \<Rightarrow> nat \<Rightarrow> nat option" where
  "lps_get strict v i = (if lps_index strict v i then lps_cells v ! i else None)"

definition lps_set :: "bool \<Rightarrow> nat \<Rightarrow> nat \<Rightarrow> lps_vector \<Rightarrow> lps_vector option" where
  "lps_set strict i k v =
    (if lps_index strict v i then Some (v\<lparr>lps_cells := (lps_cells v)[i := Some k]\<rparr>) else None)"

subsection \<open>Table and search\<close>

text \<open>
  \<open>while (k > 0 && c != pattern[k]) k = lps_table_[k - 1]\<close>.  The constructor writes \<open>&\<close> and so also
  reads \<open>pattern[0]\<close> when \<open>k\<close> is 0, which \<open>kmp_step\<close> does right after the loop in any case.
\<close>

partial_function (option) kmp_fallback :: "bool \<Rightarrow> bytes \<Rightarrow> lps_vector \<Rightarrow> byte \<Rightarrow> nat \<Rightarrow> nat option" where [code]:
  "kmp_fallback strict pattern tab c k =
    (if k > 0
     then do {
       b \<leftarrow> rd pattern k;
       if c \<noteq> b then do { k' \<leftarrow> lps_get strict tab (k - 1); kmp_fallback strict pattern tab c k' } else Some k }
     else Some k)"

definition kmp_step :: "bool \<Rightarrow> bytes \<Rightarrow> lps_vector \<Rightarrow> byte \<Rightarrow> nat \<Rightarrow> nat option" where
  "kmp_step strict pattern tab c k = do {
     k \<leftarrow> kmp_fallback strict pattern tab c k;
     b \<leftarrow> rd pattern k;
     Some (if b = c then k + 1 else k) }"

function build_lps :: "bool \<Rightarrow> bytes \<Rightarrow> nat \<Rightarrow> lps_vector \<Rightarrow> lps_vector option" where
  "build_lps strict pattern idx tab =
    (if idx < length pattern
     then do {
       k \<leftarrow> lps_get strict tab (idx - 1);
       c \<leftarrow> rd pattern idx;
       k \<leftarrow> kmp_step strict pattern tab c k;
       tab \<leftarrow> lps_set strict idx k tab;
       build_lps strict pattern (idx + 1) tab }
     else Some tab)"
  by pat_completeness auto
termination by (relation "measure (\<lambda>(s, p, i, t). length p - i)") auto

declare build_lps.simps [simp del]

definition KMPAlgorithm :: "bool \<Rightarrow> bytes \<Rightarrow> lps_vector option" where
  "KMPAlgorithm strict pattern = do {
     tab \<leftarrow> lps_set strict 0 0 (lps_reserve (length pattern) empty_lps);
     build_lps strict pattern 1 tab }"

fun kmp_loop :: "bool \<Rightarrow> bytes \<Rightarrow> lps_vector \<Rightarrow> nat \<Rightarrow> bytes \<Rightarrow> nat option" where
  "kmp_loop strict pattern tab match_pos [] = Some INVALID_POS"
| "kmp_loop strict pattern tab match_pos (c # text) = do {
     k \<leftarrow> kmp_step strict pattern tab c match_pos;
     if k = length pattern then Some k else kmp_loop strict pattern tab k text }"

definition Match :: "bool \<Rightarrow> lps_vector \<Rightarrow> bytes \<Rightarrow> bytes \<Rightarrow> nat option" where
  "Match strict tab pattern text = kmp_loop strict pattern tab 0 text"

subsection \<open>The longest prefix of the pattern that ends a string\<close>

definition overlap :: "bytes \<Rightarrow> bytes \<Rightarrow> nat" where
  "overlap p s = Max {k. k \<le> length p \<and> suffix (take k p) s}"

lemma overlap_fits: "overlap p s \<le> length p" "suffix (take (overlap p s) p) s"
proof -
  have "finite {k. k \<le> length p \<and> suffix (take k p) s}" by simp
  moreover have "0 \<in> {k. k \<le> length p \<and> suffix (take k p) s}" by simp
  ultimately have "overlap p s \<in> {k. k \<le> length p \<and> suffix (take k p) s}"
    unfolding overlap_def by (intro Max_in) auto
  then show "overlap p s \<le> length p" "suffix (take (overlap p s) p) s" by auto
qed

lemma overlap_ge: "k \<le> length p \<Longrightarrow> suffix (take k p) s \<Longrightarrow> k \<le> overlap p s"
  unfolding overlap_def by (intro Max_ge) auto

lemma overlap_eqI:
  "k \<le> length p \<Longrightarrow> suffix (take k p) s \<Longrightarrow>
   (\<And>k'. k' \<le> length p \<Longrightarrow> suffix (take k' p) s \<Longrightarrow> k' \<le> k) \<Longrightarrow> overlap p s = k"
  using overlap_fits overlap_ge by (metis le_antisym)

lemma overlap_le_length: "overlap p s \<le> length s"
  using overlap_fits [of p s] by (auto dest: suffix_length_le)

lemma overlap_Nil [simp]: "overlap p [] = 0"
  using overlap_le_length [of p "[]"] by simp

lemma suffix_snoc_take:
  "0 < k \<Longrightarrow> k \<le> length p \<Longrightarrow> suffix (take k p) (s @ [c]) \<longleftrightarrow> suffix (take (k - 1) p) s \<and> p ! (k - 1) = c"
proof -
  assume "0 < k" "k \<le> length p"
  then have "take k p = take (k - 1) p @ [p ! (k - 1)]"
    by (metis Suc_diff_1 Suc_le_lessD take_Suc_conv_app_nth)
  then show ?thesis by auto
qed

lemma suffix_tl_of: "suffix xs ys \<Longrightarrow> xs \<noteq> ys \<Longrightarrow> suffix xs (tl ys)"
  by (cases ys) (auto simp: suffix_Cons)

definition lps_ok :: "bytes \<Rightarrow> nat list \<Rightarrow> bool" where
  "lps_ok p tab \<longleftrightarrow> (\<forall>j<length tab. tab ! j = overlap p (tl (take (Suc j) p)))"

text \<open>The first cells of the storage hold the entries \<open>tab\<close>.\<close>

definition lps_holds :: "lps_vector \<Rightarrow> nat list \<Rightarrow> bool" where
  "lps_holds v tab \<longleftrightarrow> length tab \<le> length (lps_cells v) \<and> (\<forall>j<length tab. lps_cells v ! j = Some (tab ! j))"

lemma lps_holds_get [simp]: "lps_holds v tab \<Longrightarrow> j < length tab \<Longrightarrow> lps_get False v j = Some (tab ! j)"
  by (simp add: lps_holds_def lps_get_def lps_index_def)

lemma lps_holds_set:
  assumes "lps_holds v tab" "length tab < length (lps_cells v)"
  shows "\<exists>v'. lps_set False (length tab) k v = Some v' \<and> lps_holds v' (tab @ [k]) \<and>
    length (lps_cells v') = length (lps_cells v) \<and> lps_size v' = lps_size v"
  using assms by (auto simp: lps_set_def lps_index_def lps_holds_def nth_append less_Suc_eq)

lemma kmp_fallback_spec:
  assumes "lps_ok p tab" "lps_holds v tab" "k \<le> length tab" "k < length p" "suffix (take k p) s"
    "\<And>k'. k' < length p \<Longrightarrow> suffix (take k' p) s \<Longrightarrow> p ! k' = c \<Longrightarrow> k' \<le> k"
  shows "\<exists>k1. kmp_fallback False p v c k = Some k1 \<and> k1 \<le> k \<and> suffix (take k1 p) s \<and>
    (k1 = 0 \<or> p ! k1 = c) \<and>
    (\<forall>k'. k' < length p \<and> suffix (take k' p) s \<and> p ! k' = c \<longrightarrow> k' \<le> k1)"
  using assms(3-)
proof (induction k rule: less_induct)
  case (less k)
  show ?case
  proof (cases "k > 0 \<and> p ! k \<noteq> c")
    case True
    define k2 where "k2 = tab ! (k - 1)"
    have k2: "k2 = overlap p (tl (take k p))"
      using True less.prems(1) assms(1) by (cases k) (auto simp: lps_ok_def k2_def)
    have "k2 < k" using overlap_le_length [of p "tl (take k p)"] True
      by (simp add: k2) linarith
    have sk: "suffix (tl (take k p)) (take k p)" by (cases "take k p") (auto simp: suffix_Cons)
    have "suffix (take k2 p) s"
      using overlap_fits(2) [of p "tl (take k p)"] sk less.prems(3) unfolding k2
      by (blast intro: suffix_order.trans)
    moreover have "k' \<le> k2" if k': "k' < length p" "suffix (take k' p) s" "p ! k' = c" for k'
    proof -
      have "k' < k" using less.prems(4) [OF k'] True k'(3) by (metis le_neq_implies_less)
      then have "suffix (take k' p) (take k p)"
        using k' less.prems by (intro suffix_length_suffix [OF k'(2) less.prems(3)]) simp
      moreover have "length (take k' p) < length (take k p)"
        using \<open>k' < k\<close> less.prems(2) by simp
      then have "take k' p \<noteq> take k p" by (metis less_irrefl)
      ultimately have "suffix (take k' p) (tl (take k p))"
        by (intro suffix_tl_of)
      then show ?thesis unfolding k2 using k'(1) by (intro overlap_ge) simp_all
    qed
    moreover have "k2 \<le> length tab" "k2 < length p"
      using \<open>k2 < k\<close> less.prems(1,2) by linarith+
    ultimately obtain k1 where "kmp_fallback False p v c k2 = Some k1 \<and> k1 \<le> k2 \<and> suffix (take k1 p) s \<and>
      (k1 = 0 \<or> p ! k1 = c) \<and>
      (\<forall>k'. k' < length p \<and> suffix (take k' p) s \<and> p ! k' = c \<longrightarrow> k' \<le> k1)"
      using less.IH [OF \<open>k2 < k\<close>] by blast
    moreover have "kmp_fallback False p v c k = kmp_fallback False p v c k2"
      using True less.prems assms(2) by (subst kmp_fallback.simps) (auto simp: k2_def)
    ultimately show ?thesis using \<open>k2 < k\<close> by auto
  next
    case False
    then have "kmp_fallback False p v c k = Some k"
      using less.prems by (subst kmp_fallback.simps) auto
    with False less.prems show ?thesis by auto
  qed
qed

lemma kmp_step_spec:
  assumes "lps_ok p tab" "lps_holds v tab" "overlap p s \<le> length tab" "overlap p s < length p"
  shows "kmp_step False p v c (overlap p s) = Some (overlap p (s @ [c]))"
proof -
  obtain k where k: "kmp_fallback False p v c (overlap p s) = Some k" "k \<le> overlap p s"
    "suffix (take k p) s" "k = 0 \<or> p ! k = c"
    "\<And>k'. k' < length p \<Longrightarrow> suffix (take k' p) s \<Longrightarrow> p ! k' = c \<Longrightarrow> k' \<le> k"
    using kmp_fallback_spec [OF assms overlap_fits(2), of c] overlap_ge [of _ p s] by (metis less_imp_le)
  have len: "k < length p" using k(2) assms(4) by simp
  have "overlap p (s @ [c]) = (if p ! k = c then Suc k else k)"
  proof (rule overlap_eqI)
    show "suffix (take (if p ! k = c then Suc k else k) p) (s @ [c])"
      using k(3,4) len suffix_snoc_take [of "Suc k" p s c] by auto
    fix k' assume k': "k' \<le> length p" "suffix (take k' p) (s @ [c])"
    show "k' \<le> (if p ! k = c then Suc k else k)"
    proof (cases k')
      case (Suc m)
      then have m: "m < length p" "suffix (take m p) s" "p ! m = c"
        using k' suffix_snoc_take [of k' p s c] by auto
      then show ?thesis using k(4) k(5) [OF m] Suc by auto
    qed simp
  qed (use len in simp)
  then show ?thesis using k(1) len by (simp add: kmp_step_def)
qed

lemma build_lps_spec:
  "lps_ok p tab \<Longrightarrow> lps_holds v tab \<Longrightarrow> length (lps_cells v) = length p \<Longrightarrow> 0 < length tab \<Longrightarrow> length tab \<le> length p \<Longrightarrow>
   \<exists>tab' v'. build_lps False p (length tab) v = Some v' \<and> lps_holds v' tab' \<and> lps_ok p tab' \<and> length tab' = length p \<and>
     length (lps_cells v') = length p \<and> lps_size v' = lps_size v"
proof (induction "length p - length tab" arbitrary: tab v)
  case 0
  then show ?case by (subst build_lps.simps) auto
next
  case (Suc n)
  let ?i = "length tab"
  have i: "?i < length p" using Suc.hyps(2) by simp
  define s where "s = tl (take ?i p)"
  have o: "tab ! (?i - 1) = overlap p s" using Suc.prems by (simp add: lps_ok_def s_def)
  have lt: "overlap p s < ?i" using overlap_le_length [of p s] Suc.prems(4,5) by (auto simp: s_def intro: le_less_trans)
  have st: "kmp_step False p v (p ! ?i) (overlap p s) = Some (overlap p (s @ [p ! ?i]))"
    using kmp_step_spec [OF Suc.prems(1,2), of s] lt i by simp
  have "take (Suc ?i) p = take ?i p @ [p ! ?i]" using i by (simp add: take_Suc_conv_app_nth)
  then have "s @ [p ! ?i] = tl (take (Suc ?i) p)" using Suc.prems(4) i by (cases p) (auto simp: s_def tl_append split: list.splits)
  then have ok: "lps_ok p (tab @ [overlap p (s @ [p ! ?i])])"
    using Suc.prems(1) by (auto simp: lps_ok_def nth_append less_Suc_eq)
  have get: "lps_get False v (?i - 1) = Some (overlap p s)"
    using lps_holds_get [OF Suc.prems(2), of "?i - 1"] Suc.prems(4) o by simp
  obtain w where w: "lps_set False ?i (overlap p (s @ [p ! ?i])) v = Some w" "lps_holds w (tab @ [overlap p (s @ [p ! ?i])])"
      "length (lps_cells w) = length p" "lps_size w = lps_size v"
    using lps_holds_set [OF Suc.prems(2), of "overlap p (s @ [p ! ?i])"] i Suc.prems(3) by auto
  have "build_lps False p ?i v = build_lps False p (length (tab @ [overlap p (s @ [p ! ?i])])) w"
    using i get st w(1) by (subst build_lps.simps) simp
  with Suc.hyps(1) [OF _ ok w(2,3)] Suc.hyps(2) i w(4) show ?case by simp
qed

lemma KMPAlgorithm_lps:
  assumes "p \<noteq> []"
  shows "\<exists>tab v. KMPAlgorithm False p = Some v \<and> lps_holds v tab \<and> lps_ok p tab \<and> length tab = length p \<and>
    length (lps_cells v) = length p \<and> lps_size v = 0"
proof -
  obtain v where v: "lps_set False 0 0 (lps_reserve (length p) empty_lps) = Some v" "lps_holds v [0]"
      "length (lps_cells v) = length p" "lps_size v = 0"
    using lps_holds_set [of "lps_reserve (length p) empty_lps" "[]" 0] assms
    by (auto simp: lps_holds_def lps_reserve_def empty_lps_def)
  have "lps_ok p [0]" using assms by (cases p) (simp_all add: lps_ok_def)
  from build_lps_spec [OF this v(2,3)] v(1,4) assms show ?thesis
    by (cases p) (auto simp: KMPAlgorithm_def)
qed

lemma KMPAlgorithm_strict: "KMPAlgorithm True p = None"
  by (simp add: KMPAlgorithm_def lps_set_def lps_index_def lps_reserve_def empty_lps_def)

lemma kmp_loop_spec:
  assumes "lps_ok p tab" "lps_holds v tab" "length tab = length p"
  shows "overlap p s < length p \<Longrightarrow>
   kmp_loop False p v (overlap p s) t =
     Some (if \<exists>u. prefix u t \<and> u \<noteq> [] \<and> suffix p (s @ u) then length p else INVALID_POS)"
proof (induction t arbitrary: s)
  case (Cons c t)
  have st: "kmp_step False p v c (overlap p s) = Some (overlap p (s @ [c]))"
    using kmp_step_spec [OF assms(1,2) _ Cons.prems] Cons.prems assms(3) by simp
  have full: "overlap p (s @ [c]) = length p \<longleftrightarrow> suffix p (s @ [c])"
    using overlap_fits [of p "s @ [c]"] overlap_ge [of "length p" p "s @ [c]"] by auto
  show ?case
  proof (cases "suffix p (s @ [c])")
    case True
    moreover have "prefix [c] (c # t)" by simp
    ultimately have "\<exists>u. prefix u (c # t) \<and> u \<noteq> [] \<and> suffix p (s @ u)" by blast
    with True show ?thesis by (simp add: st full)
  next
    case False
    then have "overlap p (s @ [c]) < length p" using full overlap_fits(1) by (metis le_neq_implies_less)
    moreover have "(\<exists>u. prefix u (c # t) \<and> u \<noteq> [] \<and> suffix p (s @ u)) \<longleftrightarrow>
      (\<exists>u. prefix u t \<and> u \<noteq> [] \<and> suffix p ((s @ [c]) @ u))"
    proof
      assume "\<exists>u. prefix u (c # t) \<and> u \<noteq> [] \<and> suffix p (s @ u)"
      then obtain v where v: "prefix v t" "suffix p (s @ c # v)" by (auto simp: prefix_Cons)
      with False have "v \<noteq> []" by auto
      with v show "\<exists>u. prefix u t \<and> u \<noteq> [] \<and> suffix p ((s @ [c]) @ u)" by auto
    next
      assume "\<exists>u. prefix u t \<and> u \<noteq> [] \<and> suffix p ((s @ [c]) @ u)"
      then obtain u where "prefix u t" "suffix p (s @ c # u)" by auto
      then have "prefix (c # u) (c # t) \<and> c # u \<noteq> [] \<and> suffix p (s @ c # u)" by simp
      then show "\<exists>u. prefix u (c # t) \<and> u \<noteq> [] \<and> suffix p (s @ u)" by blast
    qed
    ultimately show ?thesis using Cons.IH [of "s @ [c]"] False by (simp add: st full del: suffix_snoc append_assoc)
  qed
qed simp


text \<open>Property C34: the table of a non-empty pattern.  If \<open>operator[]\<close> reaches the reserved storage,
  building it terminates, every access stays in that storage, only cells that were written are read,
  and in the end every cell holds the length of the longest proper border of its prefix, while
  \<open>size()\<close> is still 0; if \<open>operator[]\<close> is held to \<open>size()\<close>, building it faults.\<close>

theorem KMPAlgorithm_borders:
  assumes "p \<noteq> []"
  shows "\<exists>v. KMPAlgorithm False p = Some v \<and> lps_size v = 0 \<and> length (lps_cells v) = length p \<and>
    (\<forall>j < length p. \<exists>b \<le> j. lps_cells v ! j = Some b \<and> suffix (take b p) (take (Suc j) p) \<and>
       (\<forall>k \<le> j. suffix (take k p) (take (Suc j) p) \<longrightarrow> k \<le> b)) \<and>
    KMPAlgorithm True p = None"
proof -
  obtain tab v where tab: "KMPAlgorithm False p = Some v" "lps_holds v tab" "lps_ok p tab" "length tab = length p"
      "length (lps_cells v) = length p" "lps_size v = 0"
    using KMPAlgorithm_lps [OF assms] by blast
  have "\<exists>b \<le> j. lps_cells v ! j = Some b \<and> suffix (take b p) (take (Suc j) p) \<and>
       (\<forall>k \<le> j. suffix (take k p) (take (Suc j) p) \<longrightarrow> k \<le> b)" if j: "j < length p" for j
  proof -
    let ?s = "tl (take (Suc j) p)"
    have t: "lps_cells v ! j = Some (overlap p ?s)" using tab j by (simp add: lps_ok_def lps_holds_def)
    have sfx: "suffix ?s (take (Suc j) p)" by (cases p) (auto simp: suffix_Cons)
    have "k \<le> overlap p ?s" if "k \<le> j" "suffix (take k p) (take (Suc j) p)" for k
    proof (rule overlap_ge)
      have "length (take k p) \<le> length ?s" using that(1) j by simp
      with that(2) sfx show "suffix (take k p) ?s" by (rule suffix_length_suffix)
    qed (use that j in simp)
    moreover have "overlap p ?s \<le> j" using overlap_le_length [of p ?s] j by simp
    ultimately show ?thesis
      using overlap_fits(2) [of p ?s] sfx suffix_order.trans unfolding t by blast
  qed
  with tab KMPAlgorithm_strict show ?thesis by blast
qed

theorem KMPAlgorithm_borders_witness:
  "\<exists>v. KMPAlgorithm False [1, 2, 1 :: byte] = Some v \<and> lps_size v = 0 \<and> length (lps_cells v) = 3 \<and>
    lps_cells v ! 0 = Some 0 \<and> KMPAlgorithm True [1, 2, 1 :: byte] = None"
  using KMPAlgorithm_borders [of "[1, 2, 1 :: byte]"] by auto

text \<open>Property C35: where \<open>operator[]\<close> reaches the reserved storage, \<open>Match\<close> with the table of the pattern
  terminates without a fault and decides whether a non-empty pattern, shorter than \<open>npos\<close>, occurs in
  the text.  What it returns on an occurrence is \<open>pattern.size()\<close>, not the position the comment of
  the function names: the value is the same wherever the pattern occurs.\<close>

theorem Match_iff_occurs:
  assumes "p \<noteq> []" "length p < INVALID_POS"
  shows "\<exists>v r. KMPAlgorithm False p = Some v \<and> Match False v p s = Some r \<and>
    (r \<noteq> INVALID_POS \<longleftrightarrow> sublist p s) \<and> (r = length p \<longleftrightarrow> sublist p s)"
proof -
  obtain tab v where tab: "KMPAlgorithm False p = Some v" "lps_ok p tab" "lps_holds v tab" "length tab = length p"
    using KMPAlgorithm_lps [OF assms(1)] by blast
  have "(\<exists>u. prefix u s \<and> u \<noteq> [] \<and> suffix p u) \<longleftrightarrow> sublist p s"
  proof
    assume "sublist p s"
    then obtain ps ss where "s = (ps @ p) @ ss" by (auto simp: sublist_def)
    then have "prefix (ps @ p) s \<and> ps @ p \<noteq> [] \<and> suffix p (ps @ p)"
      using assms by (auto simp: prefix_def suffix_def)
    then show "\<exists>u. prefix u s \<and> u \<noteq> [] \<and> suffix p u" by blast
  qed (force simp: sublist_def prefix_def suffix_def)
  then have "Match False v p s = Some (if sublist p s then length p else INVALID_POS)"
    using kmp_loop_spec [OF tab(2-4), of "[]" s] assms by (simp add: Match_def)
  with tab(1) assms(2) show ?thesis by simp
qed

theorem Match_iff_occurs_witness:
  "\<exists>v. KMPAlgorithm False [1, 1, 2] = Some v \<and> Match False v [1, 1, 2] [1, 1, 1, 2, 3] = Some 3"
proof -
  have "sublist [1, 1, 2 :: byte] [1, 1, 1, 2, 3]"
    unfolding sublist_def by (intro exI [of _ "[1]"] exI [of _ "[3]"]) simp
  then show ?thesis using Match_iff_occurs [of "[1, 1, 2]" "[1, 1, 1, 2, 3]"]
    by (auto simp: INVALID_POS_def)
qed

end
