(* ===== verification/Art.thy ===== *)
theory Art
  imports Utf8
begin

text \<open>
  \<open>src/src/include/art/node.h\<close> and \<open>src/src/include/art/tree.h\<close>: the trie.  The heap is the list
  of the allocated nodes, a node pointer is an index into it; a tagged leaf pointer carries the
  leaf's \<open>auxIndex\<close>, which never changes.  The atomics are sequentially consistent steps of one
  thread here; the version lock is modelled with its values.
\<close>

datatype ptr = Null | LeafPtr nat | NodePtr nat

record n256 =
  versionLock :: "64 word"
  cnt :: nat
  isCodePointEnd :: bool
  children :: "byte \<Rightarrow> ptr"
  links :: "ptr list"

type_synonym heap = "n256 list"

definition NULL_TERMINATOR :: byte where
  "NULL_TERMINATOR = 0"

definition makeNode :: "bool \<Rightarrow> n256" where
  "makeNode isEnd =
    \<lparr>versionLock = 0b10, cnt = 0, isCodePointEnd = isEnd, children = (\<lambda>_. Null),
     links = (if isEnd then [Null, Null] else [])\<rparr>"

text \<open>Dereferencing: null and tagged pointers fault.\<close>

definition deref :: "heap \<Rightarrow> ptr \<Rightarrow> n256 option" where
  "deref h p = (case p of NodePtr a \<Rightarrow> rd h a | _ \<Rightarrow> None)"

definition assign :: "heap \<Rightarrow> ptr \<Rightarrow> n256 \<Rightarrow> heap option" where
  "assign h p n = (case p of NodePtr a \<Rightarrow> if a < length h then Some (h[a := n]) else None | _ \<Rightarrow> None)"

definition isLeaf :: "ptr \<Rightarrow> bool" where
  "isLeaf p = (case p of LeafPtr _ \<Rightarrow> True | _ \<Rightarrow> False)"

definition getLeaf :: "ptr \<Rightarrow> nat option" where
  "getLeaf p = (case p of LeafPtr t \<Rightarrow> Some t | _ \<Rightarrow> None)"

subsection \<open>Optimistic lock coupling\<close>

definition isLocked :: "64 word \<Rightarrow> bool" where
  "isLocked version \<longleftrightarrow> version AND 0b1 = 0b1"

text \<open>\<open>compare_exchange_strong\<close>: the new node, the caller's version and \<open>needRestart\<close>.\<close>

definition upgradeToWriteLockOrRestart :: "n256 \<Rightarrow> 64 word \<Rightarrow> n256 \<times> 64 word \<times> bool" where
  "upgradeToWriteLockOrRestart n version =
    (if versionLock n = version
     then (n\<lparr>versionLock := version + 0b1\<rparr>, version + 0b1, False)
     else (n, versionLock n, True))"

definition writeUnlock :: "n256 \<Rightarrow> n256" where
  "writeUnlock n = n\<lparr>versionLock := versionLock n + 0b1\<rparr>"

definition readLockOrRestart :: "n256 \<Rightarrow> 64 word \<times> bool" where
  "readLockOrRestart n = (versionLock n, isLocked (versionLock n))"

definition readUnlockOrRestart :: "n256 \<Rightarrow> 64 word \<Rightarrow> bool" where
  "readUnlockOrRestart n startRead \<longleftrightarrow> startRead \<noteq> versionLock n"

text \<open>
  \<open>insertAndUnlock\<close>: \<open>generateVal\<close> may allocate and may change the caller's state.  The result
  is \<open>needRestart\<close> with the heap and that state.
\<close>

definition insertAndUnlock ::
  "heap \<Rightarrow> ptr \<Rightarrow> 64 word \<Rightarrow> ptr \<Rightarrow> 64 word \<Rightarrow> byte \<Rightarrow> (heap \<Rightarrow> 's \<Rightarrow> (ptr \<times> heap \<times> 's) option) \<Rightarrow> 's
   \<Rightarrow> (bool \<times> heap \<times> 's) option" where
  "insertAndUnlock h this v parentNode parentVersion key generateVal s = do {
     needRestart \<leftarrow> (if parentNode \<noteq> Null
       then do { pn \<leftarrow> deref h parentNode; Some (readUnlockOrRestart pn parentVersion) }
       else Some False);
     if needRestart then Some (True, h, s)
     else do {
       n \<leftarrow> deref h this;
       let (n, v', needRestart) = upgradeToWriteLockOrRestart n v;
       if needRestart then Some (True, h, s)
       else do {
         h \<leftarrow> assign h this n;
         (p, h, s) \<leftarrow> generateVal h s;
         n \<leftarrow> deref h this;
         h \<leftarrow> assign h this (writeUnlock
           (n\<lparr>children := (children n)(key := p), cnt := u16 (cnt n + 1)\<rparr>));
         Some (False, h, s) } } }"

subsection \<open>Links and children\<close>

definition isTerminalNode :: "heap \<Rightarrow> ptr \<Rightarrow> bool option" where
  "isTerminalNode h p = do { n \<leftarrow> deref h p; Some (children n NULL_TERMINATOR \<noteq> Null) }"

definition isLastByteOfCodePoint :: "heap \<Rightarrow> ptr \<Rightarrow> bool option" where
  "isLastByteOfCodePoint h p = do { n \<leftarrow> deref h p; Some (isCodePointEnd n) }"

text \<open>\<open>links\<close> is a flexible array that only code point ends allocate.\<close>

definition set_link :: "nat \<Rightarrow> heap \<Rightarrow> ptr \<Rightarrow> ptr \<Rightarrow> heap option" where
  "set_link i h p q = do {
     n \<leftarrow> deref h p;
     if i < length (links n) then assign h p (n\<lparr>links := (links n)[i := q]\<rparr>) else None }"

definition get_link :: "nat \<Rightarrow> heap \<Rightarrow> ptr \<Rightarrow> ptr option" where
  "get_link i h p = do { n \<leftarrow> deref h p; rd (links n) i }"

definition setSuffixLink :: "heap \<Rightarrow> ptr \<Rightarrow> ptr \<Rightarrow> heap option" where
  "setSuffixLink = set_link 0"

definition getSuffixLink :: "heap \<Rightarrow> ptr \<Rightarrow> ptr option" where
  "getSuffixLink = get_link 0"

definition setOutputLink :: "heap \<Rightarrow> ptr \<Rightarrow> ptr \<Rightarrow> heap option" where
  "setOutputLink = set_link 1"

definition getOutputLink :: "heap \<Rightarrow> ptr \<Rightarrow> ptr option" where
  "getOutputLink = get_link 1"

definition change :: "n256 \<Rightarrow> byte \<Rightarrow> ptr \<Rightarrow> n256" where
  "change n key v = n\<lparr>children := (children n)(key := v)\<rparr>"

definition insert_child :: "n256 \<Rightarrow> byte \<Rightarrow> ptr \<Rightarrow> n256" where
  "insert_child n key v = n\<lparr>children := (children n)(key := v), cnt := u16 (cnt n + 1)\<rparr>"

definition getChild :: "heap \<Rightarrow> ptr \<Rightarrow> byte \<Rightarrow> ptr option" where
  "getChild h p k = do { n \<leftarrow> deref h p; Some (children n k) }"

text \<open>\<open>getChildren(0, 255, ...)\<close>; a locked node makes it spin, which is not returning.\<close>

definition getChildren :: "heap \<Rightarrow> ptr \<Rightarrow> nat \<Rightarrow> nat \<Rightarrow> (byte \<times> ptr) list option" where
  "getChildren h p start stop = do {
     n \<leftarrow> deref h p;
     let (v, needRestart) = readLockOrRestart n;
     if needRestart then None
     else Some (filter (\<lambda>c. snd c \<noteq> Null)
       (map (\<lambda>i. (word_of_nat i, children n (word_of_nat i))) [start..<Suc stop])) }"

text \<open>
  \<open>deleteChildren\<close> with the loop index as an argument; the result is the sequence of pointers
  handed to \<open>deleteNode\<close>.
\<close>

partial_function (option) deleteChildren :: "heap \<Rightarrow> ptr \<Rightarrow> nat \<Rightarrow> ptr list option" where [code]:
  "deleteChildren h p i =
    (if isLeaf p then Some []
     else do {
       n \<leftarrow> deref h p;
       if i < 256
       then (let child = children n (word_of_nat i) in
             if child \<noteq> Null
             then do {
               xs \<leftarrow> deleteChildren h child 0;
               ys \<leftarrow> deleteChildren h p (i + 1);
               Some (xs @ [child] @ ys) }
             else deleteChildren h p (i + 1))
       else Some [] })"

subsection \<open>Tree\<close>

definition Tree :: heap where
  "Tree = [makeNode True]"

definition root :: ptr where
  "root = NodePtr 0"

text \<open>\<open>~Tree\<close>: everything that is freed.\<close>

definition destroy_tree :: "heap \<Rightarrow> ptr list option" where
  "destroy_tree h = do { xs \<leftarrow> deleteChildren h root 0; Some (xs @ [root]) }"

text \<open>\<open>keyword\<close> is the memory from the pointer on, of which \<open>keywordLen\<close> bytes are the key.\<close>

definition getNextChar :: "bytes \<Rightarrow> nat \<Rightarrow> bool \<Rightarrow> nat \<Rightarrow> byte option" where
  "getNextChar keyword keywordLen mustAppendNull idx =
    (if idx \<ge> keywordLen then do { assert_opt mustAppendNull; Some NULL_TERMINATOR }
     else rd keyword idx)"

partial_function (option) mark_code_points :: "bytes \<Rightarrow> nat \<Rightarrow> nat \<Rightarrow> bool list \<Rightarrow> bool list option" where [code]:
  "mark_code_points keyword stop p isEnd =
    (if p < stop
     then do {
       result \<leftarrow> readCodePoint keyword p stop;
       mark_code_points keyword stop (next_pos result)
         (fold (\<lambda>b e. e[b + 1 := False]) [p..<next_pos result - 1] isEnd) }
     else Some isEnd)"

text \<open>The chain below the insertion point, built from the leaf upwards.\<close>

fun build_chain :: "bytes \<Rightarrow> nat \<Rightarrow> bool \<Rightarrow> bool list \<Rightarrow> nat list \<Rightarrow> ptr \<Rightarrow> heap \<Rightarrow> (ptr \<times> heap) option" where
  "build_chain keyword keywordLen mustAppendNull isEnd [] lastNode h = Some (lastNode, h)"
| "build_chain keyword keywordLen mustAppendNull isEnd (idx # is) lastNode h = do {
     e \<leftarrow> rd isEnd idx;
     c \<leftarrow> getNextChar keyword keywordLen mustAppendNull idx;
     build_chain keyword keywordLen mustAppendNull isEnd is (NodePtr (length h))
       (h @ [insert_child (makeNode e) c lastNode]) }"

definition generate_path ::
  "bytes \<Rightarrow> nat \<Rightarrow> bool \<Rightarrow> bool list \<Rightarrow> nat \<Rightarrow> ('s \<Rightarrow> (nat \<times> 's) option) \<Rightarrow> heap \<Rightarrow> 's
   \<Rightarrow> (ptr \<times> heap \<times> 's) option" where
  "generate_path keyword keywordLen mustAppendNull isEnd level insert_fn h s = do {
     (tid, s) \<leftarrow> insert_fn s;
     (p, h) \<leftarrow> (if level < keywordLen - 1 + of_bool mustAppendNull
       then build_chain keyword keywordLen mustAppendNull isEnd
              (rev [level + 1..<keywordLen + of_bool mustAppendNull]) (LeafPtr tid) h
       else Some (LeafPtr tid, h));
     Some (p, h, s) }"

text \<open>
  The descent.  One pass through the loop body, at \<open>node\<close> with the node visited before
  (null at the root) and the version read there: it returns, jumps to \<open>restart\<close>, or goes on
  with the child.
\<close>

datatype 's insert_outcome =
  Returned heap 's
| Restarted heap 's
| Descended "64 word" ptr heap 's

record 's insert_args =
  ia_keyword :: bytes
  ia_keywordLen :: nat
  ia_mustAppendNull :: bool
  ia_isEnd :: "bool list"
  ia_insert_fn :: "'s \<Rightarrow> (nat \<times> 's) option"
  ia_upsert_fn :: "nat \<Rightarrow> 's \<Rightarrow> 's option"

definition insert_step ::
  "'s insert_args \<Rightarrow> ptr \<Rightarrow> 64 word \<Rightarrow> nat \<Rightarrow> ptr \<Rightarrow> heap \<Rightarrow> 's \<Rightarrow> 's insert_outcome option" where
  "insert_step a parentNode parentVersion level node h s = do {
     n \<leftarrow> deref h node;
     let (v, needRestart) = readLockOrRestart n;
     if needRestart then Some (Restarted h s)
     else do {
       nodeKey \<leftarrow> getNextChar (ia_keyword a) (ia_keywordLen a) (ia_mustAppendNull a) level;
       nextNode \<leftarrow> getChild h node nodeKey;
       if readUnlockOrRestart n v then Some (Restarted h s)
       else if nextNode = Null
       then do {
         (needRestart, h, s) \<leftarrow> insertAndUnlock h node v parentNode parentVersion nodeKey
           (generate_path (ia_keyword a) (ia_keywordLen a) (ia_mustAppendNull a) (ia_isEnd a) level
              (ia_insert_fn a)) s;
         Some (if needRestart then Restarted h s else Returned h s) }
       else do {
         needRestart \<leftarrow> (if parentNode \<noteq> Null
           then do { pn \<leftarrow> deref h parentNode; Some (readUnlockOrRestart pn parentVersion) }
           else Some False);
         if needRestart then Some (Restarted h s)
         else if isLeaf nextNode
         then do {
           let (n, v', needRestart) = upgradeToWriteLockOrRestart n v;
           if needRestart then Some (Restarted h s)
           else do {
             h \<leftarrow> assign h node n;
             tid \<leftarrow> getLeaf nextNode;
             s \<leftarrow> (ia_upsert_fn a) tid s;
             n \<leftarrow> deref h node;
             h \<leftarrow> assign h node (writeUnlock n);
             Some (Returned h s) } }
         else Some (Descended v nextNode h s) } } }"

partial_function (option) insert_loop ::
  "'s insert_args \<Rightarrow> ptr \<Rightarrow> 64 word \<Rightarrow> nat \<Rightarrow> ptr \<Rightarrow> heap \<Rightarrow> 's \<Rightarrow> (heap \<times> 's) option" where [code]:
  "insert_loop a parentNode parentVersion level node h s = do {
     r \<leftarrow> insert_step a parentNode parentVersion level node h s;
     case r of
       Returned h s \<Rightarrow> Some (h, s)
     | Restarted h s \<Rightarrow> insert_loop a Null 0 0 root h s
     | Descended v nextNode h s \<Rightarrow> insert_loop a node v (u32 (level + 1)) nextNode h s }"

definition Tree_insert ::
  "bytes \<Rightarrow> nat \<Rightarrow> bool \<Rightarrow> ('s \<Rightarrow> (nat \<times> 's) option) \<Rightarrow> (nat \<Rightarrow> 's \<Rightarrow> 's option) \<Rightarrow> heap \<Rightarrow> 's
   \<Rightarrow> (heap \<times> 's) option" where
  "Tree_insert keyword keywordLen mustAppendNull insert_fn upsert_fn h s = do {
     assert_opt (keywordLen > 0);
     c \<leftarrow> rd keyword (keywordLen - 1);
     assert_opt ((c = NULL_TERMINATOR) = (\<not> mustAppendNull));
     isEnd \<leftarrow> mark_code_points keyword (keywordLen + of_bool mustAppendNull) 0
       (replicate (keywordLen + of_bool mustAppendNull + 1) True);
     insert_loop \<lparr>ia_keyword = keyword, ia_keywordLen = keywordLen, ia_mustAppendNull = mustAppendNull,
       ia_isEnd = isEnd, ia_insert_fn = insert_fn, ia_upsert_fn = upsert_fn\<rparr> Null 0 0 root h s }"

end
