(* ===== verification/AhoCorasick.thy ===== *)
theory AhoCorasick
  imports Art
begin

text \<open>
  \<open>src/src/include/aho_corasick/aho_corasick.h\<close> and \<open>src/src/aho_corasick.cc\<close>: the automaton,
  that is the trie, the map from literal ids to the patterns they occur in, and the suffix and
  output links.  Roaring bitmaps and the TBB map are a parameter (\<open>containers\<close>).  A
  \<open>std::queue\<close> is a list, a small fixed array is a list of its length.
\<close>

record PatternIndexType =
  pi_pattern_id :: nat
  pi_start_pos :: nat

definition ToUint :: "PatternIndexType \<Rightarrow> nat" where
  "ToUint x = push_bit 32 (pi_pattern_id x) OR pi_start_pos x"

definition FromUint :: "nat \<Rightarrow> PatternIndexType" where
  "FromUint v = \<lparr>pi_pattern_id = u32 (drop_bit 32 v), pi_start_pos = u32 (v AND 0xFFFFFFFF)\<rparr>"

record MatchingOutputType =
  pattern_index :: PatternIndexType
  literal_len :: nat
  text_start_pos :: nat

definition same_match :: "MatchingOutputType \<Rightarrow> MatchingOutputType \<Rightarrow> bool" where
  "same_match a b \<longleftrightarrow>
    pi_pattern_id (pattern_index a) = pi_pattern_id (pattern_index b) \<and>
    pi_start_pos (pattern_index a) = pi_start_pos (pattern_index b) \<and>
    text_start_pos a = text_start_pos b"

record 'b LiteralEntry =
  bitmap :: 'b
  entry_literal_len :: nat

text \<open>
  The two containers that come from outside the repository's own code: \<open>roaring::Roaring64Map\<close>
  (\<open>add\<close> and iteration) and \<open>tbb::concurrent_unordered_map\<close> (\<open>emplace\<close>, \<open>find\<close>, and assignment
  through the reference that \<open>at\<close> returns).
\<close>

record ('b, 'm) containers =
  bitmap_empty :: 'b
  bitmap_add :: "nat \<Rightarrow> 'b \<Rightarrow> 'b"
  bitmap_elems :: "'b \<Rightarrow> nat list"
  cmap_empty :: 'm
  cmap_find :: "'m \<Rightarrow> nat \<Rightarrow> 'b LiteralEntry option"
  cmap_emplace :: "nat \<Rightarrow> 'b LiteralEntry \<Rightarrow> 'm \<Rightarrow> 'm"
  cmap_assign :: "nat \<Rightarrow> 'b LiteralEntry \<Rightarrow> 'm \<Rightarrow> 'm"

text \<open>
  Their documented behaviour: a bitmap is a set iterated in increasing order; \<open>emplace\<close> leaves
  an existing key alone.
\<close>

definition containers_ok :: "('b, 'm) containers \<Rightarrow> bool" where
  "containers_ok L \<longleftrightarrow>
    bitmap_elems L (bitmap_empty L) = [] \<and>
    (\<forall>x b. sorted (bitmap_elems L b) \<and> distinct (bitmap_elems L b) \<and>
       set (bitmap_elems L (bitmap_add L x b)) = insert x (set (bitmap_elems L b))) \<and>
    (\<forall>k. cmap_find L (cmap_empty L) k = None) \<and>
    (\<forall>k e m. cmap_find L (cmap_emplace L k e m) =
       (if cmap_find L m k = None then (cmap_find L m)(k \<mapsto> e) else cmap_find L m)) \<and>
    (\<forall>k e m. cmap_find L (cmap_assign L k e m) = (cmap_find L m)(k \<mapsto> e))"

record 'm automaton =
  trie :: heap
  literal_map :: 'm
  unique_literal_cnt :: nat

definition AhoCorasick :: "('b, 'm) containers \<Rightarrow> 'm automaton" where
  "AhoCorasick L = \<lparr>trie = Tree, literal_map = cmap_empty L, unique_literal_cnt = 0\<rparr>"

definition GetRoot :: "'m automaton \<Rightarrow> ptr" where
  "GetRoot ac = root"

definition NumUniqueLiterals :: "'m automaton \<Rightarrow> nat" where
  "NumUniqueLiterals ac = unique_literal_cnt ac"

subsection \<open>Insert\<close>

text \<open>The two lambdas of \<open>Insert\<close>; their state is the counter and the literal map.\<close>

definition new_tid :: "('b, 'm) containers \<Rightarrow> nat \<Rightarrow> nat \<Rightarrow> nat \<times> 'm \<Rightarrow> (nat \<times> nat \<times> 'm) option" where
  "new_tid L lit_len aux = (\<lambda>(n, m).
     let entry = \<lparr>bitmap = bitmap_add L aux (bitmap_empty L), entry_literal_len = lit_len\<rparr>
     in Some (n, (n + 1, cmap_emplace L n entry m)))"

definition upsert_tid :: "('b, 'm) containers \<Rightarrow> nat \<Rightarrow> nat \<Rightarrow> nat \<times> 'm \<Rightarrow> (nat \<times> 'm) option" where
  "upsert_tid L aux tid = (\<lambda>(n, m). do {
     entry \<leftarrow> cmap_find L m tid;
     Some (n, cmap_assign L tid (entry\<lparr>bitmap := bitmap_add L aux (bitmap entry)\<rparr>) m) })"

definition Insert ::
  "('b, 'm) containers \<Rightarrow> bytes \<Rightarrow> nat \<Rightarrow> PatternIndexType \<Rightarrow> 'm automaton \<Rightarrow> 'm automaton option" where
  "Insert L keyword keyword_len keyword_aux_index ac = do {
     assert_opt (keyword_len > 0);
     c \<leftarrow> rd keyword (keyword_len - 1);
     let must_append_null = (c \<noteq> NULL_TERMINATOR);
     let lit_len = u32 keyword_len;
     (h, n, m) \<leftarrow> Tree_insert keyword keyword_len must_append_null
       (new_tid L lit_len (ToUint keyword_aux_index)) (upsert_tid L (ToUint keyword_aux_index))
       (trie ac) (unique_literal_cnt ac, literal_map ac);
     Some (ac\<lparr>trie := h, unique_literal_cnt := n, literal_map := m\<rparr>) }"

subsection \<open>BuildSuffixLink\<close>

record BFSNodeItem =
  bfs_node :: ptr
  last_codepoint_node :: ptr
  bytes_since_last_cp :: bytes
  bfs_length :: nat

definition plain_item :: "ptr \<Rightarrow> BFSNodeItem" where
  "plain_item p = \<lparr>bfs_node = p, last_codepoint_node = p, bytes_since_last_cp = replicate 6 0, bfs_length = 0\<rparr>"

text \<open>The children of the root.\<close>

fun bfs_root :: "ptr \<Rightarrow> (byte \<times> ptr) list \<Rightarrow> heap \<Rightarrow> BFSNodeItem list \<Rightarrow> (heap \<times> BFSNodeItem list) option" where
  "bfs_root r [] h q = Some (h, q)"
| "bfs_root r ((b, child) # cs) h q =
    (if isLeaf child then bfs_root r cs h q
     else do {
       e \<leftarrow> isLastByteOfCodePoint h child;
       if e
       then do {
         h \<leftarrow> setSuffixLink h child root;
         bfs_root r cs h (q @ [plain_item child]) }
       else bfs_root r cs h (q @ [\<lparr>bfs_node = child, last_codepoint_node = r,
              bytes_since_last_cp = (replicate 6 0)[0 := b], bfs_length = 1\<rparr>]) })"

text \<open>Following the bytes seen since the last code point, from a candidate.\<close>

fun follow_bytes :: "heap \<Rightarrow> bytes \<Rightarrow> ptr \<Rightarrow> ptr optional option" where
  "follow_bytes h [] p = Some (Val p)"
| "follow_bytes h (b # bs) p = do {
     q \<leftarrow> getChild h p b;
     if q = Null then Some nullopt else follow_bytes h bs q }"

partial_function (option) find_suffix :: "heap \<Rightarrow> bytes \<Rightarrow> byte \<Rightarrow> ptr \<Rightarrow> ptr option" where [code]:
  "find_suffix h bs b suffix_node =
    (if suffix_node = Null then Some Null
     else do {
       e \<leftarrow> isLastByteOfCodePoint h suffix_node;
       assert_opt e;
       m \<leftarrow> follow_bytes h bs suffix_node;
       target \<leftarrow> (case m of nullopt \<Rightarrow> Some Null | Val possible_suffix \<Rightarrow> getChild h possible_suffix b);
       if target \<noteq> Null
       then do { e \<leftarrow> isLastByteOfCodePoint h target; assert_opt e; Some target }
       else do { s \<leftarrow> getSuffixLink h suffix_node; find_suffix h bs b s } })"

definition link_child :: "heap \<Rightarrow> BFSNodeItem \<Rightarrow> byte \<Rightarrow> ptr \<Rightarrow> heap option" where
  "link_child h item b child = do {
     s \<leftarrow> getSuffixLink h (last_codepoint_node item);
     s \<leftarrow> find_suffix h (take (bfs_length item) (bytes_since_last_cp item)) b s;
     let suffix_node = (if s = Null then root else s);
     e \<leftarrow> isLastByteOfCodePoint h suffix_node;
     assert_opt e;
     h \<leftarrow> setSuffixLink h child suffix_node;
     t \<leftarrow> isTerminalNode h suffix_node;
     out \<leftarrow> (if t then Some suffix_node else getOutputLink h suffix_node);
     h \<leftarrow> setOutputLink h child out;
     ok \<leftarrow> (if out = Null then Some True else isTerminalNode h out);
     assert_opt ok;
     Some h }"

fun bfs_children :: "BFSNodeItem \<Rightarrow> (byte \<times> ptr) list \<Rightarrow> heap \<Rightarrow> BFSNodeItem list \<Rightarrow> (heap \<times> BFSNodeItem list) option" where
  "bfs_children item [] h q = Some (h, q)"
| "bfs_children item ((b, child) # cs) h q =
    (if b = NULL_TERMINATOR
     then do { assert_opt (isLeaf child); bfs_children item cs h q }
     else do {
       e \<leftarrow> isLastByteOfCodePoint h child;
       if \<not> e
       then do {
         assert_opt (bfs_length item < 6);
         bfs_children item cs h (q @ [\<lparr>bfs_node = child, last_codepoint_node = last_codepoint_node item,
           bytes_since_last_cp = (bytes_since_last_cp item)[bfs_length item := b],
           bfs_length = bfs_length item + 1\<rparr>]) }
       else do {
         h \<leftarrow> link_child h item b child;
         bfs_children item cs h (q @ [plain_item child]) } })"

definition bfs_step :: "heap \<Rightarrow> BFSNodeItem \<Rightarrow> BFSNodeItem list \<Rightarrow> (heap \<times> BFSNodeItem list) option" where
  "bfs_step h item q = do {
     cs \<leftarrow> getChildren h (bfs_node item) 0 255;
     if bfs_node item = root
     then do {
       e \<leftarrow> isLastByteOfCodePoint h (bfs_node item);
       assert_opt e;
       bfs_root (bfs_node item) cs h q }
     else bfs_children item cs h q }"

partial_function (option) bfs_loop :: "heap \<Rightarrow> BFSNodeItem list \<Rightarrow> heap option" where [code]:
  "bfs_loop h queue = (case queue of
     [] \<Rightarrow> Some h
   | item # q \<Rightarrow> do { (h, q) \<leftarrow> bfs_step h item q; bfs_loop h q })"

definition BuildSuffixLink :: "'m automaton \<Rightarrow> 'm automaton option" where
  "BuildSuffixLink ac = do { h \<leftarrow> bfs_loop (trie ac) [plain_item root]; Some (ac\<lparr>trie := h\<rparr>) }"

subsection \<open>VisitCodePoint\<close>

fun visit_bytes :: "heap \<Rightarrow> nat \<Rightarrow> bytes \<Rightarrow> ptr \<Rightarrow> ptr option" where
  "visit_bytes h idx [] cur = Some cur"
| "visit_bytes h idx (b # bs) cur = do {
     q \<leftarrow> getChild h cur b;
     if q = Null then Some Null
     else do {
       e \<leftarrow> (if idx > 0 then isLastByteOfCodePoint h cur else Some False);
       assert_opt (\<not> e);
       visit_bytes h (idx + 1) bs q } }"

definition VisitCodePoint :: "heap \<Rightarrow> ptr \<Rightarrow> bytes \<Rightarrow> ptr option" where
  "VisitCodePoint h cur cp = do {
     e \<leftarrow> isLastByteOfCodePoint h cur;
     assert_opt e;
     visit_bytes h 0 cp cur }"

end
