(* ===== verification/Skeleton.thy ===== *)
theory Skeleton
  imports Tokenizer LruCache DelayQueue AhoCorasick
begin

text \<open>
  \<open>src/src/include/aho_corasick/skeleton.h\<close> and \<open>src/src/skeleton.cc\<close>: the compiled form of a
  pattern and the matcher that tracks the alignments of one pattern in a text.  \<open>u16\<close> and \<open>u32\<close>
  conversions are where the code has them, so offsets beyond 65535 are truncated as they are
  there; \<open>assert\<close> is a fault.
\<close>

record Segment =
  literal_offset :: "nat list"
  lit_off_p :: "(nat \<times> nat) list"
  prefix_underscore_cnt :: nat
  suffix_underscore_cnt :: nat
  max_underscore_cnt :: nat
  has_prefix_percent :: bool
  has_suffix_percent :: bool

definition empty_segment :: Segment where
  "empty_segment = \<lparr>literal_offset = [], lit_off_p = [], prefix_underscore_cnt = 0,
     suffix_underscore_cnt = 0, max_underscore_cnt = 0,
     has_prefix_percent = False, has_suffix_percent = False\<rparr>"

definition HasLiteral :: "Segment \<Rightarrow> bool" where
  "HasLiteral g \<longleftrightarrow> literal_offset g \<noteq> []"

text \<open>The parameters are \<open>u16\<close>, so arguments are narrowed on entry; \<open>emplace\<close> keeps an old entry.\<close>

definition Segment_Insert :: "nat \<Rightarrow> Segment \<Rightarrow> Segment" where
  "Segment_Insert start_pos g =
    (let p = u16 start_pos;
         offs = literal_offset g @ [p];
         m = lit_off_p g
     in g\<lparr>literal_offset := offs,
          lit_off_p := (if map_of m p = None then m @ [(p, u16 (length offs - 1))] else m)\<rparr>)"

definition Segment_Contain :: "Segment \<Rightarrow> nat \<Rightarrow> bool" where
  "Segment_Contain g start_pos \<longleftrightarrow> map_of (lit_off_p g) (u16 start_pos) \<noteq> None"

definition IsFirstLiteral :: "Segment \<Rightarrow> nat \<Rightarrow> bool option" where
  "IsFirstLiteral g start_pos = do {
     assert_opt (Segment_Contain g start_pos);
     pos \<leftarrow> map_of (lit_off_p g) (u16 start_pos);
     Some (pos = 0) }"

definition IsLastLiteral :: "Segment \<Rightarrow> nat \<Rightarrow> bool option" where
  "IsLastLiteral g start_pos = do {
     assert_opt (Segment_Contain g start_pos);
     pos \<leftarrow> map_of (lit_off_p g) (u16 start_pos);
     Some (pos = sub64 (length (literal_offset g)) 1) }"

definition IsPreviousLiteral :: "Segment \<Rightarrow> nat \<Rightarrow> nat \<Rightarrow> bool option" where
  "IsPreviousLiteral g prev_start_pos start_pos = do {
     assert_opt (Segment_Contain g start_pos);
     pos \<leftarrow> map_of (lit_off_p g) (u16 start_pos);
     if pos > 0 then do { q \<leftarrow> rd (literal_offset g) (pos - 1); Some (q = u16 prev_start_pos) }
     else Some False }"

definition GetNextLiteralOffset :: "Segment \<Rightarrow> nat \<Rightarrow> nat option" where
  "GetNextLiteralOffset g start_pos = do {
     l \<leftarrow> IsLastLiteral g start_pos;
     assert_opt (\<not> l);
     pos \<leftarrow> map_of (lit_off_p g) (u16 start_pos);
     rd (literal_offset g) (pos + 1) }"

subsection \<open>The constructor\<close>

record Skeleton =
  only_wildcard :: bool
  segs :: "Segment list"

type_synonym 's literal_fn = "tokenizer \<Rightarrow> LiteralSpan \<Rightarrow> 's \<Rightarrow> 's option"

definition add_literal :: "LiteralSpan \<Rightarrow> nat \<Rightarrow> Segment \<Rightarrow> Segment" where
  "add_literal lit prev_lit_end g =
    (let gap = sub32 (start lit) prev_lit_end;
         g = (if \<not> HasLiteral g then g\<lparr>prefix_underscore_cnt := gap\<rparr> else g);
         g = g\<lparr>max_underscore_cnt := max (max_underscore_cnt g) gap\<rparr>
     in Segment_Insert (sub32 (start lit) (escape_prefix_before_start lit)) g)"

text \<open>The inner loop; the state \<open>'s\<close> is what the callback \<open>literal_fn\<close> works on.\<close>

partial_function (option) literal_loop ::
  "'s literal_fn \<Rightarrow> LiteralSpan \<Rightarrow> tokenizer \<Rightarrow> Segment \<Rightarrow> nat \<Rightarrow> bool \<Rightarrow> 's
   \<Rightarrow> (tokenizer \<times> Segment \<times> nat \<times> bool \<times> 's) option" where [code]:
  "literal_loop fn seg tok g prev_lit_end ow s = do {
     (l, tok) \<leftarrow> NextLiteral tok seg;
     case l of nullopt \<Rightarrow> Some (tok, g, prev_lit_end, ow, s)
     | Val lit \<Rightarrow> do {
         s \<leftarrow> fn tok lit s;
         literal_loop fn seg tok (add_literal lit prev_lit_end g) (u32 (start lit + len lit)) False s } }"

definition close_segment :: "LiteralSpan \<Rightarrow> nat \<Rightarrow> Segment \<Rightarrow> Segment" where
  "close_segment seg prev_lit_end g =
    (let seg_end = u32 (start seg + len seg);
         sfx = sub32 seg_end prev_lit_end
     in g\<lparr>suffix_underscore_cnt := sfx, max_underscore_cnt := max (max_underscore_cnt g) sfx\<rparr>)"

partial_function (option) segment_loop ::
  "'s literal_fn \<Rightarrow> tokenizer \<Rightarrow> Segment list \<Rightarrow> bool \<Rightarrow> 's
   \<Rightarrow> (tokenizer \<times> Segment list \<times> bool \<times> 's) option" where [code]:
  "segment_loop fn tok gs ow s = do {
     (sg, tok) \<leftarrow> NextSegment tok;
     case sg of nullopt \<Rightarrow> Some (tok, gs, ow, s)
     | Val seg \<Rightarrow> do {
         (tok, g, prev_lit_end, ow, s) \<leftarrow> literal_loop fn seg tok
           (empty_segment\<lparr>has_prefix_percent := (length gs > 0 \<or> start seg > 0)\<rparr>) (start seg) ow s;
         segment_loop fn tok (gs @ [close_segment seg prev_lit_end g]) ow s } }"

fun fill_suffix_percent :: "bool \<Rightarrow> Segment list \<Rightarrow> Segment list" where
  "fill_suffix_percent last_percent [] = []"
| "fill_suffix_percent last_percent [g] =
    [if last_percent then g\<lparr>has_suffix_percent := True\<rparr> else g]"
| "fill_suffix_percent last_percent (g # g' # gs) =
    g\<lparr>has_suffix_percent := has_prefix_percent g'\<rparr> # fill_suffix_percent last_percent (g' # gs)"

subsection \<open>FoldLiteralFreeSegments\<close>

fun fold_front :: "Segment list \<Rightarrow> Segment list" where
  "fold_front (g0 # g1 # gs) =
    (if \<not> HasLiteral g0
     then fold_front (g1\<lparr>prefix_underscore_cnt := u32 (prefix_underscore_cnt g1 +
             (prefix_underscore_cnt g0 + suffix_underscore_cnt g0)),
           has_prefix_percent := True\<rparr> # gs)
     else g0 # g1 # gs)"
| "fold_front gs = gs"

text \<open>The loop over \<open>idx\<close> from 1, with \<open>g\<close> the segment at \<open>idx - 1\<close>.\<close>

fun fold_back :: "Segment \<Rightarrow> Segment list \<Rightarrow> Segment list" where
  "fold_back g [] = [g]"
| "fold_back g (h # hs) =
    (if HasLiteral h then g # fold_back h hs
     else fold_back (g\<lparr>suffix_underscore_cnt := u32 (suffix_underscore_cnt g +
            (prefix_underscore_cnt h + suffix_underscore_cnt h))\<rparr>) hs)"

definition cover_max :: "Segment \<Rightarrow> Segment" where
  "cover_max g = g\<lparr>max_underscore_cnt :=
     max (max_underscore_cnt g) (max (prefix_underscore_cnt g) (suffix_underscore_cnt g))\<rparr>"

definition FoldLiteralFreeSegments :: "Segment list \<Rightarrow> Segment list" where
  "FoldLiteralFreeSegments gs =
    (if length gs < 2 then gs
     else map cover_max (case fold_front gs of [] \<Rightarrow> [] | g # hs \<Rightarrow> fold_back g hs))"

definition make_Skeleton :: "bytes \<Rightarrow> nat \<Rightarrow> bytes \<Rightarrow> 's literal_fn \<Rightarrow> 's \<Rightarrow> (Skeleton \<times> 's) option" where
  "make_Skeleton p plen escape_str literal_fn s = do {
     (tok, gs, ow, s) \<leftarrow> segment_loop literal_fn (Tokenizer p plen escape_str) [] True s;
     Some (\<lparr>only_wildcard = ow,
            segs = FoldLiteralFreeSegments (fill_suffix_percent (Pos tok \<noteq> plen) gs)\<rparr>, s) }"

definition OnlyWildcard :: "Skeleton \<Rightarrow> bool" where
  "OnlyWildcard sket = only_wildcard sket"

definition IsEmpty :: "Skeleton \<Rightarrow> bool" where
  "IsEmpty sket \<longleftrightarrow> segs sket = []"

subsection \<open>Patterns without a literal, and walking code points\<close>

function wildcard_scan :: "tokenizer \<Rightarrow> bytes \<Rightarrow> nat \<Rightarrow> nat \<Rightarrow> nat \<Rightarrow> bool \<Rightarrow> (nat \<times> bool) option" where
  "wildcard_scan tok p plen i underscore_cnt has_percent =
    (if i < plen
     then do {
       c \<leftarrow> rd p i;
       e \<leftarrow> IsEscaped tok i;
       if e \<and> (c = PERCENTAGE \<or> c = UNDERSCORE)
       then wildcard_scan tok p plen (i + 1) underscore_cnt has_percent
       else if c = PERCENTAGE then wildcard_scan tok p plen (i + 1) underscore_cnt True
       else if c = UNDERSCORE then wildcard_scan tok p plen (i + 1) (u32 (underscore_cnt + 1)) has_percent
       else wildcard_scan tok p plen (i + 1) underscore_cnt has_percent }
     else Some (underscore_cnt, has_percent))"
  by auto
termination by (relation "measure (\<lambda>(t, p, n, i, u, h). n - i)") auto

partial_function (option) count_code_points :: "bytes \<Rightarrow> nat \<Rightarrow> nat \<Rightarrow> nat \<Rightarrow> nat option" where [code]:
  "count_code_points s slen p no_cp =
    (if p < slen
     then do { r \<leftarrow> readCodePoint s p slen; count_code_points s slen (next_pos r) (no_cp + 1) }
     else Some no_cp)"

definition SpecialMatchEmptyPattern :: "bytes \<Rightarrow> nat \<Rightarrow> bytes \<Rightarrow> nat \<Rightarrow> bytes \<Rightarrow> bool option" where
  "SpecialMatchEmptyPattern p plen s slen escape_str = do {
     (underscore_cnt, has_percent) \<leftarrow> wildcard_scan (Tokenizer p plen escape_str) p plen 0 0 False;
     no_cp \<leftarrow> count_code_points s slen 0 0;
     Some (no_cp = underscore_cnt \<or> (no_cp > underscore_cnt \<and> has_percent)) }"

fun Utf8Advance :: "bytes \<Rightarrow> nat \<Rightarrow> nat \<Rightarrow> nat \<Rightarrow> nat optional option" where
  "Utf8Advance text text_length cur 0 = Some (Val cur)"
| "Utf8Advance text text_length cur (Suc n) =
    (if cur \<ge> text_length then Some nullopt
     else do {
       r \<leftarrow> readCodePoint text cur text_length;
       Utf8Advance text text_length (cur + (next_pos r - cur)) n })"

definition LruCapForSegment :: "Segment \<Rightarrow> nat" where
  "LruCapForSegment seg =
    (let cap = u32 (max_underscore_cnt seg + 1)
     in if literal_offset seg \<noteq> [] then max cap (last (literal_offset seg) + 1) else cap)"

subsection \<open>Matcher\<close>

record Matcher =
  segment_idx :: nat
  min_text_start_pos :: nat
  alignments :: "(nat, nat) lru"

definition make_Matcher :: "nat \<Rightarrow> Matcher" where
  "make_Matcher n = \<lparr>segment_idx = 0, min_text_start_pos = 0, alignments = LRUCache n\<rparr>"

definition InitializeMatcher :: "Skeleton \<Rightarrow> Matcher option" where
  "InitializeMatcher sket = do {
     assert_opt (segs sket \<noteq> []);
     g \<leftarrow> rd (segs sket) 0;
     Some (make_Matcher (LruCapForSegment g)) }"

definition Matcher_Reset :: "nat \<Rightarrow> Matcher \<Rightarrow> Matcher" where
  "Matcher_Reset n m =
    m\<lparr>segment_idx := 0, min_text_start_pos := 0, alignments := Reset n (alignments m)\<rparr>"

definition ResetMatcher :: "Skeleton \<Rightarrow> Matcher \<Rightarrow> Matcher option" where
  "ResetMatcher sket m = do {
     assert_opt (segs sket \<noteq> []);
     g \<leftarrow> rd (segs sket) 0;
     Some (Matcher_Reset (LruCapForSegment g) m) }"

text \<open>\<open>Matcher::Upsert\<close>; the cache holds \<open>u16\<close> values.\<close>

definition Matcher_Upsert :: "nat \<Rightarrow> nat \<Rightarrow> Matcher \<Rightarrow> Matcher option" where
  "Matcher_Upsert text_pat_diff pat_cursor m = do {
     c \<leftarrow> Upsert text_pat_diff (u16 pat_cursor) (alignments m);
     Some (m\<lparr>alignments := c\<rparr>) }"

definition SegmentTailEnd :: "Skeleton \<Rightarrow> MatchingOutputType \<Rightarrow> nat \<Rightarrow> bytes \<Rightarrow> nat \<Rightarrow> nat optional option" where
  "SegmentTailEnd sket ac_match curr_segment_idx text text_length = do {
     g \<leftarrow> rd (segs sket) curr_segment_idx;
     Utf8Advance text text_length (text_start_pos ac_match + literal_len ac_match) (suffix_underscore_cnt g) }"

definition ValidLastLiteral :: "Skeleton \<Rightarrow> nat \<Rightarrow> nat \<Rightarrow> nat \<Rightarrow> bool option" where
  "ValidLastLiteral sket curr_segment_idx tail_end text_length =
    (if curr_segment_idx + 1 < length (segs sket) then Some True
     else do {
       g \<leftarrow> rd (segs sket) (length (segs sket) - 1);
       Some (has_suffix_percent g \<or> tail_end = text_length) })"

text \<open>
  The positional fit of a hit: whether it holds, and the matcher after the lookup, which
  consumes the alignment even when the literal before does not fit.
\<close>

definition positional_fit ::
  "Segment \<Rightarrow> MatchingOutputType \<Rightarrow> bytes \<Rightarrow> nat \<Rightarrow> Matcher \<Rightarrow> (bool \<times> Matcher) option" where
  "positional_fit g ac_match text text_len m = do {
     let pat_pos = pi_start_pos (pattern_index ac_match);
     first \<leftarrow> IsFirstLiteral g pat_pos;
     if first
     then do {
       head_end \<leftarrow> Utf8Advance text text_len (min_text_start_pos m) (prefix_underscore_cnt g);
       case head_end of nullopt \<Rightarrow> Some (False, m)
       | Val e \<Rightarrow>
           Some (if has_prefix_percent g then \<not> text_start_pos ac_match < e
                 else \<not> (segment_idx m \<noteq> 0 \<or> text_start_pos ac_match \<noteq> e), m) }
     else do {
       let diff = sub64 (text_start_pos ac_match) pat_pos;
       if \<not> Contain diff (alignments m) then Some (False, m)
       else do {
         (prev, c) \<leftarrow> GetAndRemove diff (alignments m);
         p \<leftarrow> IsPreviousLiteral g prev pat_pos;
         Some (p, m\<lparr>alignments := c\<rparr>) } } }"

definition TryMatchingLiteral ::
  "Skeleton \<Rightarrow> MatchingOutputType \<Rightarrow> nat \<Rightarrow> delayed_queue \<Rightarrow> bytes \<Rightarrow> nat \<Rightarrow> Matcher
   \<Rightarrow> (bool \<times> Matcher \<times> delayed_queue) option" where
  "TryMatchingLiteral sket ac_match curr_cp_index delay_queue text text_len m =
    (if segment_idx m \<ge> length (segs sket) then Some (False, m, delay_queue)
     else do {
       g \<leftarrow> rd (segs sket) (segment_idx m);
       let pat_pos = pi_start_pos (pattern_index ac_match);
       if \<not> Segment_Contain g pat_pos \<or> text_start_pos ac_match < min_text_start_pos m
       then Some (False, m, delay_queue)
       else do {
         (fits, m) \<leftarrow> positional_fit g ac_match text text_len m;
         if \<not> fits then Some (False, m, delay_queue)
         else do {
           at_end \<leftarrow> IsLastLiteral g pat_pos;
           if at_end then Some (True, m, delay_queue)
           else do {
             next_offset \<leftarrow> GetNextLiteralOffset g pat_pos;
             let underscore_cnt = sub32 (sub32 next_offset pat_pos) (literal_len ac_match);
             assert_opt (next_offset \<ge> u32 (pat_pos + literal_len ac_match));
             Some (True, m, Schedule (pi_pattern_id (pattern_index ac_match))
               ((underscore_cnt + curr_cp_index) mod 2 ^ 64) next_offset pat_pos delay_queue) } } } })"

definition AdvanceNextSegment :: "Skeleton \<Rightarrow> nat \<Rightarrow> Matcher \<Rightarrow> bool \<times> Matcher" where
  "AdvanceNextSegment sket min_text_next_start_pos m =
    (let m = m\<lparr>segment_idx := segment_idx m + 1, min_text_start_pos := min_text_next_start_pos\<rparr>
     in if segment_idx m < length (segs sket)
        then (True, m\<lparr>alignments := Reset (LruCapForSegment (segs sket ! segment_idx m)) (alignments m)\<rparr>)
        else (False, m))"

end
