(* ===== verification/Parser.thy ===== *)
theory Parser
  imports Skeleton
begin

text \<open>
  \<open>src/src/include/aho_corasick/parser.h\<close> and \<open>src/src/parser.cc\<close>: \<open>PatternAnalyzer\<close> builds the
  skeletons and feeds the trie, \<open>TextParserIterator\<close> drives automaton and matchers over a text.
  The iterator is passed along explicitly, with the automaton and the skeletons, which it only
  reads.
\<close>

type_synonym analyzer = "Skeleton list"

text \<open>
  One pattern is its memory and its size; a \<open>std::string\<close> has a terminating zero behind its
  last byte.
\<close>

definition c_string :: "bytes \<Rightarrow> bytes" where
  "c_string s = s @ [0]"

text \<open>
  The callback of the constructor.  Without an escape the view is the pattern's own memory;
  otherwise it is the buffer of \<open>lit.len + 1\<close> zeros that \<open>StripEscapes\<close> wrote into.
\<close>

definition insert_literal ::
  "('b, 'm) containers \<Rightarrow> nat \<Rightarrow> tokenizer \<Rightarrow> LiteralSpan \<Rightarrow> 'm automaton \<Rightarrow> 'm automaton option" where
  "insert_literal L idx tok lit ac = do {
     sv \<leftarrow> StripEscapes tok lit;
     let memory = (if tok_has_escape tok then sv @ replicate (len lit + 1 - length sv) 0
                   else drop (start lit) (tok_p tok));
     Insert L memory (length sv)
       \<lparr>pi_pattern_id = idx, pi_start_pos = sub32 (start lit) (escape_prefix_before_start lit)\<rparr> ac }"

fun analyze :: "('b, 'm) containers \<Rightarrow> bytes \<Rightarrow> nat \<Rightarrow> bytes list \<Rightarrow> 'm automaton
    \<Rightarrow> (analyzer \<times> 'm automaton) option" where
  "analyze L escape_str idx [] ac = Some ([], ac)"
| "analyze L escape_str idx (pat # pats) ac = do {
     (sket, ac) \<leftarrow> make_Skeleton (c_string pat) (u32 (length pat)) escape_str (insert_literal L idx) ac;
     (skets, ac) \<leftarrow> analyze L escape_str (idx + 1) pats ac;
     Some (sket # skets, ac) }"

definition PatternAnalyzer :: "('b, 'm) containers \<Rightarrow> bytes list \<Rightarrow> bytes \<Rightarrow> 'm automaton
    \<Rightarrow> (analyzer \<times> 'm automaton) option" where
  "PatternAnalyzer L patterns escape_str ac = analyze L escape_str 0 patterns ac"

subsection \<open>TextParserIterator\<close>

record TextParserIterator =
  it_text :: bytes
  it_text_len :: nat
  text_offset :: nat
  codepoint_idx :: nat
  it_ptr :: ptr
  it_queue :: delayed_queue
  instances :: "Matcher list"
  dirty :: "nat list"
  dirty_list :: "nat list"
  emit_buffer :: "MatchingOutputType list"

fun initial_matchers :: "Skeleton list \<Rightarrow> Matcher list option" where
  "initial_matchers [] = Some []"
| "initial_matchers (sket # skets) = do {
     m \<leftarrow> (if IsEmpty sket \<or> OnlyWildcard sket then Some (make_Matcher 0) else InitializeMatcher sket);
     ms \<leftarrow> initial_matchers skets;
     Some (m # ms) }"

definition make_iterator :: "analyzer \<Rightarrow> 'm automaton \<Rightarrow> TextParserIterator option" where
  "make_iterator build_side ac = do {
     ms \<leftarrow> initial_matchers build_side;
     Some \<lparr>it_text = [], it_text_len = 0, text_offset = 0, codepoint_idx = 0, it_ptr = GetRoot ac,
           it_queue = [], instances = ms, dirty = replicate (length build_side) 0, dirty_list = [],
           emit_buffer = []\<rparr> }"

definition make_text_iterator :: "bytes \<Rightarrow> nat \<Rightarrow> analyzer \<Rightarrow> 'm automaton \<Rightarrow> TextParserIterator option" where
  "make_text_iterator text text_len build_side ac = do {
     it \<leftarrow> make_iterator build_side ac;
     Some (it\<lparr>it_text := text, it_text_len := text_len\<rparr>) }"

fun reset_dirty :: "analyzer \<Rightarrow> nat list \<Rightarrow> TextParserIterator \<Rightarrow> TextParserIterator option" where
  "reset_dirty build_side [] it = Some it"
| "reset_dirty build_side (pid # ids) it = do {
     sket \<leftarrow> rd build_side pid;
     m \<leftarrow> rd (instances it) pid;
     m \<leftarrow> ResetMatcher sket m;
     d \<leftarrow> rd (dirty it) pid;
     reset_dirty build_side ids
       (it\<lparr>instances := (instances it)[pid := m], dirty := (dirty it)[pid := 0]\<rparr>) }"

definition ResetText :: "analyzer \<Rightarrow> 'm automaton \<Rightarrow> bytes \<Rightarrow> nat \<Rightarrow> TextParserIterator
    \<Rightarrow> TextParserIterator option" where
  "ResetText build_side ac next_text next_text_len it = do {
     it \<leftarrow> reset_dirty build_side (dirty_list it) it;
     q \<leftarrow> Clear (it_queue it);
     Some (it\<lparr>dirty_list := [], it_queue := q, it_text := next_text, it_text_len := next_text_len,
              text_offset := 0, codepoint_idx := 0, it_ptr := GetRoot ac\<rparr>) }"

definition CanAdvanceOneCodePoint :: "TextParserIterator \<Rightarrow> bool" where
  "CanAdvanceOneCodePoint it \<longleftrightarrow> text_offset it < it_text_len it"

definition MarkDirty :: "nat \<Rightarrow> TextParserIterator \<Rightarrow> TextParserIterator option" where
  "MarkDirty pid it = do {
     d \<leftarrow> rd (dirty it) pid;
     Some (if d = 0 then it\<lparr>dirty := (dirty it)[pid := 1], dirty_list := dirty_list it @ [pid]\<rparr>
           else it) }"

subsection \<open>One code point through the automaton\<close>

definition AppendResult :: "('b, 'm) containers \<Rightarrow> 'm automaton \<Rightarrow> nat \<Rightarrow> ptr \<Rightarrow> nat
    \<Rightarrow> MatchingOutputType list \<Rightarrow> MatchingOutputType list option" where
  "AppendResult L ac offset leaf cp_len out_result = do {
     assert_opt (isLeaf leaf);
     keyword_id \<leftarrow> getLeaf leaf;
     entry \<leftarrow> cmap_find L (literal_map ac) keyword_id;
     let match_pos = (sub64 offset (entry_literal_len entry) + cp_len) mod 2 ^ 64;
     Some (out_result @ map (\<lambda>v. \<lparr>pattern_index = FromUint v, literal_len = entry_literal_len entry,
                                  text_start_pos = match_pos\<rparr>) (bitmap_elems L (bitmap entry))) }"

text \<open>The first loop: fall back along suffix links until the code point can be visited.\<close>

partial_function (option) fall_back :: "heap \<Rightarrow> bytes \<Rightarrow> ptr \<Rightarrow> ptr \<Rightarrow> (ptr \<times> ptr) option" where [code]:
  "fall_back h cp p target =
    (if p \<noteq> root \<and> target = Null
     then do {
       p \<leftarrow> getSuffixLink h p;
       target \<leftarrow> VisitCodePoint h p cp;
       fall_back h cp p target }
     else Some (p, target))"

definition append_terminal :: "('b, 'm) containers \<Rightarrow> 'm automaton \<Rightarrow> nat \<Rightarrow> ptr \<Rightarrow> nat
    \<Rightarrow> MatchingOutputType list \<Rightarrow> MatchingOutputType list option" where
  "append_terminal L ac offset p cp_len out = do {
     t \<leftarrow> isTerminalNode (trie ac) p;
     if t then do {
       leaf \<leftarrow> getChild (trie ac) p NULL_TERMINATOR;
       AppendResult L ac offset leaf cp_len out }
     else Some out }"

partial_function (option) output_chain :: "('b, 'm) containers \<Rightarrow> 'm automaton \<Rightarrow> nat \<Rightarrow> ptr \<Rightarrow> nat
    \<Rightarrow> MatchingOutputType list \<Rightarrow> MatchingOutputType list option" where [code]:
  "output_chain L ac offset p cp_len out =
    (if p \<noteq> Null
     then do {
       out \<leftarrow> append_terminal L ac offset p cp_len out;
       p \<leftarrow> getOutputLink (trie ac) p;
       output_chain L ac offset p cp_len out }
     else Some out)"

definition no_duplicates :: "MatchingOutputType list \<Rightarrow> bool" where
  "no_duplicates ms \<longleftrightarrow>
    (\<forall>j \<in> set [0..<length ms]. \<forall>i \<in> set [0..<j]. \<not> same_match (ms ! i) (ms ! j))"

text \<open>The result is the iterator and the matches written to the caller's buffer.\<close>

definition ContinueParseText :: "('b, 'm) containers \<Rightarrow> 'm automaton \<Rightarrow> TextParserIterator
    \<Rightarrow> (TextParserIterator \<times> MatchingOutputType list) option" where
  "ContinueParseText L ac it = do {
     r \<leftarrow> readCodePoint (it_text it) (text_offset it) (it_text_len it);
     let cp_len = next_pos r - text_offset it;
     let cp = take cp_len (drop (text_offset it) (it_text it));
     target \<leftarrow> VisitCodePoint (trie ac) (it_ptr it) cp;
     (p, target) \<leftarrow> fall_back (trie ac) cp (it_ptr it) target;
     assert_opt (target \<noteq> Null \<or> p = GetRoot ac);
     (p, out) \<leftarrow> (if target \<noteq> Null
       then do { out \<leftarrow> append_terminal L ac (text_offset it) target cp_len []; Some (target, out) }
       else Some (p, []));
     q \<leftarrow> getOutputLink (trie ac) p;
     out \<leftarrow> output_chain L ac (text_offset it) q cp_len out;
     assert_opt (no_duplicates out);
     Some (it\<lparr>it_ptr := p, text_offset := text_offset it + cp_len,
              codepoint_idx := codepoint_idx it + 1\<rparr>, out) }"

partial_function (option) parse_text_loop :: "('b, 'm) containers \<Rightarrow> 'm automaton \<Rightarrow> TextParserIterator
    \<Rightarrow> MatchingOutputType list \<Rightarrow> (TextParserIterator \<times> MatchingOutputType list) option" where [code]:
  "parse_text_loop L ac it result =
    (if CanAdvanceOneCodePoint it
     then do { (it, per_codepoint) \<leftarrow> ContinueParseText L ac it;
               parse_text_loop L ac it (result @ per_codepoint) }
     else Some (it, result))"

definition ParseText :: "('b, 'm) containers \<Rightarrow> 'm automaton \<Rightarrow> TextParserIterator
    \<Rightarrow> (TextParserIterator \<times> MatchingOutputType list) option" where
  "ParseText L ac it = parse_text_loop L ac it []"

subsection \<open>One code point through the matchers\<close>

definition handle_match :: "analyzer \<Rightarrow> MatchingOutputType \<Rightarrow> TextParserIterator \<times> bool list
    \<Rightarrow> (TextParserIterator \<times> bool list) option" where
  "handle_match build_side match = (\<lambda>(it, result). do {
     let pat_id = pi_pattern_id (pattern_index match);
     done \<leftarrow> rd result pat_id;
     if done then Some (it, result)
     else do {
       sket \<leftarrow> rd build_side pat_id;
       matcher \<leftarrow> rd (instances it) pat_id;
       let seg_idx = segment_idx matcher;
       it \<leftarrow> MarkDirty pat_id it;
       (ok, matcher, q) \<leftarrow> TryMatchingLiteral sket match (codepoint_idx it) (it_queue it)
         (it_text it) (it_text_len it) matcher;
       let it = it\<lparr>instances := (instances it)[pat_id := matcher], it_queue := q\<rparr>;
       if \<not> ok then Some (it, result)
       else do {
         segment \<leftarrow> rd (segs sket) seg_idx;
         at_end \<leftarrow> IsLastLiteral segment (pi_start_pos (pattern_index match));
         if \<not> at_end then Some (it, result)
         else do {
           tail_end \<leftarrow> SegmentTailEnd sket match (segment_idx matcher) (it_text it) (it_text_len it);
           case tail_end of nullopt \<Rightarrow> Some (it, result)
           | Val tail_end \<Rightarrow> do {
               valid \<leftarrow> ValidLastLiteral sket (segment_idx matcher) tail_end (it_text_len it);
               if \<not> valid then Some (it, result)
               else do {
                 let (more, matcher) = AdvanceNextSegment sket tail_end matcher;
                 let it = it\<lparr>instances := (instances it)[pat_id := matcher]\<rparr>;
                 Some (it, if more then result else result[pat_id := True]) } } } } } })"

fun handle_matches :: "analyzer \<Rightarrow> MatchingOutputType list \<Rightarrow> TextParserIterator \<times> bool list
    \<Rightarrow> (TextParserIterator \<times> bool list) option" where
  "handle_matches build_side [] st = Some st"
| "handle_matches build_side (m # ms) st = do {
     st \<leftarrow> handle_match build_side m st;
     handle_matches build_side ms st }"

definition IterateOneCodePoint :: "('b, 'm) containers \<Rightarrow> 'm automaton \<Rightarrow> analyzer
    \<Rightarrow> TextParserIterator \<times> bool list \<Rightarrow> (TextParserIterator \<times> bool list) option" where
  "IterateOneCodePoint L ac build_side = (\<lambda>(it, result). do {
     (it, out) \<leftarrow> ContinueParseText L ac it;
     handle_matches build_side out (it\<lparr>emit_buffer := out\<rparr>, result) })"

partial_function (option) ProcessDelayedMatching :: "TextParserIterator \<Rightarrow> TextParserIterator option" where [code]:
  "ProcessDelayedMatching it =
    (if FrontReady (codepoint_idx it) (it_queue it)
     then do {
       item \<leftarrow> Front (it_queue it);
       m \<leftarrow> rd (instances it) (pattern_id item);
       m \<leftarrow> Matcher_Upsert (sub64 (text_offset it) (next_pattern_pos item)) (prev_pattern_pos item) m;
       q \<leftarrow> Pop (it_queue it);
       ProcessDelayedMatching (it\<lparr>instances := (instances it)[pattern_id item := m], it_queue := q\<rparr>) }
     else Some it)"

end
