(* ===== verification/Like.thy ===== *)
theory Like
  imports Utf8
begin

text \<open>
  The specification the program is measured by: SQL LIKE over code points.  A pattern is a list
  of \<open>token\<close>s, \<open>like\<close> says which texts it matches, \<open>tokens\<close> reads a pattern with an optional
  escape code point.  The last group of lemmas is about positions in encoded strings:
  \<open>enc_len\<close> of a prefix is the byte offset behind it.
\<close>

definition PERCENT_CP :: "32 word" where
  "PERCENT_CP = 0x25"

definition UNDERSCORE_CP :: "32 word" where
  "UNDERSCORE_CP = 0x5F"

datatype token = Chr "32 word" | Any_cp | Any_seq | Never

fun like :: "token list \<Rightarrow> 32 word list \<Rightarrow> bool" where
  "like [] s \<longleftrightarrow> s = []"
| "like (Any_seq # p) [] \<longleftrightarrow> like p []"
| "like (Any_seq # p) (c # s) \<longleftrightarrow> like p (c # s) \<or> like (Any_seq # p) s"
| "like (Any_cp # p) (c # s) \<longleftrightarrow> like p s"
| "like (Chr d # p) (c # s) \<longleftrightarrow> c = d \<and> like p s"
| "like (t # p) s \<longleftrightarrow> False"

text \<open>A pattern as tokens, with the escape code point of \<open>NljRecursiveMatch\<close> (0 for none).\<close>

fun tokens :: "32 word \<Rightarrow> 32 word list \<Rightarrow> token list" where
  "tokens esc [] = []"
| "tokens esc (c # cs) =
    (if esc \<noteq> 0 \<and> c = esc then (case cs of [] \<Rightarrow> [Never] | d # ds \<Rightarrow> Chr d # tokens esc ds)
     else if c = UNDERSCORE_CP then Any_cp # tokens esc cs
     else if c = PERCENT_CP then Any_seq # tokens esc cs
     else Chr c # tokens esc cs)"

lemma like_seq_append: "like p s \<Longrightarrow> like (Any_seq # p) (t @ s)"
proof (induction t)
  case Nil
  then show ?case by (cases s) auto
qed auto

lemma like_seq_iff: "like (Any_seq # p) s \<longleftrightarrow> (\<exists>t u. s = t @ u \<and> like p u)"
proof (induction s)
  case (Cons c s)
  then show ?case by (auto simp: Cons_eq_append_conv)
qed auto

lemma like_seq_seq [simp]: "like (Any_seq # Any_seq # p) s \<longleftrightarrow> like (Any_seq # p) s"
  unfolding like_seq_iff by (metis append_assoc append_Nil)

lemma like_Nil_iff: "like p [] \<longleftrightarrow> set p \<subseteq> {Any_seq}"
proof (induction p)
  case (Cons t p)
  then show ?case by (cases t) auto
qed simp

definition enc_len :: "32 word list \<Rightarrow> nat" where
  "enc_len cs = length (encode cs)"

lemma enc_len_simps [simp]:
  "enc_len [] = 0"
  "enc_len (xs @ ys) = enc_len xs + enc_len ys"
  "enc_len (c # d # xs) = enc_len [c] + enc_len (d # xs)"
  by (simp_all add: enc_len_def)

lemma read_at:
  assumes "valid_cps (p1 @ c # p2)"
  shows "readCodePoint (encode (p1 @ c # p2) @ post) (enc_len p1) (enc_len (p1 @ c # p2)) =
    Some \<lparr>next_pos = enc_len (p1 @ [c]), codePoint = c\<rparr>"
  using read_encoded [of c p2 "encode p1" post] assms by (simp add: enc_len_def)

lemma enc_len_pos: "valid_cps [c] \<Longrightarrow> 0 < enc_len [c]"
  using writeCodePoint_nonempty [of c] by (simp add: enc_len_def)

lemma enc_len_less [simp]: "valid_cps p2 \<Longrightarrow> enc_len p1 < enc_len (p1 @ p2) \<longleftrightarrow> p2 \<noteq> []"
  using encode_eq_Nil [of p2] by (simp add: enc_len_def)

lemma read_stop:
  "readCodePoint (encode p @ [0]) (enc_len p) n = Some \<lparr>next_pos = enc_len p + 1, codePoint = 0\<rparr>"
  using read_zero [of "encode p" "[]"] by (simp add: enc_len_def)

abbreviation cstr :: "32 word list \<Rightarrow> bytes" where
  "cstr p \<equiv> encode p @ [0]"

lemma tokens_percent:
  "esc = 0 \<or> esc \<noteq> PERCENT_CP \<Longrightarrow> tokens esc (PERCENT_CP # cs) = Any_seq # tokens esc cs"
  by (auto simp: PERCENT_CP_def UNDERSCORE_CP_def)

lemma like_percent_run:
  assumes "esc = 0 \<or> esc \<noteq> PERCENT_CP"
  shows "like (tokens esc (PERCENT_CP # takeWhile (\<lambda>c. c = PERCENT_CP) p @ q)) s
    \<longleftrightarrow> like (Any_seq # tokens esc q) s"
proof (induction p)
  case Nil
  show ?case by (simp only: takeWhile.simps append_Nil tokens_percent [OF assms])
next
  case (Cons c p)
  show ?case
  proof (cases "c = PERCENT_CP")
    case True
    from Cons.IH show ?thesis
      by (simp only: True takeWhile.simps simp_thms if_True append_Cons tokens_percent [OF assms] like_seq_seq)
  next
    case False
    then show ?thesis by (simp only: takeWhile.simps if_False append_Nil tokens_percent [OF assms])
  qed
qed

declare tokens.simps(2) [simp del]

lemma like_tokens_Nil:
  "like (tokens esc (c # cs)) [] \<longleftrightarrow>
    \<not> (esc \<noteq> 0 \<and> c = esc) \<and> c = PERCENT_CP \<and> like (tokens esc cs) []"
  unfolding tokens.simps(2) [of esc c cs]
  by (cases cs) (simp_all add: PERCENT_CP_def UNDERSCORE_CP_def split: if_split)

lemma enc_len_ne: "valid_cps (p1 @ c # p2) \<Longrightarrow> enc_len p1 < enc_len (p1 @ c # p2)"
  by (subst enc_len_less) simp_all

definition tok1 :: "32 word \<Rightarrow> token" where
  "tok1 c = (if c = UNDERSCORE_CP then Any_cp else if c = PERCENT_CP then Any_seq else Chr c)"

lemma tokens_plain: "tokens 0 cs = map tok1 cs"
  by (induction cs) (auto simp: tokens.simps tok1_def)

lemma tok1_eq_seq [simp]: "tok1 c = Any_seq \<longleftrightarrow> c = PERCENT_CP"
  by (simp add: tok1_def PERCENT_CP_def UNDERSCORE_CP_def)

lemma like_fixed:
  "Any_seq \<notin> set Q \<Longrightarrow> like (Q @ P) s \<longleftrightarrow>
     length Q \<le> length s \<and> like Q (take (length Q) s) \<and> like P (drop (length Q) s)"
proof (induction Q arbitrary: s)
  case (Cons t Q)
  then show ?case by (cases t; cases s) auto
qed simp

end
