(* ===== verification/SkeletonLaws.thy ===== *)
theory SkeletonLaws
  imports Parser Like
begin

text \<open>
  What \<open>Skeleton\<close> computes: code points are walked as they were encoded, patterns of wildcards only
  are answered as LIKE answers them, folding the segments without literals keeps the language, and
  the navigation between the literals of a segment is by position.
\<close>

declare wildcard_scan.simps [simp del]

subsection \<open>Walking encoded text\<close>

lemma read_enc_at:
  assumes "valid_cps (s1 @ c # s2)"
  shows "readCodePoint (encode (s1 @ c # s2) @ r) (enc_len s1) (enc_len (s1 @ c # s2)) =
    Some \<lparr>next_pos = enc_len s1 + enc_len [c], codePoint = c\<rparr>"
  using read_at [OF assms, of r] by simp

lemma Utf8Advance_eq:
  assumes "valid_cps (s1 @ s2)"
  shows "Utf8Advance (encode (s1 @ s2) @ r) (enc_len (s1 @ s2)) (enc_len s1) n =
    Some (if n \<le> length s2 then Val (enc_len (s1 @ take n s2)) else nullopt)"
  using assms
proof (induction n arbitrary: s1 s2)
  case (Suc n)
  show ?case
  proof (cases s2)
    case (Cons c s3)
    have "enc_len s1 < enc_len (s1 @ c # s3)"
      using enc_len_ne Suc.prems by (simp add: Cons del: enc_len_simps)
    with Suc.IH [of "s1 @ [c]" s3] Suc.prems read_enc_at [of s1 c s3 r] show ?thesis
      by (simp add: Cons del: encode_simps enc_len_simps(3))
  qed simp
qed simp

lemma count_code_points_eq:
  assumes "valid_cps (s1 @ s2)"
  shows "count_code_points (encode (s1 @ s2) @ r) (enc_len (s1 @ s2)) (enc_len s1) n = Some (n + length s2)"
  using assms
proof (induction s2 arbitrary: s1 n)
  case Nil
  then show ?case by (subst count_code_points.simps) simp
next
  case (Cons c s2)
  have l: "enc_len s1 < enc_len (s1 @ c # s2)" using enc_len_ne Cons.prems .
  have r: "readCodePoint (encode (s1 @ c # s2) @ r) (enc_len s1) (enc_len (s1 @ c # s2)) =
    Some \<lparr>next_pos = enc_len (s1 @ [c]), codePoint = c\<rparr>"
    using read_at [of s1 c s2 r] Cons.prems by blast
  have IH: "count_code_points (encode (s1 @ c # s2) @ r) (enc_len (s1 @ c # s2)) (enc_len (s1 @ [c])) (n + 1) =
    Some (n + 1 + length s2)"
    using Cons.IH [of "s1 @ [c]" "n + 1"] Cons.prems by simp
  show ?case using l r IH
    by (subst count_code_points.simps) (simp del: enc_len_simps encode_simps)
qed

subsection \<open>Patterns of wildcards only\<close>

text \<open>The bytes of a pattern of percent signs and underscores, as code points.\<close>

definition wild_cps :: "bytes \<Rightarrow> 32 word list" where
  "wild_cps p = map (\<lambda>b. if b = PERCENTAGE then PERCENT_CP else UNDERSCORE_CP) p"

definition only_wild :: "bytes \<Rightarrow> bool" where
  "only_wild p \<longleftrightarrow> set p \<subseteq> {PERCENTAGE, UNDERSCORE}"

lemma encode_wild_cps: "only_wild p \<Longrightarrow> encode (wild_cps p) = p"
  by (induction p)
     (auto simp: only_wild_def wild_cps_def writeCodePointUnchecked_def PERCENT_CP_def UNDERSCORE_CP_def
        PERCENTAGE_def UNDERSCORE_def)

lemma like_wild:
  "only_wild p \<Longrightarrow> like (tokens 0 (wild_cps p)) s \<longleftrightarrow>
     length s = length (filter (\<lambda>b. b = UNDERSCORE) p) \<or>
     (length s > length (filter (\<lambda>b. b = UNDERSCORE) p) \<and> PERCENTAGE \<in> set p)"
proof (induction p arbitrary: s)
  case Nil
  then show ?case by (simp add: wild_cps_def)
next
  case (Cons b p)
  have pu: "PERCENTAGE \<noteq> UNDERSCORE" by (simp add: PERCENTAGE_def UNDERSCORE_def)
  have ow: "only_wild p" using Cons.prems by (simp add: only_wild_def)
  show ?case
  proof (cases "b = PERCENTAGE")
    case True
    let ?n = "length (filter (\<lambda>b. b = UNDERSCORE) p)"
    have "like (Any_seq # tokens 0 (wild_cps p)) s \<longleftrightarrow> ?n \<le> length s"
    proof
      assume "like (Any_seq # tokens 0 (wild_cps p)) s"
      then obtain t u where "s = t @ u" "like (tokens 0 (wild_cps p)) u" by (auto simp: like_seq_iff)
      then show "?n \<le> length s" using Cons.IH [OF ow] by auto
    next
      assume "?n \<le> length s"
      then have "like (tokens 0 (wild_cps p)) (drop (length s - ?n) s)" using Cons.IH [OF ow] by simp
      then show "like (Any_seq # tokens 0 (wild_cps p)) s"
        unfolding like_seq_iff by (metis append_take_drop_id)
    qed
    then show ?thesis using True pu
      by (auto simp: wild_cps_def tokens_plain tok1_def PERCENT_CP_def UNDERSCORE_CP_def)
  next
    case False
    then have "b = UNDERSCORE" using Cons.prems by (auto simp: only_wild_def)
    then show ?thesis using Cons.IH [OF ow] pu
      by (cases s) (auto simp: wild_cps_def tokens_plain tok1_def PERCENT_CP_def UNDERSCORE_CP_def)
  qed
qed

lemma wildcard_scan_eq:
  assumes "plen \<le> length p" "plen < 2 ^ 32" "i \<le> plen" "u + (plen - i) < 2 ^ 32"
  shows "wildcard_scan (Tokenizer p plen []) p plen i u h =
    Some (u + length (filter (\<lambda>k. p ! k = UNDERSCORE) [i..<plen]),
          h \<or> (\<exists>k \<in> set [i..<plen]. p ! k = PERCENTAGE))"
  using assms
proof (induction "plen - i" arbitrary: i u h)
  case 0
  then show ?case by (subst wildcard_scan.simps) simp
next
  case (Suc n)
  then have i: "i < plen" "[i..<plen] = i # [Suc i..<plen]" by (simp_all add: upt_conv_Cons)
  have e: "IsEscaped (Tokenizer p plen []) i = Some False" by (simp add: IsEscaped_def)
  have pu: "PERCENTAGE \<noteq> UNDERSCORE" by (simp add: PERCENTAGE_def UNDERSCORE_def)
  note IH = Suc.hyps(1) [of "Suc i"]
  show ?case
    using i Suc.hyps(2) Suc.prems pu e IH [of "u + 1" h] IH [of u True] IH [of u h]
    by (subst wildcard_scan.simps) (auto simp: i(2) simp del: upt_Suc)
qed


subsection \<open>What a skeleton stands for\<close>

text \<open>
  Languages of words over any alphabet.  A segment with literals is read as \<open>k\<close> arbitrary
  letters, a word of its literals' language \<open>M\<close> and \<open>l\<close> arbitrary letters; a segment without
  literals only as its underscores.  Between two segments anything may stand.
\<close>

definition cat :: "'a list set \<Rightarrow> 'a list set \<Rightarrow> 'a list set" where
  "cat A B = {a @ b | a b. a \<in> A \<and> b \<in> B}"

definition anyn :: "nat \<Rightarrow> 'a list set" where
  "anyn n = {w. length w = n}"

lemma cat_assoc: "cat (cat A B) C = cat A (cat B C)"
  by (auto simp: cat_def) (metis append_assoc)+

lemma catI: "take n w \<in> A \<Longrightarrow> drop n w \<in> B \<Longrightarrow> w \<in> cat A B"
  unfolding cat_def by (metis (mono_tags, lifting) append_take_drop_id mem_Collect_eq)

lemma cat_anyn: "cat (anyn m) (anyn n) = anyn (m + n)"
proof
  show "anyn (m + n) \<subseteq> cat (anyn m) (anyn n)"
    by (auto simp: anyn_def intro: catI [of m])
qed (auto simp: cat_def anyn_def)

lemma cat_anyn_UNIV:
  "cat (anyn n) UNIV = {w :: 'a list. n \<le> length w}"
  "cat UNIV (anyn n) = {w :: 'a list. n \<le> length w}"
proof -
  have "w \<in> cat (anyn n) UNIV" if "n \<le> length w" for w :: "'a list"
    using that by (auto simp: anyn_def intro: catI [of n])
  moreover have "w \<in> cat UNIV (anyn n)" if "n \<le> length w" for w :: "'a list"
    using that by (auto simp: anyn_def intro: catI [of "length w - n"])
  ultimately show "cat (anyn n) UNIV = {w :: 'a list. n \<le> length w}"
      "cat UNIV (anyn n) = {w :: 'a list. n \<le> length w}"
    by (auto simp: cat_def anyn_def)
qed

lemma cat_UNIV_anyn_UNIV:
  "cat (anyn n) UNIV = cat UNIV (anyn n :: 'a list set)"
  "cat UNIV (cat (anyn n) (cat UNIV B)) = cat UNIV (cat (anyn n) B)"
  "cat (anyn n) (cat UNIV B) = cat UNIV (cat (anyn n) B)"
  "cat UNIV (cat UNIV B) = cat UNIV (B :: 'a list set)"
proof -
  have uu: "cat UNIV UNIV = (UNIV :: 'a list set)" by (auto simp: cat_def)
  show c: "cat (anyn n) UNIV = cat UNIV (anyn n :: 'a list set)" by (simp add: cat_anyn_UNIV)
  show "cat UNIV (cat UNIV B) = cat UNIV (B :: 'a list set)" by (simp add: cat_assoc [symmetric] uu)
  show "cat (anyn n) (cat UNIV B) = cat UNIV (cat (anyn n) (B :: 'a list set))"
    by (simp add: cat_assoc [symmetric] c)
  then show "cat UNIV (cat (anyn n) (cat UNIV B)) = cat UNIV (cat (anyn n) (B :: 'a list set))"
    by (simp add: cat_assoc [symmetric] uu)
qed

definition seg_lang :: "(nat list \<Rightarrow> 'a list set) \<Rightarrow> Segment \<Rightarrow> 'a list set" where
  "seg_lang M g =
    (if HasLiteral g
     then cat (anyn (prefix_underscore_cnt g)) (cat (M (literal_offset g)) (anyn (suffix_underscore_cnt g)))
     else anyn (prefix_underscore_cnt g + suffix_underscore_cnt g))"

fun segs_lang :: "(nat list \<Rightarrow> 'a list set) \<Rightarrow> Segment list \<Rightarrow> 'a list set" where
  "segs_lang M [] = {[]}"
| "segs_lang M [g] = (if has_suffix_percent g then cat (seg_lang M g) UNIV else seg_lang M g)"
| "segs_lang M (g # gs) = cat (seg_lang M g) (cat UNIV (segs_lang M gs))"

definition skeleton_lang :: "(nat list \<Rightarrow> 'a list set) \<Rightarrow> Segment list \<Rightarrow> 'a list set" where
  "skeleton_lang M gs =
    (if gs \<noteq> [] \<and> has_prefix_percent (hd gs) then cat UNIV (segs_lang M gs) else segs_lang M gs)"

text \<open>The flags as the constructor leaves them.\<close>

fun percents_ok :: "Segment list \<Rightarrow> bool" where
  "percents_ok [] = True"
| "percents_ok [g] = True"
| "percents_ok (g # h # gs) \<longleftrightarrow> has_suffix_percent g \<and> has_prefix_percent h \<and> percents_ok (h # gs)"

definition underscores :: "Segment \<Rightarrow> nat" where
  "underscores g = prefix_underscore_cnt g + suffix_underscore_cnt g"

lemma seg_lang_prefix:
  "seg_lang M (g\<lparr>prefix_underscore_cnt := k + prefix_underscore_cnt g, has_prefix_percent := b\<rparr>) =
    cat (anyn k) (seg_lang M g)"
  by (simp add: seg_lang_def HasLiteral_def cat_assoc [symmetric] cat_anyn add.assoc)

lemma seg_lang_suffix:
  "seg_lang M (g\<lparr>suffix_underscore_cnt := suffix_underscore_cnt g + k\<rparr>) = cat (seg_lang M g) (anyn k)"
  by (simp add: seg_lang_def HasLiteral_def cat_assoc cat_anyn add.assoc)

lemma segs_lang_Cons: "gs \<noteq> [] \<Longrightarrow> segs_lang M (g # gs) = cat (seg_lang M g) (cat UNIV (segs_lang M gs))"
  by (cases gs) auto

lemma percents_ok_Cons: "gs \<noteq> [] \<Longrightarrow>
  percents_ok (g # gs) \<longleftrightarrow> has_suffix_percent g \<and> has_prefix_percent (hd gs) \<and> percents_ok gs"
  by (cases gs) auto

lemma segs_lang_prefix:
  "segs_lang M (g\<lparr>prefix_underscore_cnt := k + prefix_underscore_cnt g, has_prefix_percent := b\<rparr> # gs) =
    cat (anyn k) (segs_lang M (g # gs))"
  by (cases gs) (simp_all add: seg_lang_prefix cat_assoc)

lemma fold_front_lang:
  "percents_ok gs \<Longrightarrow> sum_list (map underscores gs) < 2 ^ 32 \<Longrightarrow>
   skeleton_lang M (fold_front gs) = skeleton_lang M gs \<and> percents_ok (fold_front gs) \<and>
   sum_list (map underscores (fold_front gs)) = sum_list (map underscores gs)"
proof (induction gs rule: fold_front.induct)
  case (1 g0 g1 gs)
  show ?case
  proof (cases "HasLiteral g0")
    case False
    let ?k = "underscores g0"
    let ?h = "g1\<lparr>prefix_underscore_cnt := ?k + prefix_underscore_cnt g1, has_prefix_percent := True\<rparr>"
    have w: "u32 (prefix_underscore_cnt g1 + (prefix_underscore_cnt g0 + suffix_underscore_cnt g0)) =
        ?k + prefix_underscore_cnt g1"
      using "1.prems"(2) by (simp add: underscores_def)
    have ok: "percents_ok (?h # gs)" using "1.prems"(1) by (cases gs) auto
    have sum: "sum_list (map underscores (?h # gs)) = sum_list (map underscores (g0 # g1 # gs))"
      by (simp add: underscores_def)
    have "skeleton_lang M (?h # gs) = cat UNIV (cat (anyn ?k) (segs_lang M (g1 # gs)))"
      by (simp add: skeleton_lang_def segs_lang_prefix)
    also have "\<dots> = skeleton_lang M (g0 # g1 # gs)"
      using False by (simp add: skeleton_lang_def seg_lang_def underscores_def cat_UNIV_anyn_UNIV)
    finally show ?thesis using "1.IH" [OF False] False ok sum "1.prems"(2) by (simp add: w)
  qed (use "1.prems" in simp)
qed simp_all

lemma fold_back_lang:
  "percents_ok (g # hs) \<Longrightarrow> sum_list (map underscores (g # hs)) < 2 ^ 32 \<Longrightarrow>
   segs_lang M (fold_back g hs) = segs_lang M (g # hs) \<and>
   has_prefix_percent (hd (fold_back g hs)) = has_prefix_percent g \<and> fold_back g hs \<noteq> []"
proof (induction g hs rule: fold_back.induct)
  case (2 g h hs)
  show ?case
  proof (cases "HasLiteral h")
    case True
    with 2 show ?thesis by (auto simp: segs_lang_Cons)
  next
    case False
    let ?g = "g\<lparr>suffix_underscore_cnt := suffix_underscore_cnt g + underscores h\<rparr>"
    have w: "u32 (suffix_underscore_cnt g + (prefix_underscore_cnt h + suffix_underscore_cnt h)) =
        suffix_underscore_cnt g + underscores h"
      using "2.prems"(2) by (simp add: underscores_def)
    have ok: "percents_ok (?g # hs)" using "2.prems"(1) by (cases hs) auto
    have sum: "sum_list (map underscores (?g # hs)) = sum_list (map underscores (g # h # hs))"
      by (simp add: underscores_def)
    have "segs_lang M (?g # hs) = segs_lang M (g # h # hs)"
      using "2.prems"(1) False
      by (cases hs) (auto simp: seg_lang_suffix seg_lang_def [of M h] underscores_def cat_assoc cat_UNIV_anyn_UNIV)
    then show ?thesis using "2.IH"(2) [OF False] False ok sum "2.prems"(2) by (simp add: w)
  qed
qed simp


lemma cover_max_lang:
  "seg_lang M (cover_max g) = seg_lang M g" "has_suffix_percent (cover_max g) = has_suffix_percent g"
  "has_prefix_percent (cover_max g) = has_prefix_percent g" "HasLiteral (cover_max g) = HasLiteral g"
  by (simp_all add: cover_max_def seg_lang_def HasLiteral_def)

lemma segs_lang_cover: "segs_lang M (map cover_max gs) = segs_lang M gs"
  by (induction M gs rule: segs_lang.induct) (simp_all add: cover_max_lang)

lemma fold_front_head: "length (fold_front gs) \<le> 1 \<or> HasLiteral (hd (fold_front gs))"
  by (induction gs rule: fold_front.induct) auto

lemma fold_front_nonempty: "fold_front gs = [] \<longleftrightarrow> gs = []"
  by (induction gs rule: fold_front.induct) auto

lemma fold_back_literals: "HasLiteral g \<Longrightarrow> \<forall>h \<in> set (fold_back g hs). HasLiteral h"
proof (induction g hs rule: fold_back.induct)
  case (2 g h hs)
  have "HasLiteral (g\<lparr>suffix_underscore_cnt := k\<rparr>)" for k
    using "2.prems" by (simp add: HasLiteral_def)
  then show ?case using 2 by (cases "HasLiteral h") simp_all
qed simp

subsection \<open>Navigation between literals\<close>

definition segment_of :: "nat list \<Rightarrow> Segment" where
  "segment_of xs = fold Segment_Insert xs empty_segment"

lemma segment_of_fields:
  "distinct xs \<Longrightarrow> \<forall>x \<in> set xs. x < 65536 \<Longrightarrow> length xs \<le> 65536 \<Longrightarrow>
   literal_offset (segment_of xs) = xs \<and> lit_off_p (segment_of xs) = zip xs [0..<length xs]"
proof (induction xs rule: rev_induct)
  case (snoc x xs)
  then have "map_of (zip xs [0..<length xs]) x = None" by (subst map_of_zip_is_None) auto
  with snoc show ?case by (simp add: segment_of_def Segment_Insert_def Let_def)
qed (simp add: segment_of_def empty_segment_def)

lemma zip_index: "distinct xs \<Longrightarrow> i < length xs \<Longrightarrow> map_of (zip xs [0..<length xs]) (xs ! i) = Some i"
  by (subst map_of_zip_nth) auto

lemma Fold_lang:
  assumes "percents_ok gs" "sum_list (map underscores gs) < 2 ^ 32"
  shows "skeleton_lang M (FoldLiteralFreeSegments gs) = skeleton_lang M gs \<and>
    (length (FoldLiteralFreeSegments gs) \<le> 1 \<or> (\<forall>g \<in> set (FoldLiteralFreeSegments gs). HasLiteral g)) \<and>
    (FoldLiteralFreeSegments gs = [] \<longleftrightarrow> gs = [])"
proof (cases "length gs < 2")
  case True
  then show ?thesis by (simp add: FoldLiteralFreeSegments_def)
next
  case False
  then obtain g hs where f: "fold_front gs = g # hs"
    using fold_front_nonempty [of gs] by (cases "fold_front gs") auto
  note ff = fold_front_lang [OF assms, of M]
  have ok: "percents_ok (g # hs)" "sum_list (map underscores (g # hs)) < 2 ^ 32"
    using ff assms(2) by (simp_all add: f)
  let ?r = "fold_back g hs"
  have F: "FoldLiteralFreeSegments gs = map cover_max ?r"
    using False by (simp add: FoldLiteralFreeSegments_def f)
  note fb = fold_back_lang [OF ok, of M]
  have "skeleton_lang M (map cover_max ?r) = skeleton_lang M (g # hs)"
    using fb by (simp add: skeleton_lang_def segs_lang_cover hd_map cover_max_lang)
  moreover have "length ?r \<le> 1 \<or> (\<forall>h \<in> set ?r. HasLiteral h)"
  proof (cases "hs = []")
    case False
    then have "HasLiteral g" using fold_front_head [of gs] by (simp add: f)
    then show ?thesis using fold_back_literals by blast
  qed simp
  ultimately show ?thesis using ff fb False by (auto simp: F f cover_max_lang)
qed

lemma SpecialMatchEmptyPattern_eq:
  assumes "only_wild p" "length p < 2 ^ 32" "valid_cps s"
  shows "SpecialMatchEmptyPattern (c_string p) (length p) (c_string (encode s)) (length (encode s)) [] =
      Some (like (tokens 0 (wild_cps p)) s)"
proof -
  have w: "wildcard_scan (Tokenizer (c_string p) (length p) []) (c_string p) (length p) 0 0 False =
    Some (length (filter (\<lambda>k. p ! k = UNDERSCORE) [0..<length p]), \<exists>k < length p. p ! k = PERCENTAGE)"
  proof -
    have 1: "filter (\<lambda>k. c_string p ! k = UNDERSCORE) [0..<length p] = filter (\<lambda>k. p ! k = UNDERSCORE) [0..<length p]"
      by (intro filter_cong) (auto simp: c_string_def nth_append)
    have 2: "(\<exists>k \<in> set [0..<length p]. c_string p ! k = PERCENTAGE) \<longleftrightarrow> (\<exists>k < length p. p ! k = PERCENTAGE)"
      by (auto simp: c_string_def nth_append)
    show ?thesis using wildcard_scan_eq [of "length p" "c_string p" 0 0 False] assms(2)
      unfolding 1 2 by (simp add: c_string_def del: wildcard_scan.simps)
  qed
  have c: "count_code_points (c_string (encode s)) (length (encode s)) 0 0 = Some (length s)"
    using count_code_points_eq [of "[]" s "[0]" 0] assms(3) by (simp add: enc_len_def c_string_def)
  have "length (filter (\<lambda>k. p ! k = UNDERSCORE) [0..<length p]) = length (filter (\<lambda>b. b = UNDERSCORE) p)"
    using filter_map [of "\<lambda>b. b = UNDERSCORE" "(!) p" "[0..<length p]"]
    by (simp only: map_nth length_map comp_def)
  then show ?thesis using like_wild [OF assms(1), of s]
    by (simp add: SpecialMatchEmptyPattern_def w c in_set_conv_nth)
qed

subsection \<open>Properties\<close>

text \<open>Property C15: folding the segments without a literal into their neighbours changes nothing
  about the words the segments stand for, for any meaning \<open>M\<close> of the literals, as long as the
  underscore counts fit 32 bits; afterwards every segment has a literal unless only one is left.\<close>

theorem Fold_preserves_language:
  assumes "percents_ok gs" "sum_list (map underscores gs) < 2 ^ 32"
  shows "skeleton_lang M (FoldLiteralFreeSegments gs) = skeleton_lang M gs \<and>
    (length (FoldLiteralFreeSegments gs) \<le> 1 \<or> (\<forall>g \<in> set (FoldLiteralFreeSegments gs). HasLiteral g)) \<and>
    (FoldLiteralFreeSegments gs = [] \<longleftrightarrow> gs = [])"
  using Fold_lang [OF assms] .

theorem Fold_preserves_language_witness:
  "skeleton_lang (\<lambda>_. {[True]}) (FoldLiteralFreeSegments
      [empty_segment\<lparr>prefix_underscore_cnt := 1, has_suffix_percent := True\<rparr>,
       empty_segment\<lparr>literal_offset := [3], has_prefix_percent := True\<rparr>]) =
    skeleton_lang (\<lambda>_. {[True]})
      [empty_segment\<lparr>prefix_underscore_cnt := 1, has_suffix_percent := True\<rparr>,
       empty_segment\<lparr>literal_offset := [3], has_prefix_percent := True\<rparr>]"
  using Fold_preserves_language [of "[empty_segment\<lparr>prefix_underscore_cnt := 1, has_suffix_percent := True\<rparr>,
       empty_segment\<lparr>literal_offset := [3], has_prefix_percent := True\<rparr>]" "\<lambda>_. {[True]}"]
  by (simp add: empty_segment_def underscores_def)

text \<open>\<open>Utf8Advance\<close> walks exactly \<open>count\<close> code points of an encoded text and fails
  exactly when fewer are left.\<close>

theorem Utf8Advance_walks:
  assumes "valid_cps (s1 @ s2)"
  shows "Utf8Advance (c_string (encode (s1 @ s2))) (length (encode (s1 @ s2))) (length (encode s1)) n =
    Some (if n \<le> length s2 then Val (length (encode (s1 @ take n s2))) else nullopt)"
  using Utf8Advance_eq [OF assms, of "[0]" n] by (simp add: enc_len_def c_string_def)

theorem Utf8Advance_walks_witness:
  "Utf8Advance (c_string (encode ([0x61] @ [0x20AC, 0x62]))) (length (encode ([0x61] @ [0x20AC, 0x62])))
     (length (encode [0x61])) 1 = Some (Val (length (encode ([0x61] @ take 1 [0x20AC, 0x62]))))"
  using Utf8Advance_walks [of "[0x61]" "[0x20AC, 0x62]" 1] by simp

text \<open>Property C16: a pattern of percent signs and underscores only is answered by
  \<open>SpecialMatchEmptyPattern\<close> as LIKE answers it, on every encoded text.\<close>

theorem SpecialMatchEmptyPattern_is_like:
  assumes "only_wild p" "length p < 2 ^ 32" "valid_cps s"
  shows "SpecialMatchEmptyPattern (c_string p) (length p) (c_string (encode s)) (length (encode s)) [] =
      Some (like (tokens 0 (wild_cps p)) s)"
  using SpecialMatchEmptyPattern_eq [OF assms] .

theorem SpecialMatchEmptyPattern_is_like_witness:
  "SpecialMatchEmptyPattern (c_string [0x5F, 0x25]) 2 (c_string (encode [0x20AC])) (length (encode [0x20AC])) [] =
    Some True"
  using SpecialMatchEmptyPattern_is_like [of "[0x5F, 0x25]" "[0x20AC]"]
  by (simp add: only_wild_def PERCENTAGE_def UNDERSCORE_def wild_cps_def tokens.simps PERCENT_CP_def
      UNDERSCORE_CP_def flip: numeral_2_eq_2)

text \<open>Property C38: in a segment built by inserting distinct 16-bit offsets, the constant-time
  queries answer by position in the list: first, last, previous and next literal, and asking for
  the successor of the last literal is an assertion failure.\<close>

theorem Segment_navigation:
  assumes "distinct xs" "\<forall>x \<in> set xs. x < 65536" "length xs \<le> 65536" "i < length xs" "q < 65536"
  shows "IsFirstLiteral (segment_of xs) (xs ! i) = Some (i = 0) \<and>
    IsLastLiteral (segment_of xs) (xs ! i) = Some (i = length xs - 1) \<and>
    IsPreviousLiteral (segment_of xs) q (xs ! i) = Some (0 < i \<and> q = xs ! (i - 1)) \<and>
    GetNextLiteralOffset (segment_of xs) (xs ! i) = (if Suc i < length xs then Some (xs ! Suc i) else None) \<and>
    (Segment_Contain (segment_of xs) q \<longleftrightarrow> q \<in> set xs)"
proof -
  note f = segment_of_fields [OF assms(1,2,3)]
  have u: "u16 (xs ! i) = xs ! i" using assms(2,4) by simp
  have m: "map_of (zip xs [0..<length xs]) (xs ! i) = Some i" by (rule zip_index [OF assms(1,4)])
  have s: "sub64 (length xs) (Suc 0) = length xs - 1" using assms(3,4) by (simp add: sub64_eq)
  have last: "IsLastLiteral (segment_of xs) (xs ! i) = Some (i = length xs - 1)"
    by (simp add: IsLastLiteral_def Segment_Contain_def u m f s)
  have "map_of (zip xs [0..<length xs]) q = None \<longleftrightarrow> q \<notin> set xs" by (rule map_of_zip_is_None) simp
  moreover have "GetNextLiteralOffset (segment_of xs) (xs ! i) =
      (if Suc i < length xs then Some (xs ! Suc i) else None)"
  proof (cases "i = length xs - 1")
    case False
    with assms(4) have "Suc i < length xs" by simp
    with False show ?thesis by (simp only: GetNextLiteralOffset_def last) (simp add: u m f rd_def)
  next
    case True
    then have "(i = length xs - 1) = True" by simp
    then have "IsLastLiteral (segment_of xs) (xs ! i) = Some True" using last by (rule subst)
    moreover have "\<not> Suc i < length xs" using True assms(4) by simp
    ultimately show ?thesis by (simp add: GetNextLiteralOffset_def)
  qed
  ultimately show ?thesis using assms(4,5) f last
    by (auto simp: IsFirstLiteral_def IsPreviousLiteral_def Segment_Contain_def u m s rd_def)
qed

theorem Segment_navigation_witness:
  "GetNextLiteralOffset (segment_of [1, 4, 9]) 4 = Some 9"
  using Segment_navigation [of "[1, 4, 9]" 1 0] by simp

end
