(* ===== verification/Reference.thy ===== *)
theory Reference
  imports Parser Like
begin

text \<open>
  The oracles the repository checks the automaton against: the recursive matcher of
  \<open>src/benchmark/reference.h\<close> and the greedy one of \<open>src/test/matcher.h\<close>.  A position in a
  string is an offset into its memory, with the length passed beside it.
\<close>

subsection \<open>benchmark/reference.h\<close>

text \<open>The loop that skips a run of percent signs, from one already read.\<close>

partial_function (option) skip_percents :: "bytes \<Rightarrow> nat \<Rightarrow> nat \<Rightarrow> readCodePointResult \<Rightarrow> nat option" where [code]:
  "skip_percents pdata plen pidx pchar =
    (if pidx < plen \<and> codePoint pchar = PERCENT_CP
     then do {
       pchar' \<leftarrow> readCodePoint pdata (next_pos pchar) plen;
       skip_percents pdata plen (next_pos pchar) pchar' }
     else Some pidx)"

text \<open>The rest of the pattern after the text is consumed.\<close>

partial_function (option) rest_is_percents :: "32 word \<Rightarrow> bytes \<Rightarrow> nat \<Rightarrow> nat \<Rightarrow> bool \<Rightarrow> bool option" where [code]:
  "rest_is_percents esc pdata plen pidx text_done =
    (if pidx < plen
     then do {
       pchar \<leftarrow> readCodePoint pdata pidx plen;
       if esc \<noteq> 0 \<and> codePoint pchar = esc then Some False
       else if codePoint pchar \<noteq> PERCENT_CP then Some False
       else rest_is_percents esc pdata plen (next_pos pchar) text_done }
     else Some (pidx = plen \<and> text_done))"

text \<open>
  \<open>At\<close>: the head of the main loop.  \<open>Star\<close>: the head of the loop behind a percent sign, with the
  text code point read last.  The recursive call works on the two suffixes.
\<close>

datatype nlj_state = At nat nat | Star nat nat readCodePointResult

partial_function (option) nlj :: "32 word \<Rightarrow> bytes \<Rightarrow> nat \<Rightarrow> bytes \<Rightarrow> nat \<Rightarrow> nlj_state \<Rightarrow> bool option" where [code]:
  "nlj esc sdata slen pdata plen st = (case st of
     At pidx sidx \<Rightarrow>
       if pidx < plen \<and> sidx < slen
       then do {
         pchar \<leftarrow> readCodePoint pdata pidx plen;
         schar \<leftarrow> readCodePoint sdata sidx slen;
         if esc \<noteq> 0 \<and> codePoint pchar = esc
         then (if next_pos pchar \<ge> plen then Some False
               else do {
                 lchar \<leftarrow> readCodePoint pdata (next_pos pchar) plen;
                 if codePoint lchar = codePoint schar
                 then nlj esc sdata slen pdata plen (At (next_pos lchar) (next_pos schar))
                 else Some False })
         else if codePoint pchar = UNDERSCORE_CP
         then nlj esc sdata slen pdata plen (At (next_pos pchar) (next_pos schar))
         else if codePoint pchar = PERCENT_CP
         then do {
           pidx \<leftarrow> skip_percents pdata plen pidx pchar;
           if pidx = plen then Some True
           else nlj esc sdata slen pdata plen (Star pidx sidx schar) }
         else if codePoint pchar = codePoint schar
         then nlj esc sdata slen pdata plen (At (next_pos pchar) (next_pos schar))
         else Some False }
       else rest_is_percents esc pdata plen pidx (sidx = slen)
   | Star pidx sidx schar \<Rightarrow>
       if sidx < slen
       then do {
         m \<leftarrow> nlj esc (drop sidx sdata) (slen - sidx) (drop pidx pdata) (plen - pidx) (At 0 0);
         if m then Some True
         else do {
           schar' \<leftarrow> readCodePoint sdata (next_pos schar) slen;
           nlj esc sdata slen pdata plen (Star pidx (next_pos schar) schar') } }
       else Some False)"

definition NljRecursiveMatch :: "bytes \<Rightarrow> nat \<Rightarrow> bytes \<Rightarrow> nat \<Rightarrow> 32 word \<Rightarrow> bool option" where
  "NljRecursiveMatch sdata slen pdata plen esc = nlj esc sdata slen pdata plen (At 0 0)"

fun NljProbe :: "bytes list \<Rightarrow> bytes \<Rightarrow> 32 word \<Rightarrow> bool list option" where
  "NljProbe [] txt esc = Some []"
| "NljProbe (pat # pats) txt esc = do {
     b \<leftarrow> NljRecursiveMatch (c_string txt) (length txt) (c_string pat) (length pat) esc;
     bs \<leftarrow> NljProbe pats txt esc;
     Some (b # bs) }"

subsection \<open>test/matcher.h\<close>

text \<open>
  \<open>GreedyMatching\<close>; the backtracking positions are \<open>nullopt\<close> where the code has \<open>-1\<close>.
\<close>

partial_function (option) consume_percents :: "bytes \<Rightarrow> nat \<Rightarrow> nat \<Rightarrow> bool option" where [code]:
  "consume_percents pdata plen pidx =
    (if pidx < plen
     then do {
       pchar \<leftarrow> readCodePoint pdata pidx plen;
       if codePoint pchar \<noteq> PERCENT_CP then Some (pidx = plen)
       else consume_percents pdata plen (next_pos pchar) }
     else Some (pidx = plen))"

datatype greedy_outcome = Step nat nat "(nat \<times> nat) option" | Mismatch

definition greedy_step :: "bytes \<Rightarrow> nat \<Rightarrow> bytes \<Rightarrow> nat \<Rightarrow> nat \<Rightarrow> nat \<Rightarrow> (nat \<times> nat) option \<Rightarrow> greedy_outcome option" where
  "greedy_step sdata slen pdata plen sidx pidx star =
    (if pidx < plen
     then do {
       pchar \<leftarrow> readCodePoint pdata pidx plen;
       if codePoint pchar = UNDERSCORE_CP
       then do { schar \<leftarrow> readCodePoint sdata sidx slen;
                 Some (Step (next_pos schar) (next_pos pchar) star) }
       else if codePoint pchar \<noteq> PERCENT_CP
       then do { schar \<leftarrow> readCodePoint sdata sidx slen;
                 Some (if codePoint pchar = codePoint schar
                       then Step (next_pos schar) (next_pos pchar) star else Mismatch) }
       else Some (Step sidx (next_pos pchar) (Some (next_pos pchar, sidx))) }
     else Some Mismatch)"

partial_function (option) greedy_loop :: "bytes \<Rightarrow> nat \<Rightarrow> bytes \<Rightarrow> nat \<Rightarrow> nat \<Rightarrow> nat \<Rightarrow> (nat \<times> nat) option \<Rightarrow> bool option" where [code]:
  "greedy_loop sdata slen pdata plen sidx pidx star =
    (if sidx < slen
     then do {
       r \<leftarrow> greedy_step sdata slen pdata plen sidx pidx star;
       case r of
         Step sidx pidx star \<Rightarrow> greedy_loop sdata slen pdata plen sidx pidx star
       | Mismatch \<Rightarrow> (case star of
           None \<Rightarrow> Some False
         | Some (star_pidx, star_sidx) \<Rightarrow> do {
             schar \<leftarrow> readCodePoint sdata star_sidx slen;
             greedy_loop sdata slen pdata plen (next_pos schar) star_pidx
               (Some (star_pidx, next_pos schar)) }) }
     else consume_percents pdata plen pidx)"

definition GreedyMatching :: "bytes \<Rightarrow> nat \<Rightarrow> bytes \<Rightarrow> nat \<Rightarrow> bool option" where
  "GreedyMatching sdata slen pdata plen = greedy_loop sdata slen pdata plen 0 0 None"

subsection \<open>The recursive matcher on encoded strings\<close>

lemma skip_percents_eq:
  assumes "valid_cps (p1 @ PERCENT_CP # p2)"
  shows "skip_percents (cstr (p1 @ PERCENT_CP # p2)) (enc_len (p1 @ PERCENT_CP # p2)) (enc_len p1)
      \<lparr>next_pos = enc_len (p1 @ [PERCENT_CP]), codePoint = PERCENT_CP\<rparr> =
    Some (enc_len (p1 @ PERCENT_CP # takeWhile (\<lambda>c. c = PERCENT_CP) p2))"
  using assms
proof (induction p2 arbitrary: p1)
  case Nil
  have "readCodePoint (cstr (p1 @ [PERCENT_CP])) (enc_len (p1 @ [PERCENT_CP])) (enc_len (p1 @ [PERCENT_CP]))
    = Some \<lparr>next_pos = enc_len (p1 @ [PERCENT_CP]) + 1, codePoint = 0\<rparr>"
    by (rule read_stop)
  moreover have "enc_len p1 < enc_len (p1 @ [PERCENT_CP])" using Nil by (subst enc_len_less) simp_all
  ultimately show ?case
    by (subst skip_percents.simps, simp add: PERCENT_CP_def)
       (subst skip_percents.simps, simp add: PERCENT_CP_def)
next
  case (Cons c p2)
  have r: "readCodePoint (cstr (p1 @ PERCENT_CP # c # p2)) (enc_len (p1 @ [PERCENT_CP])) (enc_len (p1 @ PERCENT_CP # c # p2))
    = Some \<lparr>next_pos = enc_len (p1 @ [PERCENT_CP, c]), codePoint = c\<rparr>"
    using read_at [of "p1 @ [PERCENT_CP]" c p2 "[0]"] Cons.prems by simp
  have l: "enc_len p1 < enc_len (p1 @ PERCENT_CP # c # p2)"
    using Cons.prems by (subst enc_len_less) simp_all
  show ?case
  proof (cases "c = PERCENT_CP")
    case True
    with Cons.IH [of "p1 @ [PERCENT_CP]"] Cons.prems r l show ?thesis
      by (subst skip_percents.simps) simp
  next
    case False
    with r l show ?thesis
      by (subst skip_percents.simps, simp) (subst skip_percents.simps, simp)
  qed
qed

lemma rest_is_percents_eq:
  assumes "valid_cps (p1 @ p2)"
  shows "rest_is_percents esc (cstr (p1 @ p2)) (enc_len (p1 @ p2)) (enc_len p1) done =
    Some (done \<and> like (tokens esc p2) [])"
  using assms
proof (induction p2 arbitrary: p1)
  case Nil
  then show ?case by (subst rest_is_percents.simps) simp
next
  case (Cons c p2)
  have l: "enc_len p1 < enc_len (p1 @ c # p2)" using Cons.prems by (subst enc_len_less) simp_all
  have r: "readCodePoint (cstr (p1 @ c # p2)) (enc_len (p1)) (enc_len (p1 @ c # p2))
    = Some \<lparr>next_pos = enc_len (p1 @ [c]), codePoint = c\<rparr>"
    using read_at Cons.prems by blast
  have IH: "rest_is_percents esc (cstr (p1 @ c # p2)) (enc_len (p1 @ c # p2)) (enc_len (p1 @ [c])) done =
    Some (done \<and> like (tokens esc p2) [])"
    using Cons.IH [of "p1 @ [c]"] Cons.prems by simp
  show ?case using IH
    by (subst rest_is_percents.simps)
       (auto simp add: l r like_tokens_Nil simp del: enc_len_simps encode_simps)
qed


lemma cstr_suffix: "drop (enc_len s1) (cstr (s1 @ s2)) = cstr s2"
  by (simp add: enc_len_def)

lemma enc_len_diff: "enc_len (s1 @ s2) - enc_len s1 = enc_len s2"
  by simp

text \<open>The head of the main loop, for every split of the two strings.\<close>

lemma nlj_star:
  assumes "valid_cps (p1 @ p2)" "valid_cps (s1 @ s2)" "\<not> like (tokens esc p2) []"
    "\<And>u. length u \<le> length s2 \<Longrightarrow> valid_cps u \<Longrightarrow>
       nlj esc (cstr u) (enc_len u) (cstr p2) (enc_len p2) (At 0 0) = Some (like (tokens esc p2) u)"
    "s2 \<noteq> [] \<Longrightarrow> schar = \<lparr>next_pos = enc_len (s1 @ [hd s2]), codePoint = hd s2\<rparr>"
  shows "nlj esc (cstr (s1 @ s2)) (enc_len (s1 @ s2)) (cstr (p1 @ p2)) (enc_len (p1 @ p2))
      (Star (enc_len p1) (enc_len s1) schar) = Some (like (Any_seq # tokens esc p2) s2)"
  using assms(2,4,5)
proof (induction s2 arbitrary: s1 schar)
  case Nil
  then show ?case using assms(3) by (subst nlj.simps) simp
next
  case (Cons c s2)
  let ?s = "s1 @ c # s2"
  have l: "enc_len s1 < enc_len ?s" using Cons.prems(1) by (subst enc_len_less) simp_all
  have m: "nlj esc (drop (enc_len s1) (cstr ?s)) (enc_len ?s - enc_len s1)
      (drop (enc_len p1) (cstr (p1 @ p2))) (enc_len (p1 @ p2) - enc_len p1) (At 0 0) =
    Some (like (tokens esc p2) (c # s2))"
    unfolding cstr_suffix enc_len_diff by (rule Cons.prems(2)) (use Cons.prems(1) in simp_all)
  have "\<exists>schar'. readCodePoint (cstr ?s) (enc_len (s1 @ [c])) (enc_len ?s) = Some schar' \<and>
    (s2 \<noteq> [] \<longrightarrow> schar' = \<lparr>next_pos = enc_len (s1 @ [c] @ [hd s2]), codePoint = hd s2\<rparr>)"
  proof (cases s2)
    case Nil
    then show ?thesis using read_stop [of "s1 @ [c]"] by simp
  next
    case (Cons d s3)
    then show ?thesis using read_at [of "s1 @ [c]" d s3 "[0]"] Cons.prems(1) by simp
  qed
  then obtain schar' where r: "readCodePoint (cstr ?s) (enc_len (s1 @ [c])) (enc_len ?s) = Some schar'"
    "s2 \<noteq> [] \<Longrightarrow> schar' = \<lparr>next_pos = enc_len ((s1 @ [c]) @ [hd s2]), codePoint = hd s2\<rparr>" by auto
  have IH: "nlj esc (cstr ?s) (enc_len ?s) (cstr (p1 @ p2)) (enc_len (p1 @ p2))
      (Star (enc_len p1) (enc_len (s1 @ [c])) schar') = Some (like (Any_seq # tokens esc p2) s2)"
    using Cons.IH [of "s1 @ [c]" schar'] Cons.prems(1,2) r(2) by simp
  show ?case using l m r(1) IH Cons.prems(3)
    by (subst nlj.simps) (simp del: enc_len_simps encode_simps drop_append)
qed


lemma nlj_at:
  "valid_cps (p1 @ p2) \<Longrightarrow> valid_cps (s1 @ s2) \<Longrightarrow>
   nlj esc (cstr (s1 @ s2)) (enc_len (s1 @ s2)) (cstr (p1 @ p2)) (enc_len (p1 @ p2))
     (At (enc_len p1) (enc_len s1)) = Some (like (tokens esc p2) s2)"
proof (induction "length p2 + length s2" arbitrary: p1 p2 s1 s2 rule: less_induct)
  case less
  let ?p = "p1 @ p2" and ?s = "s1 @ s2"
  let ?at = "\<lambda>pi si. nlj esc (cstr ?s) (enc_len ?s) (cstr ?p) (enc_len ?p) (At pi si)"
  note del = enc_len_simps encode_simps
  show ?case
  proof (cases "p2 = [] \<or> s2 = []")
    case True
    have "enc_len s1 = enc_len ?s \<longleftrightarrow> s2 = []"
      using enc_len_less [of s2 s1] less.prems(2) by auto
    moreover have "p2 = [] \<or> s2 = [] \<Longrightarrow> \<not> (enc_len p1 < enc_len ?p \<and> enc_len s1 < enc_len ?s)"
      using True by auto
    ultimately show ?thesis using True rest_is_percents_eq [OF less.prems(1), of esc "s2 = []"]
      by (subst nlj.simps) (auto simp del: del)
  next
    case False
    then obtain c p3 d s3 where p2: "p2 = c # p3" and s2: "s2 = d # s3" by (meson list.exhaust)
    have lp: "enc_len p1 < enc_len (p1 @ c # p3)" and ls: "enc_len s1 < enc_len (s1 @ d # s3)"
      using less.prems by (auto intro: enc_len_ne simp: p2 s2 simp del: del)
    have rp: "readCodePoint (cstr (p1 @ c # p3)) (enc_len p1) (enc_len (p1 @ c # p3)) =
        Some \<lparr>next_pos = enc_len (p1 @ [c]), codePoint = c\<rparr>"
      and rs: "readCodePoint (cstr (s1 @ d # s3)) (enc_len s1) (enc_len (s1 @ d # s3)) =
        Some \<lparr>next_pos = enc_len (s1 @ [d]), codePoint = d\<rparr>"
      using less.prems read_at by (auto simp: p2 s2 simp del: del)
    have step: "?at (enc_len (p1 @ [c])) (enc_len (s1 @ [d])) = Some (like (tokens esc p3) s3)"
      using less.hyps [of p3 s3 "p1 @ [c]" "s1 @ [d]"] less.prems by (simp add: p2 s2)
    consider (esc) "esc \<noteq> 0 \<and> c = esc" | (under) "\<not> (esc \<noteq> 0 \<and> c = esc)" "c = UNDERSCORE_CP"
      | (percent) "\<not> (esc \<noteq> 0 \<and> c = esc)" "c = PERCENT_CP"
      | (chr) "\<not> (esc \<noteq> 0 \<and> c = esc)" "c \<noteq> UNDERSCORE_CP" "c \<noteq> PERCENT_CP" by blast
    then show ?thesis
    proof cases
      case esc
      show ?thesis
      proof (cases p3)
        case Nil
        with esc lp ls rp rs show ?thesis
          by (subst nlj.simps) (simp add: p2 s2 tokens.simps del: del)
      next
        case (Cons e p4)
        have re: "readCodePoint (cstr (p1 @ c # p3)) (enc_len (p1 @ [c])) (enc_len (p1 @ c # p3)) =
            Some \<lparr>next_pos = enc_len (p1 @ [c, e]), codePoint = e\<rparr>"
          using read_at [of "p1 @ [c]" e p4 "[0]"] less.prems by (simp add: p2 Cons)
        have le: "enc_len (p1 @ [c]) < enc_len (p1 @ c # p3)"
          using enc_len_ne [of "p1 @ [c]" e p4] less.prems by (simp add: p2 Cons)
        have "?at (enc_len (p1 @ [c, e])) (enc_len (s1 @ [d])) = Some (like (tokens esc p4) s3)"
          using less.hyps [of p4 s3 "p1 @ [c, e]" "s1 @ [d]"] less.prems by (simp add: p2 s2 Cons)
        moreover have "tokens esc (c # p3) = Chr e # tokens esc p4"
          using esc by (simp add: tokens.simps Cons)
        ultimately show ?thesis using esc lp ls rp rs re le
          by (subst nlj.simps) (auto simp add: p2 s2 simp del: del)
      qed
    next
      case under
      then have "tokens esc (c # p3) = Any_cp # tokens esc p3" by (auto simp add: tokens.simps)
      with under lp ls rp rs step show ?thesis
        by (subst nlj.simps) (auto simp add: p2 s2 simp del: del)
    next
      case percent
      let ?run = "takeWhile (\<lambda>c. c = PERCENT_CP) p3"
      define rest where "rest = dropWhile (\<lambda>c. c = PERCENT_CP) p3"
      have p3: "p3 = ?run @ rest" by (simp add: rest_def)
      have lk: "like (tokens esc (c # p3)) s = like (Any_seq # tokens esc rest) s" for s
        using like_percent_run [of esc p3 rest s] percent by (subst p3) auto
      have sk: "skip_percents (cstr (p1 @ c # p3)) (enc_len (p1 @ c # p3)) (enc_len p1)
          \<lparr>next_pos = enc_len (p1 @ [c]), codePoint = c\<rparr> = Some (enc_len (p1 @ c # ?run))"
        using skip_percents_eq [of p1 p3] less.prems percent by (simp add: p2 del: del)
      have eq: "(p1 @ c # ?run) @ rest = p1 @ c # p3" by (simp add: rest_def)
      have vr: "valid_cps rest" using less.prems(1) p3 unfolding p2 by (metis valid_cps_simps(2,3))
      have pu: "PERCENT_CP \<noteq> UNDERSCORE_CP" by (simp add: PERCENT_CP_def UNDERSCORE_CP_def)
      have end_iff: "enc_len (p1 @ c # ?run) = enc_len (p1 @ c # p3) \<longleftrightarrow> rest = []"
        using enc_len_less [OF vr, of "p1 @ c # ?run"] unfolding eq by (metis append_Nil2 eq less_irrefl)
      show ?thesis
      proof (cases "rest = []")
        case True
        then have "like (tokens esc (c # p3)) (d # s3)" by (simp add: lk like_seq_iff)
        then show ?thesis using True percent pu lp ls rp rs sk end_iff
          by (subst nlj.simps) (auto simp add: p2 s2 simp del: del)
      next
        case False
        then obtain e r where rest: "rest = e # r" by (cases rest) auto
        then have "e \<noteq> PERCENT_CP"
          using hd_dropWhile [of "\<lambda>c. c = PERCENT_CP" p3] by (simp add: rest_def)
        with rest have nn: "\<not> like (tokens esc rest) []" by (simp add: like_tokens_Nil)
        have IH: "nlj esc (cstr u) (enc_len u) (cstr rest) (enc_len rest) (At 0 0) = Some (like (tokens esc rest) u)"
          if "length u \<le> length s2" "valid_cps u" for u
          using less.hyps [of rest u "[]" "[]"] that vr length_dropWhile_le [of "\<lambda>c. c = PERCENT_CP" p3]
          by (simp add: p2 rest_def)
        have "nlj esc (cstr (s1 @ s2)) (enc_len (s1 @ s2)) (cstr ((p1 @ c # ?run) @ rest)) (enc_len ((p1 @ c # ?run) @ rest))
          (Star (enc_len (p1 @ c # ?run)) (enc_len s1) \<lparr>next_pos = enc_len (s1 @ [d]), codePoint = d\<rparr>) =
          Some (like (Any_seq # tokens esc rest) s2)"
          by (rule nlj_star [OF _ less.prems(2) nn IH]) (use less.prems(1) eq p2 s2 in \<open>simp_all del: del\<close>)
        then show ?thesis using percent pu lp ls rp rs sk end_iff False eq lk [of s2]
          by (subst nlj.simps) (auto simp add: p2 s2 simp del: del)
      qed
    next
      case chr
      then have "tokens esc (c # p3) = Chr c # tokens esc p3" by (auto simp add: tokens.simps)
      with chr lp ls rp rs step show ?thesis
        by (subst nlj.simps) (auto simp add: p2 s2 simp del: del)
    qed
  qed
qed

subsection \<open>The greedy matcher on encoded strings\<close>

text \<open>The state of the loop with the backtracking point as the split of both strings there.\<close>

fun greedy_rel :: "32 word list \<Rightarrow> 32 word list \<Rightarrow> 32 word list \<Rightarrow> 32 word list
    \<Rightarrow> (32 word list \<times> 32 word list \<times> 32 word list \<times> 32 word list) option \<Rightarrow> bool" where
  "greedy_rel p s p2 s2 None \<longleftrightarrow> True"
| "greedy_rel p s p2 s2 (Some (pa, pb, sa, sb)) \<longleftrightarrow>
     p = pa @ pb \<and> s = sa @ sb \<and> (\<exists>q t. pb = q @ p2 \<and> sb = t @ s2 \<and> length q = length t \<and>
       PERCENT_CP \<notin> set q \<and> like (map tok1 q) t)"

fun greedy_value :: "32 word list \<Rightarrow> 32 word list
    \<Rightarrow> (32 word list \<times> 32 word list \<times> 32 word list \<times> 32 word list) option \<Rightarrow> bool" where
  "greedy_value p2 s2 None \<longleftrightarrow> like (map tok1 p2) s2"
| "greedy_value p2 s2 (Some (pa, pb, sa, sb)) \<longleftrightarrow>
     like (map tok1 p2) s2 \<or> (sb \<noteq> [] \<and> like (Any_seq # map tok1 pb) (tl sb))"

fun star_pos :: "(32 word list \<times> 32 word list \<times> 32 word list \<times> 32 word list) option \<Rightarrow> (nat \<times> nat) option" where
  "star_pos None = None"
| "star_pos (Some (pa, pb, sa, sb)) = Some (enc_len pa, enc_len sa)"

fun star_measure :: "nat \<Rightarrow> (32 word list \<times> 32 word list \<times> 32 word list \<times> 32 word list) option \<Rightarrow> nat \<times> nat" where
  "star_measure n None = (Suc n, 0)"
| "star_measure n (Some (pa, pb, sa, sb)) = (length pb, length sb)"

text \<open>Once the text is consumed, no later start of the part behind the star can match.\<close>

lemma greedy_value_end:
  assumes "greedy_rel p s p2 [] st"
  shows "greedy_value p2 [] st \<longleftrightarrow> like (map tok1 p2) []"
proof (cases st)
  case (Some x)
  obtain pa pb sa sb where x: "x = (pa, pb, sa, sb)" by (cases x)
  obtain q where q: "pb = q @ p2" "length q = length sb" "PERCENT_CP \<notin> set q"
    using assms by (auto simp: Some x)
  have "\<not> like (Any_seq # map tok1 pb) (tl sb)" if "sb \<noteq> []"
  proof
    assume "like (Any_seq # map tok1 pb) (tl sb)"
    then obtain t u where "tl sb = t @ u" "like (map tok1 q @ map tok1 p2) u"
      by (auto simp: like_seq_iff q)
    moreover have "Any_seq \<notin> set (map tok1 q)" using q(3) by (auto simp: image_iff eq_commute [of Any_seq])
    ultimately have "length q \<le> length (tl sb)" by (simp add: like_fixed)
    then show False using q(2) that by (cases sb) auto
  qed
  then show ?thesis by (auto simp: Some x)
qed simp

text \<open>A new star makes the old one useless.\<close>

lemma greedy_value_star:
  assumes "greedy_rel p s (PERCENT_CP # p3) s2 st" "s2 \<noteq> []"
  shows "greedy_value (PERCENT_CP # p3) s2 st \<longleftrightarrow> greedy_value p3 s2 (Some (pc, p3, sc, s2))"
proof -
  have new: "greedy_value p3 s2 (Some (pc, p3, sc, s2)) \<longleftrightarrow> like (Any_seq # map tok1 p3) s2"
    using assms(2) by (cases s2) auto
  have pc: "tok1 PERCENT_CP = Any_seq" by simp
  have "like (Any_seq # map tok1 p3) s2"
    if h: "st = Some (pa, pb, sa, sb)" "sb \<noteq> []" "like (Any_seq # map tok1 pb) (tl sb)" for pa pb sa sb
  proof -
    obtain q t where q: "pb = q @ PERCENT_CP # p3" "sb = t @ s2" "length q = length t" "PERCENT_CP \<notin> set q"
      using assms(1) by (auto simp: h(1))
    from h(3) obtain v u where vu: "tl sb = v @ u" "like (map tok1 q @ Any_seq # map tok1 p3) u"
      by (auto simp: like_seq_iff q pc simp del: like.simps)
    have "Any_seq \<notin> set (map tok1 q)" using q(4) by (auto simp: image_iff eq_commute [of Any_seq])
    with vu(2) have u: "like (Any_seq # map tok1 p3) (drop (length q) u)" "length q \<le> length u"
      by (simp_all add: like_fixed del: like.simps)
    have "drop (length q + length v) (tl sb) = drop (length q) u" by (simp add: vu(1))
    moreover have "drop (length q + length v) (tl sb) = drop (length v + 1) s2"
      by (simp add: q(2,3) drop_Suc [symmetric] flip: drop_drop add: add.commute)
    ultimately have "drop (length q) u = drop (length v + 1) s2" by simp
    then have "s2 = take (length v + 1) s2 @ drop (length q) u" by simp
    moreover from u(1) obtain a b where "drop (length q) u = a @ b" "like (map tok1 p3) b"
      by (auto simp: like_seq_iff)
    ultimately show ?thesis unfolding like_seq_iff by (metis append_assoc)
  qed
  then show ?thesis unfolding new
    by (cases st) (auto simp: pc simp del: like.simps split: prod.splits)
qed


lemma greedy_mismatch_value:
  "sb = d # sb' \<Longrightarrow> like (Any_seq # map tok1 pb) sb' \<longleftrightarrow>
     greedy_value pb sb' (Some (pa, pb, sa, sb'))"
  by (cases sb') auto

lemma consume_percents_eq:
  assumes "valid_cps (p1 @ p2)"
  shows "consume_percents (cstr (p1 @ p2)) (enc_len (p1 @ p2)) (enc_len p1) = Some (like (map tok1 p2) [])"
  using assms
proof (induction p2 arbitrary: p1)
  case Nil
  then show ?case by (subst consume_percents.simps) simp
next
  case (Cons c p2)
  have l: "enc_len p1 < enc_len (p1 @ c # p2)" using Cons.prems by (rule enc_len_ne)
  have r: "readCodePoint (cstr (p1 @ c # p2)) (enc_len p1) (enc_len (p1 @ c # p2))
    = Some \<lparr>next_pos = enc_len (p1 @ [c]), codePoint = c\<rparr>"
    using read_at Cons.prems by blast
  have IH: "consume_percents (cstr (p1 @ c # p2)) (enc_len (p1 @ c # p2)) (enc_len (p1 @ [c])) =
    Some (like (map tok1 p2) [])"
    using Cons.IH [of "p1 @ [c]"] Cons.prems by simp
  show ?case using IH l r
    by (subst consume_percents.simps)
       (auto simp: like_Nil_iff simp del: enc_len_simps encode_simps)
qed

lemma greedy_loop_spec:
  assumes "valid_cps p" "valid_cps s"
  shows "p = p1 @ p2 \<Longrightarrow> s = s1 @ s2 \<Longrightarrow> greedy_rel p s p2 s2 st \<Longrightarrow>
    m = (fst (star_measure (length p) st), snd (star_measure (length p) st), length s2) \<Longrightarrow>
    greedy_loop (cstr s) (enc_len s) (cstr p) (enc_len p) (enc_len s1) (enc_len p1) (star_pos st) =
      Some (greedy_value p2 s2 st)"
proof (induction m
    arbitrary: p1 p2 s1 s2 st
    rule: wf_induct_rule [where r = "less_than <*lex*> less_than <*lex*> less_than", OF wf_lex_prod [OF wf_less_than wf_lex_prod [OF wf_less_than wf_less_than]]])
  case (1 m)
  note IH = 1(1) [OF _ _ _ _ refl] and p = 1(2) and s = 1(3) and rel = 1(4) and m = 1(5)
  note del = enc_len_simps encode_simps
  have ls: "enc_len s1 < enc_len s \<longleftrightarrow> s2 \<noteq> []" using assms(2) by (simp add: s del: del)
  have lp: "enc_len p1 < enc_len p \<longleftrightarrow> p2 \<noteq> []" using assms(1) by (simp add: p del: del)
  show ?case
  proof (cases s2)
    case Nil
    then show ?thesis using ls consume_percents_eq [of p1 p2] assms(1) greedy_value_end rel
      by (subst greedy_loop.simps) (simp add: p del: del)
  next
    case (Cons d s3)
    have rs: "readCodePoint (cstr s) (enc_len s1) (enc_len s) =
        Some \<lparr>next_pos = enc_len (s1 @ [d]), codePoint = d\<rparr>"
      using read_at [of s1 d s3] assms(2) by (simp add: s Cons del: del)
    have mismatch: ?thesis
      if h: "greedy_step (cstr s) (enc_len s) (cstr p) (enc_len p) (enc_len s1) (enc_len p1) (star_pos st) = Some Mismatch"
        "\<not> like (map tok1 p2) s2"
    proof (cases st)
      case None
      then show ?thesis using ls h Cons by (subst greedy_loop.simps) simp
    next
      case (Some x)
      obtain pa pb sa sb where x: "x = (pa, pb, sa, sb)" by (cases x)
      from rel obtain t where e: "p = pa @ pb" "s = sa @ sb" "sb = t @ d # s3"
        by (auto simp: Some x Cons)
      have "sb \<noteq> []" using e(3) by simp
      then obtain e' sb' where sb: "sb = e' # sb'" by (meson list.exhaust)
      have sx: "s = sa @ e' # sb'" using e(2) sb by simp
      have r: "readCodePoint (cstr s) (enc_len sa) (enc_len s) =
          Some \<lparr>next_pos = enc_len (sa @ [e']), codePoint = e'\<rparr>"
        using read_at [of sa e' sb'] assms(2) unfolding sx by blast
      let ?st = "Some (pa, pb, sa @ [e'], sb')"
      have "greedy_loop (cstr s) (enc_len s) (cstr p) (enc_len p) (enc_len (sa @ [e'])) (enc_len pa) (star_pos ?st) =
        Some (greedy_value pb sb' ?st)"
        by (rule IH) (auto simp: Some x e(1) sx sb m)
      then show ?thesis using ls h Cons r
        by (subst greedy_loop.simps) (simp add: Some x sb greedy_mismatch_value [OF sb, of pb pa "sa @ [e']"] del: del like.simps)
    qed
    show ?thesis
    proof (cases p2)
      case Nil
      then show ?thesis using lp Cons
        by (intro mismatch) (simp_all add: greedy_step_def)
    next
      case p2: (Cons c p3)
      have rp: "readCodePoint (cstr p) (enc_len p1) (enc_len p) =
          Some \<lparr>next_pos = enc_len (p1 @ [c]), codePoint = c\<rparr>"
        using read_at [of p1 c p3] assms(1) by (simp add: p p2 del: del)
      consider (star) "c = PERCENT_CP" | (ok) "c \<noteq> PERCENT_CP" "c = UNDERSCORE_CP \<or> c = d"
        | (bad) "c \<noteq> PERCENT_CP" "c \<noteq> UNDERSCORE_CP" "c \<noteq> d" by blast
      then show ?thesis
      proof cases
        case star
        let ?st = "Some (p1 @ [c], p3, s1, s2)"
        have "greedy_loop (cstr s) (enc_len s) (cstr p) (enc_len p) (enc_len s1) (enc_len (p1 @ [c])) (star_pos ?st) =
          Some (greedy_value p3 s2 ?st)"
        proof (rule IH)
          show "((fst (star_measure (length p) ?st), snd (star_measure (length p) ?st), length s2), m)
            \<in> less_than <*lex*> less_than <*lex*> less_than"
            using rel by (cases st) (auto simp: p p2 m)
        qed (auto simp: p p2 s)
        moreover have "PERCENT_CP \<noteq> UNDERSCORE_CP" by (simp add: PERCENT_CP_def UNDERSCORE_CP_def)
        ultimately show ?thesis
          using ls lp rp star Cons p2 greedy_value_star [of p s p3 s2 st "p1 @ [c]" s1] rel
          by (subst greedy_loop.simps) (simp add: greedy_step_def del: del greedy_value.simps)
      next
        case ok
        have v: "greedy_value p2 s2 st = greedy_value p3 s3 st"
        proof -
          have "like (map tok1 p2) s2 = like (map tok1 p3) s3"
            using ok unfolding p2 Cons by (cases "c = UNDERSCORE_CP") (simp_all add: tok1_def)
          then show ?thesis by (cases st) (auto simp del: like.simps)
        qed
        have "greedy_loop (cstr s) (enc_len s) (cstr p) (enc_len p) (enc_len (s1 @ [d])) (enc_len (p1 @ [c])) (star_pos st) =
          Some (greedy_value p3 s3 st)"
        proof (rule IH)
          show "greedy_rel p s p3 s3 st"
          proof (cases st)
            case (Some x)
            obtain pa pb sa sb where x: "x = (pa, pb, sa, sb)" by (cases x)
            from rel obtain q t where q: "p = pa @ pb" "s = sa @ sb" "pb = q @ p2" "sb = t @ s2" "length q = length t"
              "PERCENT_CP \<notin> set q" "like (map tok1 q) t" by (auto simp: Some x)
            have "Any_seq \<notin> set (map tok1 q)" using q(6) by (auto simp: image_iff eq_commute [of Any_seq])
            then have "like (map tok1 q @ [tok1 c]) (t @ [d])"
              using q(5,7) ok by (simp add: like_fixed) (auto simp: tok1_def)
            then show ?thesis using q ok
              by (auto simp: Some x p2 Cons intro!: exI [of _ "q @ [c]"] exI [of _ "t @ [d]"])
          qed simp
        qed (auto simp: p p2 s Cons m)
        then show ?thesis using ls lp rp rs ok v
          by (subst greedy_loop.simps) (auto simp: greedy_step_def Cons p2 simp del: del greedy_value.simps)
      next
        case bad
        then show ?thesis using lp rp rs p2 Cons
          by (intro mismatch) (auto simp: greedy_step_def tok1_def simp del: del)
      qed
    qed
  qed
qed

subsection \<open>Properties\<close>

text \<open>Property C12: on every encoded text and pattern, with every escape code point, the recursive
  matcher terminates without a fault and decides LIKE.\<close>

theorem NljRecursiveMatch_is_like:
  assumes "valid_cps p" "valid_cps s"
  shows "NljRecursiveMatch (c_string (encode s)) (length (encode s)) (c_string (encode p))
      (length (encode p)) esc = Some (like (tokens esc p) s)"
  using nlj_at [of "[]" p "[]" s esc] assms
  by (simp add: NljRecursiveMatch_def c_string_def enc_len_def)

theorem NljRecursiveMatch_is_like_witness:
  "NljRecursiveMatch (c_string (encode [0x61, 0x20AC])) (length (encode [0x61, 0x20AC]))
     (c_string (encode [0x25, 0x5F])) (length (encode [0x25, 0x5F])) 0 = Some True"
  using NljRecursiveMatch_is_like [of "[0x25, 0x5F]" "[0x61, 0x20AC]" 0]
  by (simp add: tokens.simps PERCENT_CP_def UNDERSCORE_CP_def)

text \<open>Property C13: the greedy matcher, which remembers only the last percent sign, decides the same
  relation, so both oracles agree on every pattern without an escape.\<close>

theorem GreedyMatching_is_like:
  assumes "valid_cps p" "valid_cps s"
  shows "GreedyMatching (c_string (encode s)) (length (encode s)) (c_string (encode p))
      (length (encode p)) = Some (like (tokens 0 p) s)"
  using greedy_loop_spec [OF assms, of "[]" p "[]" s None] assms
  by (simp add: GreedyMatching_def c_string_def enc_len_def tokens_plain)

theorem GreedyMatching_is_like_witness:
  "GreedyMatching (c_string (encode [0x61, 0x62, 0x61])) (length (encode [0x61, 0x62, 0x61]))
     (c_string (encode [0x25, 0x61])) (length (encode [0x25, 0x61])) = Some True"
  using GreedyMatching_is_like [of "[0x25, 0x61]" "[0x61, 0x62, 0x61]"]
  by (simp add: tokens.simps PERCENT_CP_def UNDERSCORE_CP_def)

end
