(* ===== verification/Probe.thy ===== *)
theory Probe
  imports Reference
begin

text \<open>
  The drivers: \<open>AhoCorasickMultiplePatterns\<close> of \<open>src/test/matcher.h\<close>, \<open>BuildSide\<close> and its probes
  of \<open>src/test/probe.h\<close>, \<open>BuildAc\<close> and \<open>AcProbe\<close> of \<open>src/benchmark/probe.h\<close>.
\<close>

text \<open>The rows of patterns without a literal, shared by all drivers.\<close>

fun ApplyWildcardOnly :: "bytes list \<Rightarrow> analyzer \<Rightarrow> bytes \<Rightarrow> nat \<Rightarrow> bool list option" where
  "ApplyWildcardOnly (pat # pats) (sket # skets) s slen = do {
     r \<leftarrow> (if IsEmpty sket \<or> OnlyWildcard sket
            then SpecialMatchEmptyPattern (c_string pat) (u32 (length pat)) s slen []
            else Some False);
     rs \<leftarrow> ApplyWildcardOnly pats skets s slen;
     Some (r # rs) }"
| "ApplyWildcardOnly [] skets s slen = Some []"
| "ApplyWildcardOnly (pat # pats) [] s slen = None"

partial_function (option) drive_loop :: "('b, 'm) containers \<Rightarrow> 'm automaton \<Rightarrow> analyzer
    \<Rightarrow> TextParserIterator \<times> bool list \<Rightarrow> (TextParserIterator \<times> bool list) option" where [code]:
  "drive_loop L ac build_side st =
    (if CanAdvanceOneCodePoint (fst st)
     then do {
       (it, result) \<leftarrow> IterateOneCodePoint L ac build_side st;
       it \<leftarrow> ProcessDelayedMatching it;
       drive_loop L ac build_side (it, result) }
     else Some st)"

definition AhoCorasickMultiplePatterns ::
  "('b, 'm) containers \<Rightarrow> bytes \<Rightarrow> nat \<Rightarrow> bytes list \<Rightarrow> bytes \<Rightarrow> bool list option" where
  "AhoCorasickMultiplePatterns L s slen patterns escape_str = do {
     (build_side, ac) \<leftarrow> PatternAnalyzer L patterns escape_str (AhoCorasick L);
     ac \<leftarrow> BuildSuffixLink ac;
     result \<leftarrow> ApplyWildcardOnly patterns build_side s slen;
     it \<leftarrow> make_text_iterator s slen build_side ac;
     (it, result) \<leftarrow> drive_loop L ac build_side (it, result);
     Some result }"

subsection \<open>test/probe.h and benchmark/probe.h\<close>

record 'm BuildSide =
  bs_trie :: "'m automaton"
  bs_patterns :: "bytes list"
  bs_analyzer :: analyzer

definition make_BuildSide :: "('b, 'm) containers \<Rightarrow> bytes list \<Rightarrow> 'm BuildSide option" where
  "make_BuildSide L pats = do {
     (an, ac) \<leftarrow> PatternAnalyzer L pats [] (AhoCorasick L);
     ac \<leftarrow> BuildSuffixLink ac;
     Some \<lparr>bs_trie = ac, bs_patterns = pats, bs_analyzer = an\<rparr> }"

definition Drive :: "('b, 'm) containers \<Rightarrow> 'm BuildSide \<Rightarrow> TextParserIterator \<Rightarrow> bytes
    \<Rightarrow> (TextParserIterator \<times> bool list) option" where
  "Drive L b iter txt = do {
     result \<leftarrow> ApplyWildcardOnly (bs_patterns b) (bs_analyzer b) (c_string txt) (length txt);
     iter \<leftarrow> ResetText (bs_analyzer b) (bs_trie b) (c_string txt) (length txt) iter;
     drive_loop L (bs_trie b) (bs_analyzer b) (iter, result) }"

definition ProbeFresh :: "('b, 'm) containers \<Rightarrow> 'm BuildSide \<Rightarrow> bytes \<Rightarrow> bool list option" where
  "ProbeFresh L b txt = do {
     result \<leftarrow> ApplyWildcardOnly (bs_patterns b) (bs_analyzer b) (c_string txt) (length txt);
     iter \<leftarrow> make_text_iterator (c_string txt) (length txt) (bs_analyzer b) (bs_trie b);
     (iter, result) \<leftarrow> drive_loop L (bs_trie b) (bs_analyzer b) (iter, result);
     Some result }"

definition ReferenceProbe :: "bytes list \<Rightarrow> bytes \<Rightarrow> bool list option" where
  "ReferenceProbe patterns txt = NljProbe patterns txt 0"

record 'm AcBuild =
  ab_trie :: "'m automaton"
  ab_build_side :: analyzer
  ab_patterns :: "bytes list"
  ab_wildcard_only :: "nat list"

definition BuildAc :: "('b, 'm) containers \<Rightarrow> bytes list \<Rightarrow> bytes \<Rightarrow> 'm AcBuild option" where
  "BuildAc L patterns esc = do {
     (an, ac) \<leftarrow> PatternAnalyzer L patterns esc (AhoCorasick L);
     ac \<leftarrow> BuildSuffixLink ac;
     Some \<lparr>ab_trie = ac, ab_build_side = an, ab_patterns = patterns,
           ab_wildcard_only = filter (\<lambda>i. IsEmpty (an ! i) \<or> OnlyWildcard (an ! i)) [0..<length patterns]\<rparr> }"

fun wildcard_results :: "bytes list \<Rightarrow> bytes \<Rightarrow> nat \<Rightarrow> nat list \<Rightarrow> bool list \<Rightarrow> bool list option" where
  "wildcard_results pats s slen [] result = Some result"
| "wildcard_results pats s slen (i # is) result = do {
     pat \<leftarrow> rd pats i;
     r \<leftarrow> SpecialMatchEmptyPattern (c_string pat) (u32 (length pat)) s slen [];
     wildcard_results pats s slen is (result[i := r]) }"

definition AcProbe :: "('b, 'm) containers \<Rightarrow> 'm AcBuild \<Rightarrow> TextParserIterator \<Rightarrow> bytes \<Rightarrow> bool list
    \<Rightarrow> (TextParserIterator \<times> bool list) option" where
  "AcProbe L b iter txt result = do {
     result \<leftarrow> wildcard_results (ab_patterns b) (c_string txt) (length txt) (ab_wildcard_only b)
       (replicate (length result) False);
     iter \<leftarrow> ResetText (ab_build_side b) (ab_trie b) (c_string txt) (length txt) iter;
     drive_loop L (ab_trie b) (ab_build_side b) (iter, result) }"

end
