(* ===== verification/Wyhash.thy ===== *)
theory Wyhash
  imports Prelude
begin

text \<open>
  The hash functions of \<open>src/src/include/common/flat_map.h\<close>: the 128-bit multiplication in both
  versions of the source, the mixer, the little-endian reads and wyhash over a byte buffer.
  Reads go through \<open>rd\<close>, so a read outside of the buffer is a fault; the properties show that
  no length leads to one and that the two multiplications agree.
\<close>

subsection \<open>Multiply and mix\<close>

definition mum :: "64 word \<Rightarrow> 64 word \<Rightarrow> 64 word \<times> 64 word" where
  "mum a b = (let r = ucast a * ucast b :: 128 word in (ucast r, ucast (drop_bit 64 r)))"

text \<open>The version for compilers without a 128-bit type.\<close>

definition lo32 :: "64 word \<Rightarrow> 64 word" where
  "lo32 x = ucast (ucast x :: 32 word)"

definition mum_portable :: "64 word \<Rightarrow> 64 word \<Rightarrow> 64 word \<times> 64 word" where
  "mum_portable a b =
    (let ha = drop_bit 32 a; hb = drop_bit 32 b; la = lo32 a; lb = lo32 b;
         rh = ha * hb; rm0 = ha * lb; rm1 = hb * la; rl = la * lb;
         t = rl + push_bit 32 rm0;
         c = of_bool (t < rl);
         lo = t + push_bit 32 rm1;
         c = c + of_bool (lo < t);
         hi = rh + drop_bit 32 rm0 + drop_bit 32 rm1 + c
     in (lo, hi))"

definition mix :: "64 word \<Rightarrow> 64 word \<Rightarrow> 64 word" where
  "mix a b = (let (lo, hi) = mum a b in lo XOR hi)"

subsection \<open>Reads\<close>

fun little_endian :: "bytes \<Rightarrow> 64 word" where
  "little_endian [] = 0"
| "little_endian (b # bs) = ucast b OR push_bit 8 (little_endian bs)"

definition read_le :: "bytes \<Rightarrow> nat \<Rightarrow> nat \<Rightarrow> 64 word option" where
  "read_le buf p k = (if p + k \<le> length buf then Some (little_endian (take k (drop p buf))) else None)"

definition r8 :: "bytes \<Rightarrow> nat \<Rightarrow> 64 word option" where
  "r8 buf p = read_le buf p 8"

definition r4 :: "bytes \<Rightarrow> nat \<Rightarrow> 64 word option" where
  "r4 buf p = read_le buf p 4"

definition r3 :: "bytes \<Rightarrow> nat \<Rightarrow> nat \<Rightarrow> 64 word option" where
  "r3 buf p k = do {
     x \<leftarrow> rd buf p;
     y \<leftarrow> rd buf (p + k div 2);
     assert_opt (k \<ge> 1);
     z \<leftarrow> rd buf (p + (k - 1));
     Some (push_bit 16 (ucast x) OR push_bit 8 (ucast y) OR ucast z) }"

subsection \<open>The hash of a buffer\<close>

definition secret0 :: "64 word" where "secret0 = 0xa0761d6478bd642f"
definition secret1 :: "64 word" where "secret1 = 0xe7037ed1a0b428db"
definition secret2 :: "64 word" where "secret2 = 0x8ebc6af09c88c6e3"
definition secret3 :: "64 word" where "secret3 = 0x589965cc75374cc3"

definition mix_at :: "bytes \<Rightarrow> nat \<Rightarrow> 64 word \<Rightarrow> 64 word \<Rightarrow> 64 word option" where
  "mix_at buf p s seed = do {
     x \<leftarrow> r8 buf p;
     y \<leftarrow> r8 buf (p + 8);
     Some (mix (x XOR s) (y XOR seed)) }"

text \<open>The do-while loop over 48 bytes; it is entered with \<open>i > 48\<close>.\<close>

function hash48 :: "bytes \<Rightarrow> nat \<Rightarrow> nat \<Rightarrow> 64 word \<Rightarrow> 64 word \<Rightarrow> 64 word \<Rightarrow>
    (nat \<times> nat \<times> 64 word \<times> 64 word \<times> 64 word) option" where
  "hash48 buf p i seed see1 see2 = do {
     seed \<leftarrow> mix_at buf p secret1 seed;
     see1 \<leftarrow> mix_at buf (p + 16) secret2 see1;
     see2 \<leftarrow> mix_at buf (p + 32) secret3 see2;
     if i - 48 > 48 then hash48 buf (p + 48) (i - 48) seed see1 see2
     else Some (p + 48, i - 48, seed, see1, see2) }"
  by auto
termination by (relation "measure (\<lambda>(b, p, i, s). i)") auto

function hash16 :: "bytes \<Rightarrow> nat \<Rightarrow> nat \<Rightarrow> 64 word \<Rightarrow> (nat \<times> nat \<times> 64 word) option" where
  "hash16 buf p i seed =
    (if i > 16 then do { seed \<leftarrow> mix_at buf p secret1 seed; hash16 buf (p + 16) (i - 16) seed }
     else Some (p, i, seed))"
  by auto
termination by (relation "measure (\<lambda>(b, p, i, s). i)") auto

text \<open>At most 16 bytes: the pair \<open>(a, b)\<close>.\<close>

definition hash_short :: "bytes \<Rightarrow> nat \<Rightarrow> (64 word \<times> 64 word) option" where
  "hash_short buf n =
    (if n \<ge> 4 then do {
       x \<leftarrow> r4 buf 0;
       y \<leftarrow> r4 buf (n div 8 * 4);
       z \<leftarrow> r4 buf (n - 4);
       assert_opt (n div 8 * 4 \<le> n - 4);
       w \<leftarrow> r4 buf (n - 4 - n div 8 * 4);
       Some (push_bit 32 x OR y, push_bit 32 z OR w) }
     else if n > 0 then do { a \<leftarrow> r3 buf 0 n; Some (a, 0) }
     else Some (0, 0))"

definition hash_long :: "bytes \<Rightarrow> nat \<Rightarrow> (64 word \<times> 64 word \<times> 64 word) option" where
  "hash_long buf n = do {
     (p, i, seed) \<leftarrow>
       (if n > 48 then do {
          (p, i, seed, see1, see2) \<leftarrow> hash48 buf 0 n secret0 secret0 secret0;
          Some (p, i, seed XOR (see1 XOR see2)) }
        else Some (0, n, secret0));
     (p, i, seed) \<leftarrow> hash16 buf p i seed;
     assert_opt (p + i \<ge> 16);
     a \<leftarrow> r8 buf (p + i - 16);
     b \<leftarrow> r8 buf (p + i - 8);
     Some (a, b, seed) }"

definition hash_bytes :: "bytes \<Rightarrow> nat \<Rightarrow> 64 word option" where
  "hash_bytes buf n = do {
     (a, b, seed) \<leftarrow> (if n \<le> 16 then do { (a, b) \<leftarrow> hash_short buf n; Some (a, b, secret0) }
                      else hash_long buf n);
     Some (mix (secret1 XOR word_of_nat n) (mix (a XOR secret1) (b XOR seed))) }"

definition hash64 :: "64 word \<Rightarrow> 64 word" where
  "hash64 x = mix x 0x9E3779B97F4A7C15"

text \<open>\<open>tuple_hash_helper\<close> on the components converted by \<open>to64\<close>.\<close>

definition mix64 :: "64 word \<Rightarrow> 64 word \<Rightarrow> 64 word" where
  "mix64 state v = mix (state + v) 0x9ddfea08eb382d69"

definition calc_hash :: "64 word list \<Rightarrow> 64 word" where
  "calc_hash vs = fold (\<lambda>v h. mix64 h v) vs 0"

subsection \<open>Lemmas\<close>

declare hash48.simps [simp del] hash16.simps [simp del]

lemma mix_at_Some: "p + 16 \<le> length buf \<Longrightarrow> \<exists>y. mix_at buf p s seed = Some y"
  by (simp add: mix_at_def r8_def read_le_def)

lemma hash48_Some:
  "i > 48 \<Longrightarrow> p + i \<le> length buf \<Longrightarrow>
   \<exists>i' s1 s2 s3. hash48 buf p i seed see1 see2 = Some (p + (i - i'), i', s1, s2, s3) \<and> 0 < i' \<and> i' \<le> 48 \<and> i' < i"
proof (induction buf p i seed see1 see2 rule: hash48.induct)
  case (1 buf p i seed see1 see2)
  obtain a where a: "mix_at buf p secret1 seed = Some a"
    using mix_at_Some [of p buf secret1 seed] "1.prems" by auto
  obtain b where b: "mix_at buf (p + 16) secret2 see1 = Some b"
    using mix_at_Some [of "p + 16" buf secret2 see1] "1.prems" by auto
  obtain c where c: "mix_at buf (p + 32) secret3 see2 = Some c"
    using mix_at_Some [of "p + 32" buf secret3 see2] "1.prems" by auto
  show ?case
  proof (cases "i - 48 > 48")
    case True
    from "1.IH" [of a b c] a b c True "1.prems" obtain i' s1 s2 s3 where
      "hash48 buf (p + 48) (i - 48) a b c = Some (p + 48 + (i - 48 - i'), i', s1, s2, s3)" "0 < i'" "i' \<le> 48" "i' < i - 48"
      by auto
    with True a b c show ?thesis by (subst hash48.simps) auto
  next
    case False
    with a b c "1.prems" show ?thesis by (subst hash48.simps) auto
  qed
qed

lemma hash16_Some:
  "0 < i \<Longrightarrow> p + i \<le> length buf \<Longrightarrow>
   \<exists>i' s. hash16 buf p i seed = Some (p + (i - i'), i', s) \<and> 0 < i' \<and> i' \<le> 16 \<and> i' \<le> i"
proof (induction buf p i seed rule: hash16.induct)
  case (1 buf p i seed)
  show ?case
  proof (cases "i > 16")
    case True
    obtain a where a: "mix_at buf p secret1 seed = Some a"
      using mix_at_Some [of p buf secret1 seed] "1.prems" True by auto
    from "1.IH" [of a] a True "1.prems" obtain i' s where
      "hash16 buf (p + 16) (i - 16) a = Some (p + 16 + (i - 16 - i'), i', s)" "0 < i'" "i' \<le> 16" "i' \<le> i - 16"
      by auto
    with True a show ?thesis by (subst hash16.simps) auto
  next
    case False
    with "1.prems" show ?thesis by (subst hash16.simps) auto
  qed
qed

lemma hash_long_Some:
  assumes "n > 16" "n \<le> length buf"
  shows "\<exists>r. hash_long buf n = Some r"
proof -
  have "\<exists>p i seed. (if n > 48 then do {
          (p, i, seed, see1, see2) \<leftarrow> hash48 buf 0 n secret0 secret0 secret0;
          Some (p, i, seed XOR (see1 XOR see2)) }
        else Some (0, n, secret0)) = Some (p, i, seed) \<and> p + i = n \<and> 0 < i"
    using hash48_Some [of n 0 buf secret0 secret0 secret0] assms by auto
  then obtain p i seed where 1: "(if n > 48 then do {
          (p, i, seed, see1, see2) \<leftarrow> hash48 buf 0 n secret0 secret0 secret0;
          Some (p, i, seed XOR (see1 XOR see2)) }
        else Some (0, n, secret0)) = Some (p, i, seed)" "p + i = n" "0 < i"
    by blast
  obtain i' s where 2: "hash16 buf p i seed = Some (p + (i - i'), i', s)" "0 < i'" "i' \<le> i"
    using hash16_Some [of i p buf seed] 1(2,3) assms by auto
  have s: "p + (i - i') + i' = n" using 1(2) 2(3) by simp
  show ?thesis unfolding hash_long_def 1(1) using 2 s assms
    by (simp add: r8_def read_le_def)
qed

subsection \<open>The two multiplications\<close>

lemma unat_add_carry: "unat (x :: 64 word) + unat y = unat (x + y) + 2 ^ 64 * of_bool (x + y < x)"
proof -
  have "unat x < 2 ^ 64" "unat y < 2 ^ 64" using unsigned_less [of x] unsigned_less [of y] by simp_all
  then show ?thesis
    by (cases "unat x + unat y < 2 ^ 64") (simp_all add: word_less_nat_alt unat_word_ariths le_mod_geq)
qed

lemma lo32_eq: "lo32 x = take_bit 32 x"
  by (rule bit_word_eqI) (simp add: lo32_def bit_simps)

lemma unat_split32: "unat (x :: 64 word) = 2 ^ 32 * unat (drop_bit 32 x) + unat (lo32 x)"
  and lo32_less: "unat (lo32 x) < 2 ^ 32" and hi32_less: "unat (drop_bit 32 x) < 2 ^ 32"
proof -
  have l: "unat (lo32 x) = unat x mod 2 ^ 32"
    by (simp add: lo32_eq unsigned_take_bit_eq) (simp add: take_bit_eq_mod)
  have h: "unat (drop_bit 32 x) = unat x div 2 ^ 32"
    using unsigned_drop_bit_eq [of 32 x, where ?'a = nat] unsigned_less [of x, where ?'a = nat]
    by (simp only: drop_bit_eq_div) (simp add: take_bit_eq_mod less_mult_imp_div_less)
  show "unat x = 2 ^ 32 * unat (drop_bit 32 x) + unat (lo32 x)" "unat (lo32 x) < 2 ^ 32"
    "unat (drop_bit 32 x) < 2 ^ 32"
    using unsigned_less [of x, where ?'a = nat] by (simp_all add: l h less_mult_imp_div_less)
qed

lemma mult_less_64: "(a :: nat) < 2 ^ 32 \<Longrightarrow> b < 2 ^ 32 \<Longrightarrow> a * b < 2 ^ 64"
  using mult_strict_mono [of a "2 ^ 32" b "2 ^ 32"] by simp

lemma unat_mult_small: "unat (x :: 64 word) < 2 ^ 32 \<Longrightarrow> unat y < 2 ^ 32 \<Longrightarrow> unat (x * y) = unat x * unat y"
  using mult_less_64 [of "unat x" "unat y"] by (simp add: unat_word_ariths)

lemma unat_push32: "unat (push_bit 32 (x :: 64 word)) = 2 ^ 32 * unat (lo32 x)"
  by (simp add: lo32_eq unsigned_push_bit_eq unsigned_take_bit_eq take_bit_push_bit del: push_bit_numeral)
     (simp add: push_bit_eq_mult)

lemma mum_portable_nat:
  "unat a * unat b = 2 ^ 64 * unat (snd (mum_portable a b)) + unat (fst (mum_portable a b))"
proof -
  define ha where "ha = drop_bit 32 a" define hb where "hb = drop_bit 32 b"
  define la where "la = lo32 a" define lb where "lb = lo32 b"
  define rm0 where "rm0 = ha * lb" define rm1 where "rm1 = hb * la"
  define rl where "rl = la * lb"
  define t where "t = rl + push_bit 32 rm0"
  define lo where "lo = t + push_bit 32 rm1"
  define c where "c = (of_bool (t < rl) + of_bool (lo < t) :: nat)"
  have p: "unat (ha * hb) = unat ha * unat hb" "unat rm0 = unat ha * unat lb" "unat rm1 = unat hb * unat la"
    "unat rl = unat la * unat lb"
    unfolding rm0_def rm1_def rl_def ha_def hb_def la_def lb_def
    by (rule unat_mult_small, rule hi32_less lo32_less, rule hi32_less lo32_less)+
  have ab: "unat a = 2 ^ 32 * unat ha + unat la" "unat b = 2 ^ 32 * unat hb + unat lb"
    unfolding ha_def la_def hb_def lb_def by (rule unat_split32)+
  have ct: "unat rl + 2 ^ 32 * unat (lo32 rm0) = unat t + 2 ^ 64 * of_bool (t < rl)"
    using unat_add_carry [of rl "push_bit 32 rm0"] by (simp add: t_def unat_push32)
  have cl: "unat t + 2 ^ 32 * unat (lo32 rm1) = unat lo + 2 ^ 64 * of_bool (lo < t)"
    using unat_add_carry [of t "push_bit 32 rm1"] by (simp add: lo_def unat_push32)
  have m: "unat ha * unat lb = 2 ^ 32 * unat (drop_bit 32 rm0) + unat (lo32 rm0)"
    "unat hb * unat la = 2 ^ 32 * unat (drop_bit 32 rm1) + unat (lo32 rm1)"
    using unat_split32 [of rm0] unat_split32 [of rm1] p by simp_all
  define h where "h = unat ha * unat hb + unat (drop_bit 32 rm0) + unat (drop_bit 32 rm1) + c"
  have "unat a * unat b = 2 ^ 64 * (unat ha * unat hb) + 2 ^ 32 * (unat ha * unat lb)
      + 2 ^ 32 * (unat hb * unat la) + unat la * unat lb"
    unfolding ab by (simp add: algebra_simps)
  also have "\<dots> = 2 ^ 64 * h + unat lo"
    using ct cl unfolding m p(4) [symmetric] h_def c_def by (simp add: algebra_simps)
  finally have e: "unat a * unat b = 2 ^ 64 * h + unat lo" .
  moreover have "unat a * unat b < 2 ^ 64 * 2 ^ 64"
    using unsigned_less [of a] unsigned_less [of b] by (intro mult_strict_mono) simp_all
  ultimately have "h < 2 ^ 64" by simp
  moreover have "snd (mum_portable a b) = word_of_nat h"
    by (simp add: mum_portable_def Let_def h_def c_def p(1) [symmetric] t_def [symmetric]
        ha_def [symmetric] hb_def [symmetric] la_def [symmetric] lb_def [symmetric]
        rm0_def [symmetric] rm1_def [symmetric] rl_def [symmetric] lo_def [symmetric])
  moreover have "fst (mum_portable a b) = lo"
    by (simp add: mum_portable_def Let_def lo_def t_def rm0_def rm1_def rl_def ha_def hb_def la_def lb_def)
  ultimately show ?thesis using e by (simp add: unat_of_nat)
qed

lemma mum_nat: "unat (fst (mum a b)) = unat a * unat b mod 2 ^ 64"
  "unat (snd (mum a b)) = unat a * unat b div 2 ^ 64"
proof -
  let ?r = "ucast a * ucast b :: 128 word"
  have "unat a * unat b < 2 ^ 64 * 2 ^ 64"
    using unsigned_less [of a] unsigned_less [of b] by (intro mult_strict_mono) simp_all
  moreover have "unat (ucast x :: 128 word) = unat x" for x :: "64 word"
    using unsigned_less [of x, where ?'a = nat] by (simp add: unsigned_ucast_eq take_bit_nat_eq_self)
  ultimately have u: "unat ?r = unat a * unat b"
    by (simp add: unat_word_ariths)
  show "unat (fst (mum a b)) = unat a * unat b mod 2 ^ 64"
    by (simp only: mum_def Let_def fst_conv unsigned_ucast_eq u) (simp add: take_bit_eq_mod)
  show "unat (snd (mum a b)) = unat a * unat b div 2 ^ 64"
    using \<open>unat a * unat b < 2 ^ 64 * 2 ^ 64\<close>
    by (simp only: mum_def Let_def snd_conv unsigned_ucast_eq unsigned_drop_bit_eq u)
       (simp add: drop_bit_eq_div take_bit_eq_mod less_mult_imp_div_less)
qed

subsection \<open>Properties\<close>

text \<open>The multiplication by 32-bit limbs with explicit carries, for compilers without
  a 128-bit type, computes the same two words as the 128-bit product, for all operands.\<close>

theorem mum_portable_correct: "mum_portable a b = mum a b"
proof -
  have l: "unat (fst (mum_portable a b)) < 2 ^ 64" using unsigned_less [of "fst (mum_portable a b)"] by simp
  have "unat (fst (mum_portable a b)) = unat a * unat b mod 2 ^ 64"
    "unat (snd (mum_portable a b)) = unat a * unat b div 2 ^ 64"
    using l unfolding mum_portable_nat by simp_all
  then show ?thesis by (simp add: prod_eq_iff word_unat_eq_iff mum_nat)
qed

text \<open>Property C36: hashing a buffer reads inside the buffer for every length, short or long, and
  always returns.\<close>

theorem hash_bytes_safe:
  assumes "n \<le> length buf"
  shows "\<exists>h. hash_bytes buf n = Some h"
proof (cases "n \<le> 16")
  case True
  then have "n div 8 * 4 \<le> n - 4" "n div 8 * 4 + 4 \<le> n" if "4 \<le> n" using that by arith+
  moreover have "n div 2 < length buf \<and> n - 1 < length buf \<and> 0 < length buf" if "0 < n" using that assms by linarith
  ultimately show ?thesis using True assms
    by (cases "4 \<le> n"; cases "n = 0")
       (auto simp: hash_bytes_def hash_short_def r4_def r3_def read_le_def)
next
  case False
  with hash_long_Some [of n buf] assms show ?thesis by (auto simp: hash_bytes_def)
qed

theorem hash_bytes_safe_witness: "\<exists>h. hash_bytes [0x61, 0x62, 0x63] 3 = Some h"
  using hash_bytes_safe [of 3 "[0x61, 0x62, 0x63]"] by simp

end
