(* ===== verification/FlatMap.thy ===== *)
theory FlatMap
  imports Wyhash
begin

text \<open>
  \<open>src/src/include/common/flat_map.h\<close>: \<open>detail::table\<close> as a map with the standard bucket type, the
  hash table behind \<open>lrucache.h\<close> and \<open>skeleton.h\<close>.  The pairs stand densely in \<open>m_values\<close>; a bucket
  holds an index into them and, in one number, the distance to the key's home bucket (in units of
  256) and the low byte of the hash.  An iterator is an index into \<open>m_values\<close>, \<open>end()\<close> its length.
  \<open>m_equal\<close> is equality.  \<open>m_max_load_factor\<close> is in units of \<open>2^-24\<close>, in which every float from one
  half to two is exact and its product with a power of two too, so that no rounding is left to model.
  The overflow and the key-not-found exceptions are faults.
\<close>

record bucket =
  m_dist_and_fingerprint :: nat
  m_value_idx :: nat

definition no_bucket :: bucket where
  "no_bucket = \<lparr>m_dist_and_fingerprint = 0, m_value_idx = 0\<rparr>"

definition bucket_dist_inc :: nat where
  "bucket_dist_inc = 2 ^ 8"

definition fingerprint_mask :: nat where
  "fingerprint_mask = bucket_dist_inc - 1"

text \<open>What the template asks of the type \<open>Hash\<close>: avalanching with 32 or 64 bits, or neither.\<close>

datatype 'k hasher =
    Avalanching32 "'k \<Rightarrow> 32 word"
  | Avalanching64 "'k \<Rightarrow> 64 word"
  | Plain "'k \<Rightarrow> 64 word"

record ('k, 'v) table =
  m_values :: "('k \<times> 'v) list"
  m_buckets :: "bucket list"
  m_max_bucket_capacity :: nat
  m_max_load_factor :: nat
  m_hash :: "'k hasher"
  m_shifts :: nat

definition initial_shifts :: nat where
  "initial_shifts = 64 - 2"

text \<open>\<open>0.8F\<close>\<close>

definition default_max_load_factor :: nat where
  "default_max_load_factor = 13421773"

definition max_table_size :: nat where
  "max_table_size = 2 ^ (4 * 8)"

definition max_bucket_count :: nat where
  "max_bucket_count = max_table_size"

subsection \<open>Helpers\<close>

definition bucket_count :: "('k, 'v) table \<Rightarrow> nat" where
  "bucket_count t = length (m_buckets t)"

definition next_idx :: "bucket list \<Rightarrow> nat \<Rightarrow> nat" where
  "next_idx bs i = (if u32 (i + 1) = length bs then 0 else u32 (i + 1))"

definition dist_inc :: "nat \<Rightarrow> nat" where
  "dist_inc x = u32 (x + bucket_dist_inc)"

definition dist_dec :: "nat \<Rightarrow> nat" where
  "dist_dec x = sub32 x bucket_dist_inc"

definition mixed_hash :: "('k, 'v) table \<Rightarrow> 'k \<Rightarrow> 64 word" where
  "mixed_hash t key = (case m_hash t of
     Avalanching32 h \<Rightarrow> ucast (h key) * 0x9ddfea08eb382d69
   | Avalanching64 h \<Rightarrow> h key
   | Plain h \<Rightarrow> hash64 (h key))"

definition dist_and_fingerprint_from_hash :: "64 word \<Rightarrow> nat" where
  "dist_and_fingerprint_from_hash h = (bucket_dist_inc OR (u32 (unat h) AND fingerprint_mask))"

definition bucket_idx_from_hash :: "nat \<Rightarrow> 64 word \<Rightarrow> nat" where
  "bucket_idx_from_hash shifts h = u32 (unat (drop_bit shifts h))"

definition home_idx :: "('k, 'v) table \<Rightarrow> 'k \<Rightarrow> nat" where
  "home_idx t key = bucket_idx_from_hash (m_shifts t) (mixed_hash t key)"

definition home_dist :: "('k, 'v) table \<Rightarrow> 'k \<Rightarrow> nat" where
  "home_dist t key = dist_and_fingerprint_from_hash (mixed_hash t key)"

text \<open>\<open>m_equal(key, get_key(m_values[i]))\<close>\<close>

definition key_at :: "('k \<times> 'v) list \<Rightarrow> nat \<Rightarrow> 'k option" where
  "key_at vs i = do { kv \<leftarrow> rd vs i; Some (fst kv) }"

partial_function (option) next_while_less_loop :: "bucket list \<Rightarrow> nat \<Rightarrow> nat \<Rightarrow> (nat \<times> nat) option" where [code]:
  "next_while_less_loop bs df i = do {
     b \<leftarrow> rd bs i;
     if df < m_dist_and_fingerprint b then next_while_less_loop bs (dist_inc df) (next_idx bs i)
     else Some (df, i) }"

definition next_while_less :: "('k, 'v) table \<Rightarrow> 'k \<Rightarrow> (nat \<times> nat) option" where
  "next_while_less t key = next_while_less_loop (m_buckets t) (home_dist t key) (home_idx t key)"

partial_function (option) place_and_shift_up :: "bucket list \<Rightarrow> bucket \<Rightarrow> nat \<Rightarrow> bucket list option" where [code]:
  "place_and_shift_up bs b place = do {
     old \<leftarrow> rd bs place;
     if 0 \<noteq> m_dist_and_fingerprint old
     then place_and_shift_up (bs[place := b])
       (old\<lparr>m_dist_and_fingerprint := dist_inc (m_dist_and_fingerprint old)\<rparr>) (next_idx bs place)
     else Some (bs[place := b]) }"

partial_function (option) shift_down_loop :: "bucket list \<Rightarrow> nat \<Rightarrow> nat \<Rightarrow> bucket list option" where [code]:
  "shift_down_loop bs i j = do {
     b \<leftarrow> rd bs j;
     if m_dist_and_fingerprint b \<ge> bucket_dist_inc * 2
     then shift_down_loop
       (bs[i := b\<lparr>m_dist_and_fingerprint := dist_dec (m_dist_and_fingerprint b)\<rparr>]) j (next_idx bs j)
     else Some (bs[i := no_bucket]) }"

definition erase_and_shift_down :: "bucket list \<Rightarrow> nat \<Rightarrow> bucket list option" where
  "erase_and_shift_down bs i = shift_down_loop bs i (next_idx bs i)"

subsection \<open>Sizes\<close>

text \<open>A shift by 64 is undefined.\<close>

definition calc_num_buckets :: "nat \<Rightarrow> nat option" where
  "calc_num_buckets shifts =
    (if shifts = 0 then None else Some (min max_bucket_count (2 ^ (64 - shifts))))"

definition load_cap :: "nat \<Rightarrow> nat \<Rightarrow> nat" where
  "load_cap mlf n = n * mlf div 2 ^ 24"

fun shifts_loop :: "nat \<Rightarrow> nat \<Rightarrow> nat \<Rightarrow> nat option" where
  "shifts_loop mlf s 0 = Some 0"
| "shifts_loop mlf s (Suc n) = do {
     nb \<leftarrow> calc_num_buckets (Suc n);
     if load_cap mlf nb < s then shifts_loop mlf s n else Some (Suc n) }"

definition calc_shifts_for_size :: "('k, 'v) table \<Rightarrow> nat \<Rightarrow> nat option" where
  "calc_shifts_for_size t s = shifts_loop (m_max_load_factor t) s initial_shifts"

definition is_full :: "('k, 'v) table \<Rightarrow> bool" where
  "is_full t \<longleftrightarrow> length (m_values t) > m_max_bucket_capacity t"

definition deallocate_buckets :: "('k, 'v) table \<Rightarrow> ('k, 'v) table" where
  "deallocate_buckets t = t\<lparr>m_buckets := [], m_max_bucket_capacity := 0\<rparr>"

definition allocate_buckets_from_shift :: "('k, 'v) table \<Rightarrow> ('k, 'v) table option" where
  "allocate_buckets_from_shift t = do {
     n \<leftarrow> calc_num_buckets (m_shifts t);
     Some (t\<lparr>m_buckets := take n (m_buckets t) @ replicate (n - length (m_buckets t)) no_bucket,
       m_max_bucket_capacity :=
         (if n = max_bucket_count then max_bucket_count else u32 (load_cap (m_max_load_factor t) n))\<rparr>) }"

definition clear_buckets :: "('k, 'v) table \<Rightarrow> ('k, 'v) table" where
  "clear_buckets t = t\<lparr>m_buckets := replicate (bucket_count t) no_bucket\<rparr>"

text \<open>One step of the loop over the values, and the loop.\<close>

definition fill_value :: "('k, 'v) table \<Rightarrow> nat \<Rightarrow> ('k, 'v) table option" where
  "fill_value t value_idx = do {
     key \<leftarrow> key_at (m_values t) value_idx;
     (df, i) \<leftarrow> next_while_less t key;
     bs \<leftarrow> place_and_shift_up (m_buckets t)
       \<lparr>m_dist_and_fingerprint = df, m_value_idx = value_idx\<rparr> i;
     Some (t\<lparr>m_buckets := bs\<rparr>) }"

fun fill_loop :: "nat list \<Rightarrow> ('k, 'v) table \<Rightarrow> ('k, 'v) table option" where
  "fill_loop [] t = Some t"
| "fill_loop (value_idx # is) t = do { t \<leftarrow> fill_value t value_idx; fill_loop is t }"

definition clear_and_fill_buckets_from_values :: "('k, 'v) table \<Rightarrow> ('k, 'v) table option" where
  "clear_and_fill_buckets_from_values t = fill_loop [0..<u32 (length (m_values t))] (clear_buckets t)"

definition increase_size :: "('k, 'v) table \<Rightarrow> ('k, 'v) table option" where
  "increase_size t = do {
     assert_opt (m_max_bucket_capacity t \<noteq> max_bucket_count);
     assert_opt (m_shifts t > 0);
     t \<leftarrow> allocate_buckets_from_shift (deallocate_buckets (t\<lparr>m_shifts := m_shifts t - 1\<rparr>));
     clear_and_fill_buckets_from_values t }"

subsection \<open>Erasing\<close>

partial_function (option) find_value_idx :: "bucket list \<Rightarrow> nat \<Rightarrow> nat \<Rightarrow> nat option" where [code]:
  "find_value_idx bs idx i = do {
     b \<leftarrow> rd bs i;
     if idx \<noteq> m_value_idx b then find_value_idx bs idx (next_idx bs i) else Some i }"

text \<open>The erased pair is what the callback \<open>handle_erased_value\<close> is given.\<close>

definition do_erase :: "('k, 'v) table \<Rightarrow> nat \<Rightarrow> (('k \<times> 'v) \<times> ('k, 'v) table) option" where
  "do_erase t i = do {
     b \<leftarrow> rd (m_buckets t) i;
     let r = m_value_idx b;
     bs \<leftarrow> erase_and_shift_down (m_buckets t) i;
     erased \<leftarrow> rd (m_values t) r;
     let back = length (m_values t) - 1;
     if r \<noteq> back
     then do {
       kv \<leftarrow> rd (m_values t) back;
       j \<leftarrow> find_value_idx bs (u32 back) (home_idx t (fst kv));
       c \<leftarrow> rd bs j;
       Some (erased, t\<lparr>m_values := butlast ((m_values t)[r := kv]), m_buckets := bs[j := c\<lparr>m_value_idx := r\<rparr>]\<rparr>) }
     else Some (erased, t\<lparr>m_values := butlast (m_values t), m_buckets := bs\<rparr>) }"

partial_function (option) erase_key_loop ::
  "bucket list \<Rightarrow> ('k \<times> 'v) list \<Rightarrow> 'k \<Rightarrow> nat \<Rightarrow> nat \<Rightarrow> (nat \<times> nat) option" where [code]:
  "erase_key_loop bs vs key df i = do {
     b \<leftarrow> rd bs i;
     if df = m_dist_and_fingerprint b
     then do {
       k \<leftarrow> key_at vs (m_value_idx b);
       if key \<noteq> k then erase_key_loop bs vs key (dist_inc df) (next_idx bs i) else Some (df, i) }
     else Some (df, i) }"

definition do_erase_key :: "('k, 'v) table \<Rightarrow> 'k \<Rightarrow> (('k \<times> 'v) option \<times> ('k, 'v) table) option" where
  "do_erase_key t key =
    (if m_values t = [] then Some (None, t)
     else do {
       (df, i) \<leftarrow> next_while_less t key;
       (df, i) \<leftarrow> erase_key_loop (m_buckets t) (m_values t) key df i;
       b \<leftarrow> rd (m_buckets t) i;
       if df \<noteq> m_dist_and_fingerprint b then Some (None, t)
       else do { (kv, t) \<leftarrow> do_erase t i; Some (Some kv, t) } })"

text \<open>\<open>erase(Key)\<close> returns how many were erased, \<open>extract(Key)\<close> the pair.\<close>

definition erase_key :: "('k, 'v) table \<Rightarrow> 'k \<Rightarrow> (nat \<times> ('k, 'v) table) option" where
  "erase_key t key = do { (kv, t) \<leftarrow> do_erase_key t key; Some (if kv = None then 0 else 1, t) }"

definition extract_key :: "('k, 'v) table \<Rightarrow> 'k \<Rightarrow> (('k \<times> 'v) option \<times> ('k, 'v) table) option" where
  "extract_key t key = do_erase_key t key"

definition bucket_of_iterator :: "('k, 'v) table \<Rightarrow> nat \<Rightarrow> nat option" where
  "bucket_of_iterator t it = do {
     kv \<leftarrow> rd (m_values t) it;
     find_value_idx (m_buckets t) (u32 it) (home_idx t (fst kv)) }"

definition erase_it :: "('k, 'v) table \<Rightarrow> nat \<Rightarrow> (nat \<times> ('k, 'v) table) option" where
  "erase_it t it = do {
     i \<leftarrow> bucket_of_iterator t it;
     (kv, t) \<leftarrow> do_erase t i;
     Some (u32 it, t) }"

definition extract_it :: "('k, 'v) table \<Rightarrow> nat \<Rightarrow> (('k \<times> 'v) \<times> ('k, 'v) table) option" where
  "extract_it t it = do { i \<leftarrow> bucket_of_iterator t it; do_erase t i }"

text \<open>Both loops of the range version erase at the indices of a list.\<close>

fun erase_all :: "nat list \<Rightarrow> ('k, 'v) table \<Rightarrow> ('k, 'v) table option" where
  "erase_all [] t = Some t"
| "erase_all (idx # is) t = do { (_, t) \<leftarrow> erase_it t idx; erase_all is t }"

definition erase_range :: "('k, 'v) table \<Rightarrow> nat \<Rightarrow> nat \<Rightarrow> (nat \<times> ('k, 'v) table) option" where
  "erase_range t first last_it =
    (let mid = first + min (last_it - first) (length (m_values t) - last_it)
     in do {
       t \<leftarrow> erase_all [first..<mid] t;
       t \<leftarrow> erase_all (rev [mid..<last_it]) t;
       Some (first, t) })"

text \<open>\<open>std::erase_if\<close>, from the back to the front.\<close>

fun erase_if_loop :: "nat \<Rightarrow> ('k \<times> 'v \<Rightarrow> bool) \<Rightarrow> ('k, 'v) table \<Rightarrow> ('k, 'v) table option" where
  "erase_if_loop 0 pred t = Some t"
| "erase_if_loop (Suc idx) pred t = do {
     kv \<leftarrow> rd (m_values t) idx;
     t \<leftarrow> (if pred kv then do { (_, t) \<leftarrow> erase_it t idx; Some t } else Some t);
     erase_if_loop idx pred t }"

definition erase_if :: "('k, 'v) table \<Rightarrow> ('k \<times> 'v \<Rightarrow> bool) \<Rightarrow> (nat \<times> ('k, 'v) table) option" where
  "erase_if t pred = do {
     let old_size = length (m_values t);
     t \<leftarrow> erase_if_loop old_size pred t;
     Some (old_size - length (m_values t), t) }"

subsection \<open>Inserting\<close>

definition do_place_element ::
  "('k, 'v) table \<Rightarrow> nat \<Rightarrow> nat \<Rightarrow> 'k \<Rightarrow> 'v \<Rightarrow> (nat \<times> bool \<times> ('k, 'v) table) option" where
  "do_place_element t df i key v = do {
     let t = t\<lparr>m_values := m_values t @ [(key, v)]\<rparr>;
     let value_idx = u32 (length (m_values t) - 1);
     t \<leftarrow> (if is_full t then increase_size t
           else do {
             bs \<leftarrow> place_and_shift_up (m_buckets t)
               \<lparr>m_dist_and_fingerprint = df, m_value_idx = value_idx\<rparr> i;
             Some (t\<lparr>m_buckets := bs\<rparr>) });
     Some (value_idx, True, t) }"

partial_function (option) try_emplace_loop ::
  "('k, 'v) table \<Rightarrow> 'k \<Rightarrow> 'v \<Rightarrow> nat \<Rightarrow> nat \<Rightarrow> (nat \<times> bool \<times> ('k, 'v) table) option" where [code]:
  "try_emplace_loop t key v df i = do {
     b \<leftarrow> rd (m_buckets t) i;
     if df = m_dist_and_fingerprint b
     then do {
       k \<leftarrow> key_at (m_values t) (m_value_idx b);
       if key = k then Some (m_value_idx b, False, t)
       else try_emplace_loop t key v (dist_inc df) (next_idx (m_buckets t) i) }
     else if df > m_dist_and_fingerprint b then do_place_element t df i key v
     else try_emplace_loop t key v (dist_inc df) (next_idx (m_buckets t) i) }"

definition do_try_emplace :: "('k, 'v) table \<Rightarrow> 'k \<Rightarrow> 'v \<Rightarrow> (nat \<times> bool \<times> ('k, 'v) table) option" where
  "do_try_emplace t key v = try_emplace_loop t key v (home_dist t key) (home_idx t key)"

definition do_insert_or_assign :: "('k, 'v) table \<Rightarrow> 'k \<Rightarrow> 'v \<Rightarrow> (nat \<times> bool \<times> ('k, 'v) table) option" where
  "do_insert_or_assign t key v = do {
     (it, inserted, t) \<leftarrow> do_try_emplace t key v;
     if \<not> inserted
     then do {
       kv \<leftarrow> rd (m_values t) it;
       Some (it, inserted, t\<lparr>m_values := (m_values t)[it := (fst kv, v)]\<rparr>) }
     else Some (it, inserted, t) }"

text \<open>
  The loop of \<open>emplace\<close> and of \<open>replace_key\<close>: \<open>Inl\<close> the value index of the key when it is found,
  \<open>Inr\<close> the place it belongs to.
\<close>

partial_function (option) emplace_loop ::
  "bucket list \<Rightarrow> ('k \<times> 'v) list \<Rightarrow> 'k \<Rightarrow> nat \<Rightarrow> nat \<Rightarrow> (nat + nat \<times> nat) option" where [code]:
  "emplace_loop bs vs key df i = do {
     b \<leftarrow> rd bs i;
     if df \<le> m_dist_and_fingerprint b
     then if df = m_dist_and_fingerprint b
       then do {
         k \<leftarrow> key_at vs (m_value_idx b);
         if key = k then Some (Inl (m_value_idx b))
         else emplace_loop bs vs key (dist_inc df) (next_idx bs i) }
       else emplace_loop bs vs key (dist_inc df) (next_idx bs i)
     else Some (Inr (df, i)) }"

definition table_emplace :: "('k, 'v) table \<Rightarrow> 'k \<Rightarrow> 'v \<Rightarrow> (nat \<times> bool \<times> ('k, 'v) table) option" where
  "table_emplace t key v = do {
     let t' = t\<lparr>m_values := m_values t @ [(key, v)]\<rparr>;
     found \<leftarrow> emplace_loop (m_buckets t') (m_values t') key (home_dist t' key) (home_idx t' key);
     case found of
       Inl value_idx \<Rightarrow> Some (value_idx, False, t'\<lparr>m_values := butlast (m_values t')\<rparr>)
     | Inr (df, i) \<Rightarrow> do {
         let value_idx = u32 (length (m_values t') - 1);
         t' \<leftarrow> (if is_full t' then increase_size t'
               else do {
                 bs \<leftarrow> place_and_shift_up (m_buckets t')
                   \<lparr>m_dist_and_fingerprint = df, m_value_idx = value_idx\<rparr> i;
                 Some (t'\<lparr>m_buckets := bs\<rparr>) });
         Some (value_idx, True, t') } }"

fun insert_range :: "('k \<times> 'v) list \<Rightarrow> ('k, 'v) table \<Rightarrow> ('k, 'v) table option" where
  "insert_range [] t = Some t"
| "insert_range (kv # kvs) t = do { (_, _, t) \<leftarrow> table_emplace t (fst kv) (snd kv); insert_range kvs t }"

text \<open>\<open>operator[]\<close> with \<open>d\<close> the default-constructed value: the iterator whose value it refers to.\<close>

definition subscript :: "('k, 'v) table \<Rightarrow> 'v \<Rightarrow> 'k \<Rightarrow> (nat \<times> ('k, 'v) table) option" where
  "subscript t d key = do { (it, _, t) \<leftarrow> do_try_emplace t key d; Some (it, t) }"

definition replace_key :: "('k, 'v) table \<Rightarrow> nat \<Rightarrow> 'k \<Rightarrow> (nat \<times> bool \<times> ('k, 'v) table) option" where
  "replace_key t it new_key = do {
     found \<leftarrow> emplace_loop (m_buckets t) (m_values t) new_key (home_dist t new_key) (home_idx t new_key);
     case found of
       Inl value_idx \<Rightarrow> Some (value_idx, False, t)
     | Inr _ \<Rightarrow> do {
         kv \<leftarrow> rd (m_values t) it;
         let old_home = home_idx t (fst kv);
         let vs = (m_values t)[it := (new_key, snd kv)];
         let value_idx = u32 it;
         i \<leftarrow> find_value_idx (m_buckets t) value_idx old_home;
         bs \<leftarrow> erase_and_shift_down (m_buckets t) i;
         (df, i) \<leftarrow> next_while_less_loop bs (home_dist t new_key) (home_idx t new_key);
         bs \<leftarrow> place_and_shift_up bs \<lparr>m_dist_and_fingerprint = df, m_value_idx = value_idx\<rparr> i;
         Some (it, True, t\<lparr>m_values := vs, m_buckets := bs\<rparr>) } }"

subsection \<open>Looking up\<close>

partial_function (option) find_loop ::
  "bucket list \<Rightarrow> ('k \<times> 'v) list \<Rightarrow> 'k \<Rightarrow> nat \<Rightarrow> nat \<Rightarrow> nat option" where [code]:
  "find_loop bs vs key df i = do {
     b \<leftarrow> rd bs i;
     if df = m_dist_and_fingerprint b
     then do {
       k \<leftarrow> key_at vs (m_value_idx b);
       if key = k then Some (m_value_idx b) else find_loop bs vs key (dist_inc df) (next_idx bs i) }
     else if df > m_dist_and_fingerprint b then Some (length vs)
     else find_loop bs vs key (dist_inc df) (next_idx bs i) }"

text \<open>One of the two checks before the loop: the value index when bucket \<open>i\<close> holds the key.\<close>

definition find_unrolled :: "bucket list \<Rightarrow> ('k \<times> 'v) list \<Rightarrow> 'k \<Rightarrow> nat \<Rightarrow> nat \<Rightarrow> nat optional option" where
  "find_unrolled bs vs key df i = do {
     b \<leftarrow> rd bs i;
     if df = m_dist_and_fingerprint b
     then do {
       k \<leftarrow> key_at vs (m_value_idx b);
       Some (if key = k then Val (m_value_idx b) else nullopt) }
     else Some nullopt }"

definition do_find :: "('k, 'v) table \<Rightarrow> 'k \<Rightarrow> nat option" where
  "do_find t key =
    (if m_values t = [] then Some (length (m_values t))
     else do {
       let bs = m_buckets t;
       let df = home_dist t key;
       let i = home_idx t key;
       r \<leftarrow> find_unrolled bs (m_values t) key df i;
       case r of Val it \<Rightarrow> Some it
       | nullopt \<Rightarrow> do {
           let df = dist_inc df;
           let i = next_idx bs i;
           r \<leftarrow> find_unrolled bs (m_values t) key df i;
           case r of Val it \<Rightarrow> Some it
           | nullopt \<Rightarrow> find_loop bs (m_values t) key (dist_inc df) (next_idx bs i) } })"

definition do_at :: "('k, 'v) table \<Rightarrow> 'k \<Rightarrow> 'v option" where
  "do_at t key = do {
     it \<leftarrow> do_find t key;
     assert_opt (it \<noteq> length (m_values t));
     kv \<leftarrow> rd (m_values t) it;
     Some (snd kv) }"

definition table_contains :: "('k, 'v) table \<Rightarrow> 'k \<Rightarrow> bool option" where
  "table_contains t key = do { it \<leftarrow> do_find t key; Some (it \<noteq> length (m_values t)) }"

definition count_key :: "('k, 'v) table \<Rightarrow> 'k \<Rightarrow> nat option" where
  "count_key t key = do { it \<leftarrow> do_find t key; Some (if it = length (m_values t) then 0 else 1) }"

definition equal_range :: "('k, 'v) table \<Rightarrow> 'k \<Rightarrow> (nat \<times> nat) option" where
  "equal_range t key = do {
     it \<leftarrow> do_find t key;
     Some (it, if it = length (m_values t) then length (m_values t) else it + 1) }"

fun equal_loop :: "('k \<times> 'v) list \<Rightarrow> ('k, 'v) table \<Rightarrow> bool option" where
  "equal_loop [] a = Some True"
| "equal_loop (kv # kvs) a = do {
     it \<leftarrow> do_find a (fst kv);
     if it = length (m_values a) then Some False
     else do {
       kw \<leftarrow> rd (m_values a) it;
       if snd kv \<noteq> snd kw then Some False else equal_loop kvs a } }"

definition table_equal :: "('k, 'v) table \<Rightarrow> ('k, 'v) table \<Rightarrow> bool option" where
  "table_equal a b =
    (if length (m_values a) \<noteq> length (m_values b) then Some False else equal_loop (m_values b) a)"

subsection \<open>Construction, copies and the hash policy\<close>

definition table_clear :: "('k, 'v) table \<Rightarrow> ('k, 'v) table" where
  "table_clear t = clear_buckets (t\<lparr>m_values := []\<rparr>)"

definition reserve :: "('k, 'v) table \<Rightarrow> nat \<Rightarrow> ('k, 'v) table option" where
  "reserve t capa = do {
     let capa = min capa max_table_size;
     shifts \<leftarrow> calc_shifts_for_size t (max capa (length (m_values t)));
     if bucket_count t = 0 \<or> shifts < m_shifts t
     then do {
       t \<leftarrow> allocate_buckets_from_shift (deallocate_buckets (t\<lparr>m_shifts := shifts\<rparr>));
       clear_and_fill_buckets_from_values t }
     else Some t }"

definition rehash :: "('k, 'v) table \<Rightarrow> nat \<Rightarrow> ('k, 'v) table option" where
  "rehash t n = do {
     let n = min n max_table_size;
     shifts \<leftarrow> calc_shifts_for_size t (max n (length (m_values t)));
     if shifts \<noteq> m_shifts t
     then do {
       t \<leftarrow> allocate_buckets_from_shift (deallocate_buckets (t\<lparr>m_shifts := shifts\<rparr>));
       clear_and_fill_buckets_from_values t }
     else Some t }"

definition set_max_load_factor :: "('k, 'v) table \<Rightarrow> nat \<Rightarrow> ('k, 'v) table" where
  "set_max_load_factor t ml =
    (let t = t\<lparr>m_max_load_factor := ml\<rparr>
     in if bucket_count t \<noteq> max_bucket_count
        then t\<lparr>m_max_bucket_capacity := u32 (load_cap ml (bucket_count t))\<rparr> else t)"

definition unallocated :: "'k hasher \<Rightarrow> ('k, 'v) table" where
  "unallocated h = \<lparr>m_values = [], m_buckets = [], m_max_bucket_capacity = 0,
     m_max_load_factor = default_max_load_factor, m_hash = h, m_shifts = initial_shifts\<rparr>"

definition make_table :: "'k hasher \<Rightarrow> nat \<Rightarrow> ('k, 'v) table option" where
  "make_table h n =
    (if 0 \<noteq> n then reserve (unallocated h) n
     else do { t \<leftarrow> allocate_buckets_from_shift (unallocated h); Some (clear_buckets t) })"

definition make_table_range :: "'k hasher \<Rightarrow> nat \<Rightarrow> ('k \<times> 'v) list \<Rightarrow> ('k, 'v) table option" where
  "make_table_range h n kvs = do { t \<leftarrow> make_table h n; insert_range kvs t }"

definition copy_buckets :: "('k, 'v) table \<Rightarrow> ('k, 'v) table \<Rightarrow> ('k, 'v) table option" where
  "copy_buckets other t =
    (if m_values t = []
     then do { t \<leftarrow> allocate_buckets_from_shift t; Some (clear_buckets t) }
     else do {
       t \<leftarrow> allocate_buckets_from_shift (t\<lparr>m_shifts := m_shifts other\<rparr>);
       assert_opt (bucket_count t \<le> bucket_count other);
       Some (t\<lparr>m_buckets := take (bucket_count t) (m_buckets other)\<rparr>) })"

definition copy_table :: "('k, 'v) table \<Rightarrow> ('k, 'v) table option" where
  "copy_table other = copy_buckets other
     ((unallocated (m_hash other))\<lparr>m_values := m_values other, m_max_load_factor := m_max_load_factor other\<rparr>)"

definition copy_assign :: "('k, 'v) table \<Rightarrow> ('k, 'v) table \<Rightarrow> ('k, 'v) table option" where
  "copy_assign t other = copy_buckets other
     ((deallocate_buckets t)\<lparr>m_values := m_values other, m_max_load_factor := m_max_load_factor other,
        m_hash := m_hash other, m_shifts := initial_shifts\<rparr>)"

text \<open>
  Move assignment with equal allocators; \<open>h0\<close> is the default-constructed \<open>Hash\<close> left behind.  The
  results are this table and the other one.
\<close>

definition move_assign ::
  "'k hasher \<Rightarrow> ('k, 'v) table \<Rightarrow> ('k, 'v) table \<Rightarrow> (('k, 'v) table \<times> ('k, 'v) table) option" where
  "move_assign h0 t other = do {
     let t = t\<lparr>m_values := m_values other, m_buckets := m_buckets other,
               m_max_bucket_capacity := m_max_bucket_capacity other, m_shifts := m_shifts other,
               m_max_load_factor := m_max_load_factor other, m_hash := m_hash other\<rparr>;
     other \<leftarrow> allocate_buckets_from_shift (unallocated h0);
     Some (t, clear_buckets other) }"

text \<open>\<open>replace\<close>: the given values with duplicate keys replaced by values from the back.\<close>

partial_function (option) replace_probe ::
  "bucket list \<Rightarrow> ('k \<times> 'v) list \<Rightarrow> 'k \<Rightarrow> nat \<Rightarrow> nat \<Rightarrow> (bool \<times> nat \<times> nat) option" where [code]:
  "replace_probe bs vs key df i = do {
     b \<leftarrow> rd bs i;
     if df > m_dist_and_fingerprint b then Some (False, df, i)
     else if df = m_dist_and_fingerprint b
     then do {
       k \<leftarrow> key_at vs (m_value_idx b);
       if key = k then Some (True, df, i)
       else replace_probe bs vs key (dist_inc df) (next_idx bs i) }
     else replace_probe bs vs key (dist_inc df) (next_idx bs i) }"

partial_function (option) replace_loop :: "nat \<Rightarrow> ('k, 'v) table \<Rightarrow> ('k, 'v) table option" where [code]:
  "replace_loop value_idx t =
    (if value_idx = u32 (length (m_values t)) then Some t
     else do {
       key \<leftarrow> key_at (m_values t) value_idx;
       (key_found, df, i) \<leftarrow>
         replace_probe (m_buckets t) (m_values t) key (home_dist t key) (home_idx t key);
       if key_found
       then replace_loop value_idx (t\<lparr>m_values :=
         butlast (if value_idx \<noteq> u32 (length (m_values t) - 1)
                  then (m_values t)[value_idx := last (m_values t)] else m_values t)\<rparr>)
       else do {
         bs \<leftarrow> place_and_shift_up (m_buckets t)
           \<lparr>m_dist_and_fingerprint = df, m_value_idx = value_idx\<rparr> i;
         replace_loop (u32 (value_idx + 1)) (t\<lparr>m_buckets := bs\<rparr>) } })"

definition replace_values :: "('k, 'v) table \<Rightarrow> ('k \<times> 'v) list \<Rightarrow> ('k, 'v) table option" where
  "replace_values t container = do {
     assert_opt (length container \<le> max_table_size);
     shifts \<leftarrow> calc_shifts_for_size t (length container);
     t \<leftarrow> (if bucket_count t = 0 \<or> shifts < m_shifts t
           then allocate_buckets_from_shift (deallocate_buckets (t\<lparr>m_shifts := shifts\<rparr>)) else Some t);
     replace_loop 0 ((clear_buckets t)\<lparr>m_values := container\<rparr>) }"

end
