(* ===== verification/RobinHood.thy ===== *)
theory RobinHood
  imports FlatMap "HOL-Library.Multiset"
begin

text \<open>
  Lemmas about the bucket array of \<open>flat_map.h\<close>.  The array is a ring: rotated so that the bucket
  in question comes first, \<open>place_and_shift_up\<close> and \<open>erase_and_shift_down\<close> are maps over a prefix of
  a list.  \<open>bk_inv\<close> says that every value index is in exactly one bucket, at the distance from its
  home that the bucket records, that distances grow by at most one along the ring and that a bucket
  is empty; placing, erasing and renaming keep it, and every search stops where it should.
\<close>

subsection \<open>Rings of buckets\<close>

abbreviation df :: "bucket \<Rightarrow> nat" where
  "df \<equiv> m_dist_and_fingerprint"

abbreviation occupied :: "bucket \<Rightarrow> bool" where
  "occupied b \<equiv> m_dist_and_fingerprint b \<noteq> 0"

text \<open>The order of neighbours in Robin Hood hashing; bucket 0 follows the last one.\<close>

definition pair_ok :: "bucket \<Rightarrow> bucket \<Rightarrow> bool" where
  "pair_ok a b \<longleftrightarrow> (df b \<ge> 512 \<longrightarrow> df b \<le> df a + 256)"

definition ring_ok :: "bucket list \<Rightarrow> bool" where
  "ring_ok bs \<longleftrightarrow> successively pair_ok (bs @ [hd bs])"

lemma ring_ok_rotate1: "ring_ok (rotate1 bs) \<longleftrightarrow> ring_ok bs"
proof (cases bs)
  case (Cons b cs)
  then show ?thesis
    using successively_append_iff [of pair_ok cs "[b, hd cs]"] successively_append_iff [of pair_ok cs "[b]"]
    by (cases cs) (auto simp: ring_ok_def)
qed (simp add: ring_ok_def)

lemma ring_ok_rotate: "ring_ok (rotate p bs) \<longleftrightarrow> ring_ok bs"
  by (induction p) (simp_all add: rotate_def ring_ok_rotate1)

lemma ring_ok_nth: "ring_ok bs \<Longrightarrow> i < length bs \<Longrightarrow> pair_ok (bs ! i) (bs ! (Suc i mod length bs))"
proof -
  assume a: "ring_ok bs" "i < length bs"
  then have p: "pair_ok ((bs @ [hd bs]) ! i) ((bs @ [hd bs]) ! Suc i)"
    unfolding ring_ok_def successively_conv_nth by simp
  show ?thesis
  proof (cases "Suc i < length bs")
    case False
    with a have "Suc i = length bs" "bs \<noteq> []" by auto
    then show ?thesis using p a by (auto simp: nth_append hd_conv_nth)
  qed (use p a in \<open>auto simp: nth_append\<close>)
qed

subsection \<open>Seats\<close>

text \<open>
  \<open>hs\<close> gives the hash of the key with a value index.  An occupied bucket stands at the distance
  from its home that it records.
\<close>

definition seat :: "(nat \<Rightarrow> 64 word) \<Rightarrow> nat \<Rightarrow> nat \<Rightarrow> nat \<Rightarrow> bucket \<Rightarrow> bool" where
  "seat hs sh n i b \<longleftrightarrow> (occupied b \<longrightarrow>
     (\<exists>d. df b = 256 * Suc d + unat (hs (m_value_idx b)) mod 256 \<and>
          i mod n = (unat (hs (m_value_idx b)) div 2 ^ sh + d) mod n))"

fun seated :: "(nat \<Rightarrow> 64 word) \<Rightarrow> nat \<Rightarrow> nat \<Rightarrow> nat \<Rightarrow> bucket list \<Rightarrow> bool" where
  "seated hs sh n i [] = True"
| "seated hs sh n i (b # bs) \<longleftrightarrow> seat hs sh n i b \<and> seated hs sh n (Suc i) bs"

lemma seat_mod: "seat hs sh n (i mod n) b = seat hs sh n i b"
  by (simp add: seat_def)

lemma seated_mod: "seated hs sh n (i mod n) bs = seated hs sh n i bs"
proof (induction bs arbitrary: i)
  case (Cons b bs)
  show ?case using Cons [of "Suc (i mod n)"] Cons [of "Suc i"] seat_mod [of hs sh n i b]
    by (simp add: mod_Suc_eq)
qed simp

lemma seated_append:
  "seated hs sh n i (xs @ ys) \<longleftrightarrow> seated hs sh n i xs \<and> seated hs sh n (i + length xs) ys"
  by (induction xs arbitrary: i) auto

lemma seated_nth: "seated hs sh n i bs \<longleftrightarrow> (\<forall>k < length bs. seat hs sh n (i + k) (bs ! k))"
  by (induction bs arbitrary: i) (auto simp: All_less_Suc2 nth_Cons split: nat.splits)

lemma seated_rotate1:
  "length bs = n \<Longrightarrow> seated hs sh n (Suc i) (rotate1 bs) \<longleftrightarrow> seated hs sh n i bs"
proof (cases bs)
  case (Cons b cs)
  assume "length bs = n"
  moreover have "seat hs sh n (i + n) b = seat hs sh n i b"
    using seat_mod [of hs sh n "i + n" b] seat_mod [of hs sh n i b] by simp
  ultimately show ?thesis using Cons by (auto simp: seated_append)
qed simp

lemma seated_rotate: "length bs = n \<Longrightarrow> seated hs sh n p (rotate p bs) \<longleftrightarrow> seated hs sh n 0 bs"
  by (induction p) (simp_all add: seated_rotate1)

text \<open>Moving a bucket one further or one nearer to its home.\<close>

definition bump :: "bucket \<Rightarrow> bucket" where
  "bump b = b\<lparr>m_dist_and_fingerprint := df b + 256\<rparr>"

definition unbump :: "bucket \<Rightarrow> bucket" where
  "unbump b = b\<lparr>m_dist_and_fingerprint := df b - 256\<rparr>"

lemma bump_simps [simp]: "df (bump b) = df b + 256" "m_value_idx (bump b) = m_value_idx b"
  "df (unbump b) = df b - 256" "m_value_idx (unbump b) = m_value_idx b"
  by (simp_all add: bump_def unbump_def)

lemma seat_bump: "occupied b \<Longrightarrow> seat hs sh n i b \<Longrightarrow> seat hs sh n (Suc i) (bump b)"
proof -
  assume "occupied b" "seat hs sh n i b"
  then obtain d where d: "df b = 256 * Suc d + unat (hs (m_value_idx b)) mod 256"
    "i mod n = (unat (hs (m_value_idx b)) div 2 ^ sh + d) mod n" by (auto simp: seat_def)
  then have "Suc i mod n = (unat (hs (m_value_idx b)) div 2 ^ sh + Suc d) mod n"
    by (metis add_Suc_right mod_Suc_eq)
  with d(1) show ?thesis by (auto simp: seat_def intro!: exI [of _ "Suc d"])
qed

lemma seated_bump: "\<forall>b \<in> set bs. occupied b \<Longrightarrow> seated hs sh n i bs \<Longrightarrow> seated hs sh n (Suc i) (map bump bs)"
  by (induction bs arbitrary: i) (auto intro: seat_bump)

lemma Suc_mod_cancel: "Suc i mod n = Suc j mod n \<Longrightarrow> i mod n = j mod (n :: nat)"
proof (cases n)
  case (Suc m)
  assume "Suc i mod n = Suc j mod n"
  then have "(Suc i + m) mod n = (Suc j + m) mod n" by (metis mod_add_left_eq)
  then have "(i + n) mod n = (j + n) mod n" by (simp only: Suc add_Suc_shift)
  then show ?thesis by simp
qed simp

lemma seat_unbump: "df b \<ge> 512 \<Longrightarrow> seat hs sh n (Suc i) b \<Longrightarrow> seat hs sh n i (unbump b)"
proof -
  assume a: "df b \<ge> 512" "seat hs sh n (Suc i) b"
  then obtain d where d: "df b = 256 * Suc d + unat (hs (m_value_idx b)) mod 256"
    "Suc i mod n = (unat (hs (m_value_idx b)) div 2 ^ sh + d) mod n" by (auto simp: seat_def)
  define f where "f = unat (hs (m_value_idx b)) mod 256"
  then have "f < 256" by simp
  have "df b = 256 + 256 * d + f" using d(1) by (simp add: f_def)
  with a(1) \<open>f < 256\<close> have "d \<noteq> 0" by (cases d) auto
  then obtain e where e: "d = Suc e" using not0_implies_Suc by blast
  with d(2) have "Suc i mod n = Suc (unat (hs (m_value_idx b)) div 2 ^ sh + e) mod n" by simp
  then have "i mod n = (unat (hs (m_value_idx b)) div 2 ^ sh + e) mod n" by (rule Suc_mod_cancel)
  moreover have "df b - 256 = 256 * Suc e + unat (hs (m_value_idx b)) mod 256"
    unfolding d(1) e by simp
  ultimately show ?thesis unfolding seat_def bump_simps by blast
qed

lemma seated_unbump: "\<forall>b \<in> set bs. df b \<ge> 512 \<Longrightarrow> seated hs sh n (Suc i) bs \<Longrightarrow> seated hs sh n i (map unbump bs)"
  by (induction bs arbitrary: i) (auto intro: seat_unbump)

subsection \<open>The two moves on a ring, seen from their first bucket\<close>

lemma rotate_update:
  assumes "p < length bs" "rotate p bs = x # zs"
  shows "bs ! p = x" "rotate p (bs[p := y]) = y # zs"
proof -
  have n: "rotate p bs ! 0 = bs ! p" using nth_rotate [of 0 bs p] assms(1) by (cases bs) auto
  with assms(2) show "bs ! p = x" by simp
  have "bs = take p bs @ x # drop (Suc p) bs"
    using assms n by (simp add: Cons_nth_drop_Suc)
  moreover have "rotate p bs = drop p bs @ take p bs"
    using assms(1) by (simp add: rotate_drop_take)
  moreover have "rotate p (bs[p := y]) = drop p (bs[p := y]) @ take p (bs[p := y])"
    using assms(1) by (simp add: rotate_drop_take)
  moreover have "drop p (bs[p := y]) = y # drop (Suc p) bs"
    using assms(1) by (metis Cons_nth_drop_Suc drop_update_cancel lessI length_list_update nth_list_update_eq)
  moreover have "drop p bs = x # drop (Suc p) bs"
    using assms n by (metis Cons_nth_drop_Suc \<open>bs ! p = x\<close>)
  ultimately show "rotate p (bs[p := y]) = y # zs" using assms by simp
qed

lemma rotate_next: "rotate p bs = x # zs \<Longrightarrow> length bs = n \<Longrightarrow> rotate (Suc p mod n) bs = zs @ [x]"
  by (metis rotate_conv_mod rotate_Suc rotate1.simps(2))

lemma rotate_back: "rotate (Suc p mod n) bs = zs @ [x] \<Longrightarrow> length bs = n \<Longrightarrow> rotate p bs = x # zs"
  by (metis rotate_conv_mod rotate_Suc rotate1.simps(2) inj_rotate1 inj_eq)

lemma next_idx_mod: "i < length bs \<Longrightarrow> length bs < 2 ^ 32 \<Longrightarrow> next_idx bs i = Suc i mod length bs"
  by (simp add: next_idx_def)

lemma dist_inc_eq: "x + 256 < 2 ^ 32 \<Longrightarrow> dist_inc x = x + 256"
  by (simp add: dist_inc_def bucket_dist_inc_def)

lemma dist_dec_eq: "256 \<le> x \<Longrightarrow> x < 2 ^ 32 \<Longrightarrow> dist_dec x = x - 256"
  by (simp add: dist_dec_def bucket_dist_inc_def sub32_eq)

lemma bump_alt: "b\<lparr>m_dist_and_fingerprint := df b + 256\<rparr> = bump b"
  by (simp add: bump_def)

lemma place_shifts:
  "rotate p bs = xs @ e # ys \<Longrightarrow> p < length bs \<Longrightarrow> length bs < 2 ^ 32 \<Longrightarrow>
   \<forall>x \<in> set xs. occupied x \<and> df x + 256 < 2 ^ 32 \<Longrightarrow> \<not> occupied e \<Longrightarrow>
   \<exists>bs'. place_and_shift_up bs b p = Some bs' \<and> length bs' = length bs \<and> rotate p bs' = b # map bump xs @ ys"
proof (induction xs arbitrary: p bs b ys)
  case Nil
  then have "bs ! p = e" "rotate p (bs[p := b]) = b # ys" using rotate_update by fastforce+
  with Nil show ?case by (subst place_and_shift_up.simps) simp
next
  case (Cons x xs)
  let ?bs = "bs[p := b]" and ?p = "Suc p mod length bs"
  have x: "bs ! p = x" and r: "rotate p ?bs = b # xs @ e # ys"
    using rotate_update [of p bs x "xs @ e # ys"] Cons.prems by simp_all
  have pl: "?p < length bs" using Cons.prems by (intro mod_less_divisor) auto
  have "rotate ?p ?bs = xs @ e # (ys @ [b])" using rotate_next [OF r] by simp
  then obtain bs' where bs': "place_and_shift_up ?bs (bump x) ?p = Some bs'" "length bs' = length bs"
    "rotate ?p bs' = bump x # map bump xs @ ys @ [b]"
    using Cons.IH [of ?p ?bs "ys @ [b]" "bump x"] Cons.prems pl by auto
  have "rotate p bs' = b # bump x # map bump xs @ ys"
    using rotate_back [of p "length bs" bs' "bump x # map bump xs @ ys" b] bs' by simp
  with x bs' Cons.prems show ?case
    by (subst place_and_shift_up.simps) (simp add: next_idx_mod dist_inc_eq bump_alt)
qed

lemma unbump_alt: "b\<lparr>m_dist_and_fingerprint := df b - 256\<rparr> = unbump b"
  by (simp add: unbump_def)

lemma erase_shifts_loop:
  "rotate p bs = b # xs @ ys \<Longrightarrow> p < length bs \<Longrightarrow> length bs < 2 ^ 32 \<Longrightarrow>
   \<forall>x \<in> set xs. 512 \<le> df x \<and> df x < 2 ^ 32 \<Longrightarrow> ys \<noteq> [] \<Longrightarrow> df (hd ys) < 512 \<Longrightarrow>
   \<exists>bs'. shift_down_loop bs p (Suc p mod length bs) = Some bs' \<and> length bs' = length bs \<and>
     rotate p bs' = map unbump xs @ no_bucket # ys"
proof (induction xs arbitrary: p bs b ys)
  case Nil
  then obtain y zs where y: "ys = y # zs" by (cases ys) auto
  have "rotate (Suc p mod length bs) bs = y # zs @ [b]" using rotate_next [of p bs b ys] Nil y by simp
  then have h: "bs ! (Suc p mod length bs) = y"
    using rotate_update [of "Suc p mod length bs" bs y "zs @ [b]"] Nil by (metis length_greater_0_conv list.size(3) mod_less_divisor not_less_zero)
  have "rotate p (bs[p := no_bucket]) = no_bucket # ys" using rotate_update [of p bs b ys] Nil by simp
  moreover have "Suc p mod length bs < length bs" using Nil by (intro mod_less_divisor) auto
  ultimately show ?case using h Nil y by (subst shift_down_loop.simps) (simp add: bucket_dist_inc_def)
next
  case (Cons x xs)
  let ?p = "Suc p mod length bs" and ?bs = "bs[p := unbump x]"
  have pl: "?p < length bs" using Cons.prems by (intro mod_less_divisor) auto
  have "rotate ?p bs = x # xs @ ys @ [b]" using rotate_next [of p bs b] Cons.prems by simp
  then have x: "bs ! ?p = x" using rotate_update [OF pl] by blast
  have "rotate p ?bs = unbump x # (x # xs @ ys)" using rotate_update [of p bs b] Cons.prems by simp
  then have "rotate ?p ?bs = x # xs @ (ys @ [unbump x])" using rotate_next [of p ?bs] by simp
  then obtain bs' where bs': "shift_down_loop ?bs ?p (Suc ?p mod length bs) = Some bs'" "length bs' = length bs"
    "rotate ?p bs' = map unbump xs @ no_bucket # ys @ [unbump x]"
    using Cons.IH [of ?p ?bs x "ys @ [unbump x]"] Cons.prems pl by auto
  have "rotate p bs' = unbump x # map unbump xs @ no_bucket # ys"
    using rotate_back [of p "length bs" bs' "map unbump xs @ no_bucket # ys" "unbump x"] bs' by simp
  with bs' x pl Cons.prems show ?case
    by (subst shift_down_loop.simps)
       (simp add: next_idx_mod dist_dec_eq unbump_alt bucket_dist_inc_def)
qed

lemma erase_shifts:
  "rotate p bs = b # xs @ ys \<Longrightarrow> p < length bs \<Longrightarrow> length bs < 2 ^ 32 \<Longrightarrow>
   \<forall>x \<in> set xs. 512 \<le> df x \<and> df x < 2 ^ 32 \<Longrightarrow> ys \<noteq> [] \<Longrightarrow> df (hd ys) < 512 \<Longrightarrow>
   \<exists>bs'. erase_and_shift_down bs p = Some bs' \<and> length bs' = length bs \<and>
     rotate p bs' = map unbump xs @ no_bucket # ys"
  using erase_shifts_loop [of p bs b xs ys] by (simp add: erase_and_shift_down_def next_idx_mod)

subsection \<open>The invariant of the buckets\<close>

definition live :: "bucket list \<Rightarrow> nat multiset" where
  "live bs = image_mset m_value_idx (filter_mset occupied (mset bs))"

lemma live_simps [simp]:
  "live [] = {#}" "live (b # bs) = (if occupied b then add_mset (m_value_idx b) (live bs) else live bs)"
  "live (xs @ ys) = live xs + live ys"
  by (simp_all add: live_def)

lemma live_rotate [simp]: "live (rotate p bs) = live bs"
proof (induction p)
  case (Suc p)
  have "live (rotate1 cs) = live cs" for cs by (cases cs) auto
  with Suc show ?case by simp
qed simp

lemma live_mem: "i < length bs \<Longrightarrow> occupied (bs ! i) \<Longrightarrow> m_value_idx (bs ! i) \<in># live bs"
  by (simp add: live_def)

lemma live_bump: "\<forall>x \<in> set xs. occupied x \<Longrightarrow> live (map bump xs) = live xs"
  by (induction xs) simp_all

lemma live_unbump: "\<forall>x \<in> set xs. 512 \<le> df x \<Longrightarrow> live (map unbump xs) = live xs"
  by (induction xs) auto

text \<open>\<open>S\<close> is the set of the value indices that are in the table.\<close>

definition bk_inv :: "(nat \<Rightarrow> 64 word) \<Rightarrow> nat \<Rightarrow> nat set \<Rightarrow> bucket list \<Rightarrow> bool" where
  "bk_inv hs sh S bs \<longleftrightarrow> 41 \<le> sh \<and> sh \<le> 62 \<and> length bs = 2 ^ (64 - sh) \<and> finite S \<and> card S < length bs \<and>
     live bs = mset_set S \<and> seated hs sh (length bs) 0 bs \<and> ring_ok bs"

lemma bk_inv_length: "bk_inv hs sh S bs \<Longrightarrow> 0 < length bs \<and> length bs \<le> 2 ^ 23"
proof -
  assume "bk_inv hs sh S bs"
  then have "length bs = 2 ^ (64 - sh)" "64 - sh \<le> 23" by (auto simp: bk_inv_def)
  then show ?thesis using power_increasing [of "64 - sh" 23 "2 :: nat"] by simp
qed

lemma live_elem: "live bs = mset_set S \<Longrightarrow> finite S \<Longrightarrow> i < length bs \<Longrightarrow> occupied (bs ! i) \<Longrightarrow> m_value_idx (bs ! i) \<in> S"
  using live_mem [of i bs] by simp

lemma live_find: "live bs = mset_set S \<Longrightarrow> finite S \<Longrightarrow> j \<in> S \<Longrightarrow> \<exists>i < length bs. occupied (bs ! i) \<and> m_value_idx (bs ! i) = j"
proof -
  assume a: "live bs = mset_set S" "finite S" "j \<in> S"
  then have "j \<in># live bs" by simp
  then show ?thesis by (auto simp: live_def in_set_conv_nth)
qed

lemma live_inj:
  assumes "live bs = mset_set S" "i < length bs" "j < length bs" "occupied (bs ! i)" "occupied (bs ! j)"
    "m_value_idx (bs ! i) = m_value_idx (bs ! j)"
  shows "i = j"
proof (rule ccontr)
  assume ne: "i \<noteq> j"
  have *: False if "i < j" "j < length bs" "occupied (bs ! i)" "occupied (bs ! j)"
    "m_value_idx (bs ! i) = m_value_idx (bs ! j)" for i j
  proof -
    have "bs = take i bs @ bs ! i # drop (Suc i) bs" using that by (simp add: id_take_nth_drop)
    then have l: "live bs = live (take i bs) + add_mset (m_value_idx (bs ! i)) (live (drop (Suc i) bs))"
      using that by (metis live_simps(2,3))
    have "bs ! j \<in> set (drop (Suc i) bs)"
      using that by (auto simp: in_set_conv_nth intro!: exI [of _ "j - Suc i"])
    then have "m_value_idx (bs ! j) \<in># live (drop (Suc i) bs)" using that by (auto simp: live_def)
    then have "count (live bs) (m_value_idx (bs ! i)) > 1" using that by (simp add: l)
    moreover have "count (mset_set S) x \<le> 1" for x by (simp add: count_mset_set')
    ultimately show False using assms(1) by (metis not_less)
  qed
  show False using * [of i j] * [of j i] assms ne by (cases "i < j") auto
qed

lemma has_empty: "bk_inv hs sh S bs \<Longrightarrow> \<exists>i < length bs. \<not> occupied (bs ! i)"
proof (rule ccontr)
  assume a: "bk_inv hs sh S bs" "\<not> (\<exists>i < length bs. \<not> occupied (bs ! i))"
  then have "filter occupied bs = bs" by (intro filter_True) (auto simp: in_set_conv_nth)
  then have "size (live bs) = length bs" by (metis live_def mset_filter size_image_mset size_mset)
  with a show False by (simp add: bk_inv_def)
qed

subsection \<open>Slots from a home\<close>

definition slot :: "nat \<Rightarrow> nat \<Rightarrow> 64 word \<Rightarrow> nat \<Rightarrow> nat" where
  "slot n sh h t = (unat h div 2 ^ sh + t) mod n"

definition want :: "64 word \<Rightarrow> nat \<Rightarrow> nat" where
  "want h t = 256 * Suc t + unat h mod 256"

lemma slot_less: "0 < n \<Longrightarrow> slot n sh h t < n"
  by (simp add: slot_def)

lemma slot_Suc: "slot n sh h (Suc t) = Suc (slot n sh h t) mod n"
  by (simp add: slot_def mod_Suc_eq)

lemma want_Suc: "want h (Suc t) = want h t + 256"
  by (simp add: want_def)

lemma want_pos: "256 \<le> want h t" "t \<noteq> 0 \<longleftrightarrow> 512 \<le> want h t"
proof -
  have "unat h mod 256 < 256" by simp
  then show "t \<noteq> 0 \<longleftrightarrow> 512 \<le> want h t" unfolding want_def by (cases t) (simp_all del: mod_less_divisor)
  show "256 \<le> want h t" by (simp add: want_def)
qed

lemma want_less: "t < 2 ^ 23 \<Longrightarrow> want h t + 256 < 2 ^ 32"
proof -
  assume "t < 2 ^ 23"
  moreover have "unat h mod 256 < 256" by simp
  ultimately show ?thesis unfolding want_def by simp
qed

lemma slot_cover: "i < n \<Longrightarrow> \<exists>t < n. i = slot n sh h t"
proof -
  assume i: "i < n"
  define a where "a = unat h div 2 ^ sh mod n"
  have a: "a < n" using i by (simp add: a_def)
  have "slot n sh h t = (a + t) mod n" for t by (simp add: slot_def a_def mod_add_left_eq)
  moreover have "(a + (i + n - a) mod n) mod n = i"
    using i a by (simp add: mod_add_right_eq)
  moreover have "(i + n - a) mod n < n" using i by simp
  ultimately show ?thesis by metis
qed

lemma slot_inj: "slot n sh h s = slot n sh h t \<Longrightarrow> s < n \<Longrightarrow> t < n \<Longrightarrow> s = t"
proof (induction s t rule: linorder_wlog)
  case (le s t)
  then have "(unat h div 2 ^ sh + t) mod n = (unat h div 2 ^ sh + s) mod n" by (simp add: slot_def)
  then have "n dvd (unat h div 2 ^ sh + t) - (unat h div 2 ^ sh + s)" using le.hyps
    by (intro mod_eq_dvd_iff_nat [THEN iffD1]) auto
  then have "n dvd t - s" by simp
  then show ?case using le nat_dvd_not_less [of "t - s" n] by (cases "t = s") auto
qed auto

text \<open>From the home of a stored key to its bucket there is no gap.\<close>

lemma chain:
  assumes "ring_ok bs" "0 < length bs" "want h t \<le> df (bs ! slot (length bs) sh h t)" "s \<le> t"
  shows "want h s \<le> df (bs ! slot (length bs) sh h s)"
  using assms(4)
proof (induction s rule: inc_induct)
  case (step s)
  have "pair_ok (bs ! slot (length bs) sh h s) (bs ! slot (length bs) sh h (Suc s))"
    using ring_ok_nth [OF assms(1) slot_less [OF assms(2)], of sh h s] by (simp add: slot_Suc)
  moreover have "512 \<le> want h (Suc s)" using want_pos(2) [of "Suc s" h] by simp
  ultimately show ?case using step.IH by (simp add: pair_ok_def want_Suc)
qed (rule assms(3))

lemma descend:
  assumes "ring_ok bs" "0 < length bs" "df (bs ! slot (length bs) sh h s) \<le> want h s" "s \<le> t"
  shows "df (bs ! slot (length bs) sh h t) \<le> want h t"
  using assms(4)
proof (induction t rule: dec_induct)
  case (step t)
  have "pair_ok (bs ! slot (length bs) sh h t) (bs ! slot (length bs) sh h (Suc t))"
    using ring_ok_nth [OF assms(1) slot_less [OF assms(2)], of sh h t] by (simp add: slot_Suc)
  moreover have "512 \<le> want h (Suc t)" using want_pos(2) [of "Suc t" h] by simp
  ultimately show ?case using step.IH
    by (cases "512 \<le> df (bs ! slot (length bs) sh h (Suc t))") (simp_all add: pair_ok_def want_Suc)
qed (rule assms(3))

lemma seat_slot:
  assumes "bk_inv hs sh S bs" "i < length bs" "occupied (bs ! i)"
  shows "\<exists>t < length bs. i = slot (length bs) sh (hs (m_value_idx (bs ! i))) t \<and>
    df (bs ! i) = want (hs (m_value_idx (bs ! i))) t"
proof -
  let ?h = "hs (m_value_idx (bs ! i))" and ?n = "length bs"
  have inv: "ring_ok bs" "0 < ?n" using assms(1) bk_inv_length by (auto simp: bk_inv_def)
  have "seated hs sh ?n 0 bs" using assms(1) unfolding bk_inv_def by blast
  then have "seat hs sh ?n i (bs ! i)" using assms(2) by (simp add: seated_nth)
  then obtain t where t: "df (bs ! i) = want ?h t" "i = slot ?n sh ?h t"
    using assms(2,3) by (auto simp: seat_def want_def slot_def)
  have "t < ?n"
  proof (rule ccontr)
    assume nt: "\<not> t < ?n"
    obtain e where e: "e < ?n" "\<not> occupied (bs ! e)" using has_empty [OF assms(1)] by blast
    then obtain s where s: "s < ?n" "e = slot ?n sh ?h s" using slot_cover by blast
    have "want ?h t \<le> df (bs ! slot ?n sh ?h t)" using t by simp
    then have "want ?h s \<le> df (bs ! e)" using chain [OF inv, of ?h t sh s] nt s by simp
    with e(2) want_pos(1) [of ?h s] show False by simp
  qed
  with t show ?thesis by blast
qed

lemma df_bound: "bk_inv hs sh S bs \<Longrightarrow> b \<in> set bs \<Longrightarrow> df b + 256 < 2 ^ 32"
proof -
  assume a: "bk_inv hs sh S bs" "b \<in> set bs"
  then obtain i where i: "i < length bs" "bs ! i = b" by (auto simp: in_set_conv_nth)
  show ?thesis
  proof (cases "occupied b")
    case True
    then obtain t where "t < length bs" "df b = want (hs (m_value_idx b)) t"
      using seat_slot [OF a(1) i(1)] i(2) by blast
    then show ?thesis using want_less bk_inv_length [OF a(1)] by (metis less_le_trans)
  qed simp
qed

lemma bk_invD:
  assumes "bk_inv hs sh S bs"
  shows "seated hs sh (length bs) 0 bs" "ring_ok bs" "live bs = mset_set S" "finite S" "card S < length bs"
  using assms unfolding bk_inv_def by blast+

subsection \<open>Placing and erasing keep the invariant\<close>

lemma pair_ok_small: "df b < 512 \<Longrightarrow> pair_ok a b"
  by (simp add: pair_ok_def)

lemma pair_ok_empty: "df a = 0 \<Longrightarrow> pair_ok a b \<longleftrightarrow> df b < 512"
  by (auto simp: pair_ok_def)

lemma successively_bump:
  assumes "successively pair_ok xs" "\<forall>x \<in> set xs. 256 \<le> df x"
  shows "successively pair_ok (map bump xs)"
  using assms by (induction xs rule: induct_list012) (auto simp: pair_ok_def)

lemma successively_unbump:
  assumes "successively pair_ok xs" "\<forall>x \<in> set xs. 512 \<le> df x"
  shows "successively pair_ok (map unbump xs)"
  using assms by (induction xs rule: induct_list012) (auto simp: pair_ok_def)

lemma ring_place:
  assumes r: "ring_ok (xs @ e # ys)" and xs: "\<forall>x \<in> set xs. 256 \<le> df x" and e: "df e = 0"
    and b: "pair_ok (last (xs @ e # ys)) b" "df (hd (xs @ e # ys)) \<le> df b"
  shows "ring_ok (b # map bump xs @ ys)"
proof -
  have r': "successively pair_ok (xs @ [e])" "successively pair_ok (e # ys)"
    using r successively_append_iff [of pair_ok "e # ys" "[hd (xs @ e # ys)]"]
    by (auto simp: ring_ok_def successively_append_iff [of pair_ok xs])
  have after: "pair_ok a (hd (ys @ [b]))" for a
  proof (cases ys)
    case Nil
    then have "pair_ok e b" using b(1) by simp
    then show ?thesis using Nil e by (simp add: pair_ok_empty pair_ok_small)
  next
    case (Cons y zs)
    then show ?thesis using r'(2) e by (auto simp: pair_ok_empty intro: pair_ok_small)
  qed
  have "successively pair_ok (ys @ [b])"
    using r'(2) b(1) by (cases "ys = []") (auto simp: successively_append_iff successively_Cons)
  moreover have "successively pair_ok (map bump xs)"
    using r'(1) xs by (intro successively_bump) (auto simp: successively_append_iff)
  moreover have "pair_ok b (bump (hd xs))" if "xs \<noteq> []"
    using b(2) that by (auto simp: pair_ok_def hd_append)
  ultimately have "successively pair_ok (b # map bump xs @ ys @ [b])"
    using after by (cases "xs = []") (auto simp: successively_append_iff successively_Cons hd_map)
  then show ?thesis by (simp add: ring_ok_def)
qed

lemma ring_erase:
  assumes r: "ring_ok (b # xs @ ys)" and xs: "\<forall>x \<in> set xs. 512 \<le> df x" and ys: "ys \<noteq> []" "df (hd ys) < 512"
  shows "ring_ok (map unbump xs @ no_bucket # ys)"
proof -
  have nb: "df no_bucket = 0" by (simp add: no_bucket_def)
  have r': "successively pair_ok (b # xs)" "successively pair_ok ys" "pair_ok (last ys) b"
    using r ys(1) by (auto simp: ring_ok_def successively_append_iff successively_Cons hd_append split: if_splits)
  have sx: "successively pair_ok (map unbump xs)"
    using r'(1) xs by (intro successively_unbump) (auto simp: successively_Cons)
  have first: "pair_ok (last ys) (unbump (hd xs))" if "xs \<noteq> []"
    using r'(1,3) that by (auto simp: successively_Cons pair_ok_def)
  have "pair_ok a no_bucket" "pair_ok no_bucket (hd ys)" for a
    using ys(2) by (simp_all add: pair_ok_def nb)
  then show ?thesis unfolding ring_ok_def using sx r'(2) ys(1) first
    by (cases "xs = []") (auto simp: successively_append_iff successively_Cons hd_map)
qed

lemma occupied_ge: "bk_inv hs sh S bs \<Longrightarrow> b \<in> set bs \<Longrightarrow> occupied b \<Longrightarrow> 256 \<le> df b"
proof -
  assume a: "bk_inv hs sh S bs" "b \<in> set bs" "occupied b"
  then obtain i where i: "i < length bs" "bs ! i = b" by (auto simp: in_set_conv_nth)
  then obtain t where "df b = want (hs (m_value_idx b)) t" using seat_slot [OF a(1) i(1)] a(3) by blast
  then show ?thesis using want_pos(1) by simp
qed

lemma last_rotate:
  assumes "0 < length bs" "0 < T"
  shows "last (rotate (slot (length bs) sh h T) bs) = bs ! slot (length bs) sh h (T - 1)"
proof -
  let ?n = "length bs"
  obtain m where m: "T = Suc m" using assms(2) gr0_implies_Suc by blast
  have "(slot ?n sh h T + (?n - 1)) mod ?n = (unat h div 2 ^ sh + T + (?n - 1)) mod ?n"
    by (simp add: slot_def mod_add_left_eq)
  also have "unat h div 2 ^ sh + T + (?n - 1) = unat h div 2 ^ sh + m + ?n" using m assms(1) by simp
  finally have "(slot ?n sh h T + (?n - 1)) mod ?n = slot ?n sh h m" by (simp add: slot_def)
  moreover have "rotate (slot ?n sh h T) bs \<noteq> []" using assms(1) by auto
  moreover have "last (rotate (slot ?n sh h T) bs) = bs ! ((slot ?n sh h T + (?n - 1)) mod ?n)"
    using assms(1) by (simp add: last_conv_nth nth_rotate del: add_diff_assoc)
  ultimately show ?thesis using m by simp
qed

lemma hd_rotate: "0 < length bs \<Longrightarrow> p < length bs \<Longrightarrow> hd (rotate p bs) = bs ! p"
  by (simp add: hd_rotate_conv_nth)

lemma seated_at:
  "length bs = n \<Longrightarrow> seated hs sh n 0 bs \<longleftrightarrow> seated hs sh n p (rotate p bs)"
  by (simp add: seated_rotate)

lemma place_inv:
  assumes inv: "bk_inv hs sh S bs" and j: "j \<notin> S" "Suc (card S) < length bs"
    and p: "df (bs ! slot (length bs) sh (hs j) T) \<le> want (hs j) T"
      "0 < T \<Longrightarrow> want (hs j) (T - 1) \<le> df (bs ! slot (length bs) sh (hs j) (T - 1))"
  shows "\<exists>bs'. place_and_shift_up bs \<lparr>m_dist_and_fingerprint = want (hs j) T, m_value_idx = j\<rparr>
      (slot (length bs) sh (hs j) T) = Some bs' \<and> length bs' = length bs \<and> bk_inv hs sh (insert j S) bs'"
proof -
  let ?n = "length bs" and ?p = "slot (length bs) sh (hs j) T"
  let ?b = "\<lparr>m_dist_and_fingerprint = want (hs j) T, m_value_idx = j\<rparr>"
  have n: "0 < ?n" "?n \<le> 2 ^ 23" using bk_inv_length [OF inv] by simp_all
  have pl: "?p < ?n" using slot_less n(1) .
  obtain i where "i < ?n" "\<not> occupied (bs ! i)" using has_empty [OF inv] by blast
  then have "\<exists>x \<in> set (rotate ?p bs). \<not> occupied x" by auto
  then obtain xs e ys where R: "rotate ?p bs = xs @ e # ys" "\<not> occupied e" "\<forall>x \<in> set xs. \<not> \<not> occupied x"
    using split_list_first_prop [of "rotate ?p bs" "\<lambda>x. \<not> occupied x"] by blast
  have "set (xs @ e # ys) = set bs" using R(1) by (metis set_rotate)
  then have sub: "set xs \<subseteq> set bs" by auto
  have xs: "\<forall>x \<in> set xs. occupied x \<and> df x + 256 < 2 ^ 32" "\<forall>x \<in> set xs. 256 \<le> df x"
    using R(3) sub df_bound [OF inv] occupied_ge [OF inv] by blast+
  have n32: "?n < 2 ^ 32" using n(2) by simp
  obtain bs' where bs': "place_and_shift_up bs ?b ?p = Some bs'" "length bs' = ?n"
    "rotate ?p bs' = ?b # map bump xs @ ys"
    using place_shifts [OF R(1) pl n32 xs(1) R(2), of ?b] by blast
  have w: "want (hs j) T \<noteq> 0" using want_pos(1) [of "hs j" T] by simp
  have "ring_ok (rotate ?p bs')" unfolding bs'(3)
  proof (rule ring_place [where e = e])
    show "ring_ok (xs @ e # ys)" using inv R(1) by (metis bk_inv_def ring_ok_rotate)
    show "\<forall>x \<in> set xs. 256 \<le> df x" by (rule xs(2))
    show "df e = 0" using R(2) by simp
    show "df (hd (xs @ e # ys)) \<le> df ?b" using p(1) hd_rotate [OF n(1) pl] R(1) by simp
    show "pair_ok (last (xs @ e # ys)) ?b"
    proof (cases "0 < T")
      case True
      then have "want (hs j) (T - 1) \<le> df (last (xs @ e # ys))"
        using p(2) last_rotate [OF n(1) True, of sh "hs j"] R(1) by simp
      with True show ?thesis by (cases T) (simp_all add: pair_ok_def want_Suc)
    next
      case False
      then have "want (hs j) T < 512" using want_pos(2) [of T "hs j"] by linarith
      then show ?thesis by (simp add: pair_ok_small)
    qed
  qed
  moreover have "seated hs sh ?n ?p (rotate ?p bs')"
  proof -
    have "seated hs sh ?n ?p (xs @ e # ys)" using bk_invD(1) [OF inv] seated_at [of bs ?n hs sh ?p] unfolding R(1) by blast
    then have s: "seated hs sh ?n ?p xs" "seated hs sh ?n (Suc (?p + length xs)) ys"
      by (auto simp: seated_append)
    have "seat hs sh ?n ?p ?b" unfolding seat_def by (auto simp: want_def slot_def)
    moreover have "seated hs sh ?n (Suc ?p) (map bump xs)" using s(1) R(3) by (intro seated_bump) auto
    ultimately show ?thesis using s(2) by (simp add: bs'(3) seated_append)
  qed
  moreover have "live bs' = mset_set (insert j S)"
  proof -
    have "live bs' = live (rotate ?p bs')" by simp
    also have "\<dots> = add_mset j (live (xs @ e # ys))" using w R(2,3) by (simp add: bs'(3) live_bump)
    also have "\<dots> = add_mset j (live bs)" by (metis R(1) live_rotate)
    finally show ?thesis using inv j(1) by (simp add: bk_inv_def)
  qed
  ultimately have "bk_inv hs sh (insert j S) bs'"
    using inv j bs'(2) seated_at [of bs' ?n hs sh ?p] by (simp add: bk_inv_def ring_ok_rotate)
  with bs' show ?thesis by blast
qed

lemma erase_inv:
  assumes inv: "bk_inv hs sh S bs" and p: "p < length bs" "occupied (bs ! p)"
  shows "\<exists>bs'. erase_and_shift_down bs p = Some bs' \<and> length bs' = length bs \<and>
    bk_inv hs sh (S - {m_value_idx (bs ! p)}) bs'"
proof -
  let ?n = "length bs" and ?r = "m_value_idx (bs ! p)"
  have n: "0 < ?n" "?n \<le> 2 ^ 23" using bk_inv_length [OF inv] by simp_all
  obtain zs where z: "rotate p bs = bs ! p # zs"
    using hd_rotate [OF n(1) p(1)] n(1) by (cases "rotate p bs") auto
  have sz: "set (bs ! p # zs) = set bs" using z by (metis set_rotate)
  obtain i where "i < ?n" "\<not> occupied (bs ! i)" using has_empty [OF inv] by blast
  then have "\<exists>x \<in> set zs. df x < 512" using sz p(2) by (metis nth_mem set_ConsD zero_less_numeral)
  then obtain xs y ws where zs: "zs = xs @ y # ws" "df y < 512" "\<forall>x \<in> set xs. \<not> df x < 512"
    using split_list_first_prop [of zs "\<lambda>x. df x < 512"] by blast
  have xs: "\<forall>x \<in> set xs. 512 \<le> df x \<and> df x < 2 ^ 32" "\<forall>x \<in> set xs. 512 \<le> df x"
    using zs sz df_bound [OF inv] by fastforce+
  have n32: "?n < 2 ^ 32" using n(2) by simp
  have R: "rotate p bs = bs ! p # xs @ y # ws" using z zs(1) by simp
  obtain bs' where bs': "erase_and_shift_down bs p = Some bs'" "length bs' = ?n"
    "rotate p bs' = map unbump xs @ no_bucket # y # ws"
    using erase_shifts [OF R p(1) n32 xs(1)] zs(2) by auto
  have nb: "\<not> occupied no_bucket" by (simp add: no_bucket_def)
  have "ring_ok (rotate p bs)" using inv by (simp add: bk_inv_def ring_ok_rotate)
  then have "ring_ok (rotate p bs')" unfolding bs'(3) R using xs(2) zs(2) by (intro ring_erase) auto
  moreover have "seated hs sh ?n p (rotate p bs')"
  proof -
    have "seated hs sh ?n p (bs ! p # xs @ y # ws)"
      using bk_invD(1) [OF inv] seated_at [of bs ?n hs sh p] unfolding R by blast
    then have "seated hs sh ?n (Suc p) xs" "seated hs sh ?n (Suc (p + length xs)) (y # ws)"
      by (auto simp: seated_append)
    moreover from this(1) have "seated hs sh ?n p (map unbump xs)" using xs(2) by (intro seated_unbump)
    moreover have "seat hs sh ?n k no_bucket" for k using nb by (simp add: seat_def)
    ultimately show ?thesis by (simp add: bs'(3) seated_append)
  qed
  moreover have "live bs' = mset_set (S - {?r})"
  proof -
    have "live bs = live (bs ! p # xs @ y # ws)" by (metis R live_rotate)
    then have l: "live bs = add_mset ?r (live xs + live (y # ws))" using p(2) by simp
    have "live bs' = live (rotate p bs')" by simp
    also have "\<dots> = live xs + live (y # ws)" using nb xs(2) by (simp add: bs'(3) live_unbump)
    finally have "live bs' = live bs - {#?r#}" using l by simp
    moreover have "?r \<in> S" using live_elem [of bs S p] inv p by (auto simp: bk_inv_def)
    ultimately show ?thesis using inv by (simp add: bk_inv_def mset_set_Diff)
  qed
  moreover have "card (S - {?r}) < ?n" using inv card_Diff1_le [of S ?r] by (simp add: bk_inv_def)
  ultimately have "bk_inv hs sh (S - {?r}) bs'"
    using inv bs'(2) seated_at [of bs' ?n hs sh p] by (simp add: bk_inv_def ring_ok_rotate)
  with bs' show ?thesis by blast
qed

subsection \<open>Searching\<close>

lemma descend_strict:
  assumes "ring_ok bs" "0 < length bs" "df (bs ! slot (length bs) sh h s) < want h s" "s \<le> t"
  shows "df (bs ! slot (length bs) sh h t) < want h t"
  using assms(4)
proof (induction t rule: dec_induct)
  case (step t)
  have "pair_ok (bs ! slot (length bs) sh h t) (bs ! slot (length bs) sh h (Suc t))"
    using ring_ok_nth [OF assms(1) slot_less [OF assms(2)], of sh h t] by (simp add: slot_Suc)
  moreover have "512 \<le> want h (Suc t)" using want_pos(2) [of "Suc t" h] by simp
  ultimately show ?case using step.IH
    by (cases "512 \<le> df (bs ! slot (length bs) sh h (Suc t))") (simp_all add: pair_ok_def want_Suc)
qed (rule assms(3))

lemma search_present:
  assumes inv: "bk_inv hs sh S bs" and j: "j \<in> S"
  shows "\<exists>T < length bs. df (bs ! slot (length bs) sh (hs j) T) = want (hs j) T \<and>
    m_value_idx (bs ! slot (length bs) sh (hs j) T) = j \<and>
    (\<forall>t < T. want (hs j) t \<le> df (bs ! slot (length bs) sh (hs j) t) \<and>
       m_value_idx (bs ! slot (length bs) sh (hs j) t) \<in> S - {j})"
proof -
  let ?b = "\<lambda>t. bs ! slot (length bs) sh (hs j) t"
  have n: "0 < length bs" using bk_inv_length [OF inv] by simp
  obtain i where i: "i < length bs" "occupied (bs ! i)" "m_value_idx (bs ! i) = j"
    using live_find [OF bk_invD(3) [OF inv] bk_invD(4) [OF inv] j] by blast
  then obtain T where T: "T < length bs" "i = slot (length bs) sh (hs j) T" "df (bs ! i) = want (hs j) T"
    using seat_slot [OF inv i(1,2)] by metis
  have "want (hs j) t \<le> df (?b t) \<and> m_value_idx (?b t) \<in> S - {j}" if t: "t < T" for t
  proof -
    have w: "want (hs j) t \<le> df (?b t)"
      using chain [OF bk_invD(2) [OF inv] n, of "hs j" T sh t] T t by simp
    then have o: "occupied (?b t)" using want_pos(1) [of "hs j" t] by simp
    have l: "slot (length bs) sh (hs j) t < length bs" using slot_less [OF n] .
    have "m_value_idx (?b t) \<noteq> j"
    proof
      assume "m_value_idx (?b t) = j"
      then have "slot (length bs) sh (hs j) t = slot (length bs) sh (hs j) T"
        using live_inj [OF bk_invD(3) [OF inv] l i(1) o i(2)] i(3) T(2) by simp
      then show False using slot_inj t T(1) by (metis less_trans less_irrefl)
    qed
    with w live_elem [OF bk_invD(3) [OF inv] bk_invD(4) [OF inv] l o] show ?thesis by simp
  qed
  with T i show ?thesis by metis
qed

lemma search_absent:
  assumes inv: "bk_inv hs sh S bs"
  shows "\<exists>T < length bs. df (bs ! slot (length bs) sh h T) < want h T \<and>
    (\<forall>t < T. want h t \<le> df (bs ! slot (length bs) sh h t) \<and> m_value_idx (bs ! slot (length bs) sh h t) \<in> S)"
proof -
  let ?b = "\<lambda>t. bs ! slot (length bs) sh h t"
  have n: "0 < length bs" using bk_inv_length [OF inv] by simp
  obtain i where i: "i < length bs" "\<not> occupied (bs ! i)" using has_empty [OF inv] by blast
  then obtain s where s: "s < length bs" "i = slot (length bs) sh h s" using slot_cover by blast
  define T where "T = (LEAST t. df (?b t) < want h t)"
  have ex: "df (?b s) < want h s" using i(2) s(2) want_pos(1) [of h s] by simp
  have T: "df (?b T) < want h T" "T \<le> s" unfolding T_def using LeastI [of "\<lambda>t. df (?b t) < want h t", OF ex]
    Least_le [of "\<lambda>t. df (?b t) < want h t", OF ex] by blast+
  have "want h t \<le> df (?b t) \<and> m_value_idx (?b t) \<in> S" if "t < T" for t
  proof -
    have w: "want h t \<le> df (?b t)" using not_less_Least that unfolding T_def by (metis not_less)
    then have "occupied (?b t)" using want_pos(1) [of h t] by simp
    with w live_elem [OF bk_invD(3) [OF inv] bk_invD(4) [OF inv] slot_less [OF n]] show ?thesis by blast
  qed
  with T s(1) show ?thesis by (meson le_less_trans)
qed

text \<open>What a search does at the slots before the one where it stops.\<close>

definition passes :: "bucket list \<Rightarrow> ('k \<times> 'v) list \<Rightarrow> 'k \<Rightarrow> nat \<Rightarrow> 64 word \<Rightarrow> nat \<Rightarrow> bool" where
  "passes bs vs key sh h t \<longleftrightarrow> (let b = bs ! slot (length bs) sh h t in want h t \<le> df b \<and>
     m_value_idx b < length vs \<and> fst (vs ! m_value_idx b) \<noteq> key)"

definition holds_key :: "bucket list \<Rightarrow> nat \<Rightarrow> 64 word \<Rightarrow> nat \<Rightarrow> nat \<Rightarrow> bool" where
  "holds_key bs sh h T j \<longleftrightarrow> (let b = bs ! slot (length bs) sh h T in df b = want h T \<and> m_value_idx b = j)"

definition indexes :: "(nat \<Rightarrow> 64 word) \<Rightarrow> ('k \<Rightarrow> 64 word) \<Rightarrow> ('k \<times> 'v) list \<Rightarrow> nat set \<Rightarrow> bool" where
  "indexes hs H vs S \<longleftrightarrow> (\<forall>i \<in> S. i < length vs \<and> hs i = H (fst (vs ! i))) \<and> inj_on (\<lambda>i. fst (vs ! i)) S"

lemma path_present:
  assumes "bk_inv hs sh S bs" "indexes hs H vs S" "j \<in> S"
  shows "\<exists>T < length bs. holds_key bs sh (H (fst (vs ! j))) T j \<and>
    (\<forall>t < T. passes bs vs (fst (vs ! j)) sh (H (fst (vs ! j))) t)"
proof -
  have h: "hs j = H (fst (vs ! j))" using assms(2,3) by (simp add: indexes_def)
  have "i < length vs \<and> fst (vs ! i) \<noteq> fst (vs ! j)" if "i \<in> S - {j}" for i
    using that assms(2,3) by (auto simp: indexes_def inj_on_def)
  with search_present [OF assms(1,3)] show ?thesis unfolding passes_def holds_key_def h Let_def by blast
qed

lemma path_absent:
  assumes "bk_inv hs sh S bs" "indexes hs H vs S" "key \<notin> (\<lambda>i. fst (vs ! i)) ` S"
  shows "\<exists>T < length bs. df (bs ! slot (length bs) sh h T) < want h T \<and> (\<forall>t < T. passes bs vs key sh h t)"
proof -
  have "i < length vs \<and> fst (vs ! i) \<noteq> key" if "i \<in> S" for i
    using that assms(2,3) by (auto simp: indexes_def)
  with search_absent [OF assms(1), of h] show ?thesis unfolding passes_def Let_def by blast
qed

lemma unroll: "(\<And>t. s \<le> t \<Longrightarrow> t < T \<Longrightarrow> F t = F (Suc t)) \<Longrightarrow> s \<le> T \<Longrightarrow> F s = F (T :: nat)"
  by (induction T) (auto simp: le_Suc_eq)

text \<open>The numbers the loops compute are those of the slots.\<close>

lemma slot_step:
  assumes "bk_inv hs sh S bs" "t < length bs"
  shows "next_idx bs (slot (length bs) sh h t) = slot (length bs) sh h (Suc t)"
    "dist_inc (want h t) = want h (Suc t)" "rd bs (slot (length bs) sh h t) = Some (bs ! slot (length bs) sh h t)"
proof -
  have n: "0 < length bs" "length bs \<le> 2 ^ 23" using bk_inv_length [OF assms(1)] by simp_all
  then have "length bs < 2 ^ 32" by simp
  then show "next_idx bs (slot (length bs) sh h t) = slot (length bs) sh h (Suc t)"
    using next_idx_mod [OF slot_less [OF n(1)]] by (simp add: slot_Suc)
  have "t < 2 ^ 23" using assms(2) n(2) by (rule less_le_trans)
  then show "dist_inc (want h t) = want h (Suc t)" using dist_inc_eq [OF want_less] by (simp add: want_Suc)
  show "rd bs (slot (length bs) sh h t) = Some (bs ! slot (length bs) sh h t)" using slot_less [OF n(1)] by simp
qed

lemma home_slot:
  assumes "bk_inv hs sh S bs"
  shows "bucket_idx_from_hash sh h = slot (length bs) sh h 0"
proof -
  have l: "length bs = 2 ^ (64 - sh)" "41 \<le> sh" "sh \<le> 62" using assms by (auto simp: bk_inv_def)
  have u: "unat (drop_bit sh h) = unat h div 2 ^ sh"
    using unsigned_drop_bit_eq [of sh h, where ?'a = nat] unsigned_less [of h, where ?'a = nat]
    by (simp only: drop_bit_eq_div) (simp add: take_bit_eq_mod)
  have "unat h < 2 ^ (64 - sh) * 2 ^ sh"
    using unsigned_less [of h, where ?'a = nat] l(3) by (simp flip: power_add)
  then have d: "unat h div 2 ^ sh < length bs" unfolding l(1) by (rule less_mult_imp_div_less)
  moreover have "length bs \<le> 2 ^ 23" using bk_inv_length [OF assms] by simp
  ultimately have "unat h div 2 ^ sh < 4294967296" by simp
  with d show ?thesis by (simp add: bucket_idx_from_hash_def u slot_def)
qed

lemma home_want: "dist_and_fingerprint_from_hash h = want h 0"
proof -
  have "(u32 (unat h) AND 255) = unat h mod 256"
  proof -
    have "(u32 (unat h) AND mask 8) = take_bit 8 (u32 (unat h))" by (simp add: take_bit_eq_mask)
    also have "\<dots> = unat h mod 256" by (simp add: take_bit_eq_mod u32_def mod_mod_cancel)
    finally show ?thesis by (simp add: mask_eq_exp_minus_1)
  qed
  moreover have "(256 OR m) = 256 + m" if "m < 256" for m :: nat
  proof -
    have "take_bit 8 m = m" using that by (simp add: take_bit_nat_eq_self)
    then have "\<not> bit m i" if "8 \<le> i" for i using that by (metis bit_take_bit_iff not_le)
    moreover have "bit (256 :: nat) i \<longleftrightarrow> i = 8" for i
      using bit_exp_iff [of 8 i, where ?'a = nat] by (simp add: possible_bit_def)
    ultimately have "\<not> bit (256 :: nat) i \<or> \<not> bit m i" for i by auto
    then show ?thesis by (metis disjunctive_add)
  qed
  ultimately show ?thesis
    by (simp add: dist_and_fingerprint_from_hash_def bucket_dist_inc_def fingerprint_mask_def want_def)
qed

lemma passes_cases: "passes bs vs key sh h t \<Longrightarrow>
  (df (bs ! slot (length bs) sh h t) = want h t \<and>
    (\<exists>k. key_at vs (m_value_idx (bs ! slot (length bs) sh h t)) = Some k \<and> key \<noteq> k)) \<or>
  want h t < df (bs ! slot (length bs) sh h t)"
  by (auto simp: passes_def key_at_def Let_def)

lemma find_loop_pass:
  assumes "bk_inv hs sh S bs" "t < length bs" "passes bs vs key sh h t"
  shows "find_loop bs vs key (want h t) (slot (length bs) sh h t) =
    find_loop bs vs key (want h (Suc t)) (slot (length bs) sh h (Suc t))"
  using passes_cases [OF assms(3)] slot_step [OF assms(1,2)]
  by (elim disjE conjE exE; subst find_loop.simps; simp)

lemma find_unrolled_pass:
  assumes "bk_inv hs sh S bs" "t < length bs" "passes bs vs key sh h t"
  shows "find_unrolled bs vs key (want h t) (slot (length bs) sh h t) = Some nullopt"
  using passes_cases [OF assms(3)] slot_step [OF assms(1,2)]
  by (elim disjE conjE exE) (simp_all add: find_unrolled_def)

lemma find_loop_at:
  assumes "bk_inv hs sh S bs" "s \<le> T" "T < length bs" "\<forall>t < T. passes bs vs key sh h t"
  shows "find_loop bs vs key (want h s) (slot (length bs) sh h s) =
    find_loop bs vs key (want h T) (slot (length bs) sh h T)"
  using assms by (intro unroll [of s T "\<lambda>t. find_loop bs vs key (want h t) (slot (length bs) sh h t)"])
    (auto intro: find_loop_pass)

end
