(* ===== verification/FlatMapLaws.thy ===== *)
theory FlatMapLaws
  imports RobinHood Interfaces
begin

text \<open>
  The table of \<open>flat_map.h\<close> as a map: its invariant, what every operation does to the stored pairs,
  and the instance of the locale \<open>dictionary\<close>.  The laws are for tables of at most \<open>2^23\<close> buckets, in
  which no distance can overflow its 24 bits, and for load factors below 1.
\<close>

subsection \<open>The invariant of the table\<close>

definition table_inv :: "('k, 'v) table \<Rightarrow> bool" where
  "table_inv t \<longleftrightarrow>
     bk_inv (\<lambda>j. mixed_hash t (fst (m_values t ! j))) (m_shifts t) {..<length (m_values t)} (m_buckets t) \<and>
     distinct (map fst (m_values t)) \<and> m_max_load_factor t < 2 ^ 24 \<and>
     m_max_bucket_capacity t = load_cap (m_max_load_factor t) (bucket_count t)"

lemma load_cap_less: "mlf < 2 ^ 24 \<Longrightarrow> 0 < n \<Longrightarrow> load_cap mlf n < n"
  unfolding load_cap_def by (rule less_mult_imp_div_less) simp

lemma indexes_all:
  "distinct (map fst vs) \<Longrightarrow> indexes (\<lambda>j. H (fst (vs ! j))) H vs {..<length vs}"
  by (auto simp: indexes_def inj_on_def distinct_conv_nth)

lemma keys_all: "(\<lambda>i. fst (vs ! i)) ` {..<length vs} = fst ` set vs"
proof -
  have "set vs = (!) vs ` {..<length vs}" by (auto simp: set_conv_nth)
  then show ?thesis by (simp add: image_image)
qed

lemma find_loop_present:
  assumes "bk_inv hs sh S bs" "T < length bs" "holds_key bs sh h T j" "j < length vs" "fst (vs ! j) = key"
  shows "find_loop bs vs key (want h T) (slot (length bs) sh h T) = Some j"
    "find_unrolled bs vs key (want h T) (slot (length bs) sh h T) = Some (Val j)"
proof -
  note f = assms(3-5) slot_step(3) [OF assms(1,2), of h]
  from f show "find_loop bs vs key (want h T) (slot (length bs) sh h T) = Some j"
    by (subst find_loop.simps) (simp add: holds_key_def Let_def key_at_def)
  from f show "find_unrolled bs vs key (want h T) (slot (length bs) sh h T) = Some (Val j)"
    by (simp add: holds_key_def Let_def key_at_def find_unrolled_def)
qed

lemma find_loop_absent:
  assumes "bk_inv hs sh S bs" "T < length bs" "df (bs ! slot (length bs) sh h T) < want h T"
  shows "find_loop bs vs key (want h T) (slot (length bs) sh h T) = Some (length vs)"
    "find_unrolled bs vs key (want h T) (slot (length bs) sh h T) = Some nullopt"
proof -
  note f = assms(3) slot_step(3) [OF assms(1,2), of h]
  from f show "find_loop bs vs key (want h T) (slot (length bs) sh h T) = Some (length vs)"
    by (subst find_loop.simps) simp
  from f show "find_unrolled bs vs key (want h T) (slot (length bs) sh h T) = Some nullopt"
    by (simp add: find_unrolled_def)
qed

text \<open>The result of \<open>do_find\<close> from the point where the search stops.\<close>

lemma do_find_by_path:
  assumes inv: "bk_inv hs sh S bs" and T: "T < length bs" "\<forall>t < T. passes bs vs key sh h t" and ne: "vs \<noteq> []"
    and stop: "(holds_key bs sh h T j \<and> j < length vs \<and> fst (vs ! j) = key \<and> r = j) \<or>
      (df (bs ! slot (length bs) sh h T) < want h T \<and> r = length vs)"
  shows "do {
       r \<leftarrow> find_unrolled bs vs key (want h 0) (slot (length bs) sh h 0);
       case r of Val it \<Rightarrow> Some it
       | nullopt \<Rightarrow> do {
           let df = dist_inc (want h 0);
           let i = next_idx bs (slot (length bs) sh h 0);
           r \<leftarrow> find_unrolled bs vs key df i;
           case r of Val it \<Rightarrow> Some it
           | nullopt \<Rightarrow> find_loop bs vs key (dist_inc df) (next_idx bs i) } } = Some r"
proof -
  have n: "4 \<le> length bs"
    using inv power_increasing [of 2 "64 - sh" "2 :: nat"] by (auto simp: bk_inv_def)
  have length_pos: "bs \<noteq> []" using n by auto
  note st = slot_step [OF inv]
  note pass = find_unrolled_pass [OF inv, of _ vs key h]
  have st01: "dist_inc (want h 0) = want h 1" "dist_inc (want h 1) = want h 2"
    "next_idx bs (slot (length bs) sh h 0) = slot (length bs) sh h 1"
    "next_idx bs (slot (length bs) sh h 1) = slot (length bs) sh h 2"
    using st(1,2) [of 0] st(1,2) [of 1] length_pos n by (simp_all add: numeral_2_eq_2)
  from stop show ?thesis
  proof
    assume p: "holds_key bs sh h T j \<and> j < length vs \<and> fst (vs ! j) = key \<and> r = j"
    then have h: "holds_key bs sh h T j" "j < length vs" "fst (vs ! j) = key" by blast+
    note found = find_loop_present [OF inv T(1) h]
    consider "T = 0" | "T = 1" | "2 \<le> T" by linarith
    then show ?thesis
    proof cases
      case 1
      then show ?thesis using found p by simp
    next
      case 2
      then show ?thesis using found p pass [of 0] T n length_pos by (simp add: st01 [unfolded One_nat_def])
    next
      case 3
      then have "0 < T" "1 < T" by simp_all
      with 3 show ?thesis using found p pass [of 0] pass [of 1] T n length_pos find_loop_at [OF inv 3 T]
        by (simp add: st01 del: One_nat_def)
    qed
  next
    assume p: "df (bs ! slot (length bs) sh h T) < want h T \<and> r = length vs"
    then have p1: "df (bs ! slot (length bs) sh h T) < want h T" and p2: "r = length vs" by blast+
    have late: "df (bs ! slot (length bs) sh h t) < want h t" if "T \<le> t" for t
      using descend_strict [OF bk_invD(2) [OF inv], of sh h T t] p that length_pos by simp
    have un: "find_unrolled bs vs key (want h t) (slot (length bs) sh h t) = Some nullopt" if "t < length bs" for t
      using pass [of t] find_loop_absent(2) [OF inv that late] T that by (cases "t < T") auto
    have "find_loop bs vs key (want h 2) (slot (length bs) sh h 2) = Some r"
    proof (cases "2 \<le> T")
      case True
      then show ?thesis using find_loop_at [OF inv True T] find_loop_absent(1) [OF inv T(1) p1] p2 by simp
    next
      case False
      then show ?thesis using find_loop_absent(1) [OF inv, of 2] late [of 2] p n by simp
    qed
    then show ?thesis using un [of 0] un [of 1] n length_pos by (simp add: st01 del: One_nat_def)
  qed
qed

lemma do_find_eq:
  assumes "table_inv t"
  shows "(\<exists>j < length (m_values t). fst (m_values t ! j) = key \<and> do_find t key = Some j) \<or>
    (key \<notin> fst ` set (m_values t) \<and> do_find t key = Some (length (m_values t)))"
proof (cases "m_values t = []")
  case True
  then show ?thesis by (simp add: do_find_def)
next
  case False
  let ?hs = "\<lambda>j. mixed_hash t (fst (m_values t ! j))" and ?bs = "m_buckets t" and ?vs = "m_values t"
  let ?h = "mixed_hash t key"
  have inv: "bk_inv ?hs (m_shifts t) {..<length ?vs} ?bs" and d: "distinct (map fst ?vs)"
    using assms by (auto simp: table_inv_def)
  note ix = indexes_all [OF d, of "mixed_hash t"]
  have hm: "home_dist t key = want ?h 0" "home_idx t key = slot (length ?bs) (m_shifts t) ?h 0"
    by (simp_all add: home_dist_def home_idx_def home_want home_slot [OF inv])
  show ?thesis
  proof (cases "key \<in> fst ` set ?vs")
    case True
    then obtain j where j: "j < length ?vs" "fst (?vs ! j) = key" by (auto simp: in_set_conv_nth)
    obtain T where T: "T < length ?bs" "holds_key ?bs (m_shifts t) ?h T j"
      "\<forall>s < T. passes ?bs ?vs key (m_shifts t) ?h s"
      using path_present [OF inv ix, of j] j by auto
    then have "do_find t key = Some j"
      unfolding do_find_def hm Let_def using False j
      by (subst if_not_P, simp) (rule do_find_by_path [OF inv T(1) T(3) False, unfolded Let_def], blast)
    with j show ?thesis by blast
  next
    case nk: False
    obtain T where T: "T < length ?bs" "df (?bs ! slot (length ?bs) (m_shifts t) ?h T) < want ?h T"
      "\<forall>s < T. passes ?bs ?vs key (m_shifts t) ?h s"
      using path_absent [OF inv ix, of key ?h] nk by (auto simp: keys_all)
    then have "do_find t key = Some (length ?vs)"
      unfolding do_find_def hm Let_def using False
      by (subst if_not_P, simp) (rule do_find_by_path [OF inv T(1) T(3) False, unfolded Let_def], blast)
    with nk show ?thesis by blast
  qed
qed

subsection \<open>Erasing\<close>

lemma bk_inv_cong:
  assumes "bk_inv hs sh S bs" "\<And>j. j \<in> S \<Longrightarrow> hs' j = hs j"
  shows "bk_inv hs' sh S bs"
proof -
  have "seat hs' sh (length bs) k (bs ! k)" if "k < length bs" for k
  proof -
    have "seat hs sh (length bs) k (bs ! k)" using bk_invD(1) [OF assms(1)] that by (simp add: seated_nth)
    moreover have "occupied (bs ! k) \<Longrightarrow> hs' (m_value_idx (bs ! k)) = hs (m_value_idx (bs ! k))"
      using live_elem [OF bk_invD(3) [OF assms(1)] bk_invD(4) [OF assms(1)] that] assms(2) by blast
    ultimately show ?thesis by (auto simp: seat_def)
  qed
  then show ?thesis using assms(1) by (simp add: bk_inv_def seated_nth)
qed

lemma find_value_idx_found:
  assumes inv: "bk_inv hs sh S bs" and l: "l \<in> S"
  shows "\<exists>i < length bs. find_value_idx bs l (slot (length bs) sh (hs l) 0) = Some i \<and>
    occupied (bs ! i) \<and> m_value_idx (bs ! i) = l"
proof -
  obtain T where T: "T < length bs" "df (bs ! slot (length bs) sh (hs l) T) = want (hs l) T"
    "m_value_idx (bs ! slot (length bs) sh (hs l) T) = l"
    "\<forall>t < T. m_value_idx (bs ! slot (length bs) sh (hs l) t) \<noteq> l"
    using search_present [OF inv l] by blast
  have "find_value_idx bs l (slot (length bs) sh (hs l) 0) = find_value_idx bs l (slot (length bs) sh (hs l) T)"
  proof (rule unroll [where F = "\<lambda>t. find_value_idx bs l (slot (length bs) sh (hs l) t)"])
    fix t assume "t < T"
    then show "find_value_idx bs l (slot (length bs) sh (hs l) t) = find_value_idx bs l (slot (length bs) sh (hs l) (Suc t))"
      using slot_step [OF inv, of t "hs l"] T by (subst find_value_idx.simps) (auto simp: eq_commute)
  qed simp
  also have "\<dots> = Some (slot (length bs) sh (hs l) T)"
    using slot_step(3) [OF inv T(1)] T(3) by (subst find_value_idx.simps) simp
  finally show ?thesis
    using T want_pos(1) [of "hs l" T] bk_inv_length [OF inv] slot_less [of "length bs" sh "hs l" T] by auto
qed

lemma ring_ok_df: "map df xs = map df ys \<Longrightarrow> ring_ok xs \<longleftrightarrow> ring_ok ys"
proof -
  have r: "ring_ok xs \<longleftrightarrow> (\<forall>i < length xs. df (xs ! (Suc i mod length xs)) \<ge> 512 \<longrightarrow>
      df (xs ! (Suc i mod length xs)) \<le> df (xs ! i) + 256)" for xs
  proof
    assume "ring_ok xs"
    then show "\<forall>i < length xs. df (xs ! (Suc i mod length xs)) \<ge> 512 \<longrightarrow>
      df (xs ! (Suc i mod length xs)) \<le> df (xs ! i) + 256"
      using ring_ok_nth by (auto simp: pair_ok_def)
  next
    assume a: "\<forall>i < length xs. df (xs ! (Suc i mod length xs)) \<ge> 512 \<longrightarrow>
      df (xs ! (Suc i mod length xs)) \<le> df (xs ! i) + 256"
    have "pair_ok ((xs @ [hd xs]) ! i) ((xs @ [hd xs]) ! Suc i)" if "i < length xs" for i
    proof (cases "Suc i < length xs")
      case True
      then show ?thesis using spec [OF a, of i] that by (auto simp: pair_ok_def nth_append)
    next
      case False
      then have "Suc i = length xs" "xs \<noteq> []" using that by auto
      moreover from this have "df (xs ! 0) \<ge> 512 \<longrightarrow> df (xs ! 0) \<le> df (xs ! i) + 256" using spec [OF a, of i] that by simp
      ultimately show ?thesis using that by (auto simp: pair_ok_def nth_append hd_conv_nth)
    qed
    then show "ring_ok xs" unfolding ring_ok_def successively_conv_nth by simp
  qed
  assume m: "map df xs = map df ys"
  then have "length xs = length ys" "\<And>i. i < length xs \<Longrightarrow> df (xs ! i) = df (ys ! i)"
    by (metis length_map, metis length_map nth_map)
  then show ?thesis unfolding r by (metis mod_less_divisor bot_nat_0.not_eq_extremum not_less_zero)
qed

lemma relocate_inv:
  assumes inv: "bk_inv hs sh S bs" and i: "i < length bs" "occupied (bs ! i)" "m_value_idx (bs ! i) = l"
    and r: "r \<notin> S" and hs': "hs' r = hs l" "\<And>j. j \<in> S - {l} \<Longrightarrow> hs' j = hs j"
  shows "bk_inv hs' sh (insert r (S - {l})) (bs[i := (bs ! i)\<lparr>m_value_idx := r\<rparr>])"
proof -
  let ?b = "(bs ! i)\<lparr>m_value_idx := r\<rparr>"
  have l: "l \<in> S" using live_elem [OF bk_invD(3) [OF inv] bk_invD(4) [OF inv] i(1,2)] i(3) by simp
  have "seat hs' sh (length bs) k (bs[i := ?b] ! k)" if k: "k < length bs" for k
  proof -
    have s: "seat hs sh (length bs) k (bs ! k)" using bk_invD(1) [OF inv] k by (simp add: seated_nth)
    show ?thesis
    proof (cases "k = i")
      case True
      with s i hs'(1) show ?thesis by (simp add: seat_def)
    next
      case False
      have "m_value_idx (bs ! k) \<in> S - {l}" if "occupied (bs ! k)"
        using live_elem [OF bk_invD(3) [OF inv] bk_invD(4) [OF inv] k that]
          live_inj [OF bk_invD(3) [OF inv] k i(1) that i(2)] i(3) False by auto
      with s hs'(2) False show ?thesis by (auto simp: seat_def)
    qed
  qed
  moreover have "map df (bs[i := ?b]) = map df bs"
    using i(1) by (simp add: map_update) (metis list_update_id nth_map)
  then have "ring_ok (bs[i := ?b])" using bk_invD(2) [OF inv] ring_ok_df by blast
  moreover have "live (bs[i := ?b]) = mset_set (insert r (S - {l}))"
  proof -
    have "live bs = live (take i bs @ bs ! i # drop (Suc i) bs)" using i(1) by (simp add: id_take_nth_drop [symmetric])
    then have "live bs = add_mset l (live (take i bs) + live (drop (Suc i) bs))" using i by simp
    moreover have "live (bs[i := ?b]) = add_mset r (live (take i bs) + live (drop (Suc i) bs))"
      using i by (simp add: upd_conv_take_nth_drop)
    ultimately have "live (bs[i := ?b]) = add_mset r (live bs - {#l#})" by simp
    then show ?thesis using bk_invD(3,4) [OF inv] r l by (simp add: mset_set_Diff)
  qed
  moreover have "card (insert r (S - {l})) = card S"
    using bk_invD(4) [OF inv] r l by (simp add: card_Diff_singleton Suc_pred card_gt_0_iff) (metis Suc_pred card_gt_0_iff empty_iff)
  ultimately show ?thesis using inv by (simp add: bk_inv_def seated_nth)
qed

text \<open>The values and the hash that decide where the keys of a table belong.\<close>

lemma mixed_hash_update [simp]:
  "mixed_hash (t\<lparr>m_values := vs\<rparr>) = mixed_hash t" "mixed_hash (t\<lparr>m_buckets := bs\<rparr>) = mixed_hash t"
  by (simp_all add: mixed_hash_def fun_eq_iff)

lemma remove_by_last:
  assumes "r < length vs" "distinct (map fst vs)"
  defines "ws \<equiv> butlast (vs[r := last vs])"
  shows "map_of ws = (map_of vs)(fst (vs ! r) := None)" "distinct (map fst ws)" "mset ws = mset vs - {#vs ! r#}"
proof -
  obtain as x where v: "vs = as @ [x]" using assms(1) by (metis length_greater_0_conv gr_implies_not0 rev_exhaust list.size(3))
  show m: "mset ws = mset vs - {#vs ! r#}"
    using assms(1) by (cases "r = length as") (simp_all add: ws_def v mset_update nth_append list_update_append butlast_append split: if_splits)
  have d: "distinct (map fst ws)"
    using assms(1,2) by (cases "r = length as")
      (auto simp: ws_def v list_update_append butlast_append map_update intro!: distinct_list_update)
  then show "distinct (map fst ws)" .
  have sw: "set ws = set vs - {vs ! r}"
  proof -
    have "distinct vs" using assms(2) by (simp add: distinct_map)
    then have "mset vs = mset_set (set vs)" by (simp add: mset_set_set)
    then have "mset ws = mset_set (set vs - {vs ! r})" using assms(1) by (simp add: m mset_set_Diff)
    then show ?thesis by (metis finite_set_mset_mset_set finite_Diff finite_set set_mset_mset)
  qed
  show "map_of ws = (map_of vs)(fst (vs ! r) := None)"
  proof
    fix k
    have "map_of ws k = Some v \<longleftrightarrow> ((map_of vs)(fst (vs ! r) := None)) k = Some v" for v
    proof -
      have "map_of ws k = Some v \<longleftrightarrow> (k, v) \<in> set vs \<and> (k, v) \<noteq> vs ! r"
        using d sw by (simp add: map_of_eq_Some_iff)
      moreover have "(k, v) \<in> set vs \<Longrightarrow> fst (vs ! r) = k \<Longrightarrow> (k, v) = vs ! r"
        using assms(1,2) by (metis distinct_map eq_key_imp_eq_value nth_mem prod.collapse)
      ultimately show ?thesis using assms(2) by (cases "vs ! r") (auto simp: map_of_eq_Some_iff)
    qed
    then show "map_of ws k = ((map_of vs)(fst (vs ! r) := None)) k"
      by (metis option.exhaust_sel not_Some_eq)
  qed
qed

lemma table_invD:
  assumes "table_inv t"
  shows "bk_inv (\<lambda>j. mixed_hash t (fst (m_values t ! j))) (m_shifts t) {..<length (m_values t)} (m_buckets t)"
    "distinct (map fst (m_values t))" "length (m_values t) < length (m_buckets t)" "length (m_buckets t) \<le> 2 ^ 23"
    "m_max_bucket_capacity t < length (m_buckets t)" "m_max_load_factor t < 2 ^ 24"
    "length (m_values t) < 2 ^ 32" "length (m_buckets t) = 2 ^ (64 - m_shifts t)" "41 \<le> m_shifts t" "m_shifts t \<le> 62"
    "m_max_bucket_capacity t = load_cap (m_max_load_factor t) (length (m_buckets t))"
proof -
  show 1: "bk_inv (\<lambda>j. mixed_hash t (fst (m_values t ! j))) (m_shifts t) {..<length (m_values t)} (m_buckets t)"
    "distinct (map fst (m_values t))" "m_max_load_factor t < 2 ^ 24"
    "m_max_bucket_capacity t = load_cap (m_max_load_factor t) (length (m_buckets t))"
    using assms by (auto simp: table_inv_def bucket_count_def)
  show "m_max_bucket_capacity t < length (m_buckets t)"
    using load_cap_less [OF 1(3)] bk_inv_length [OF 1(1)] by (simp add: 1(4))
  show "length (m_values t) < length (m_buckets t)" using bk_invD(5) [OF 1(1)] by simp
  moreover show "length (m_buckets t) \<le> 2 ^ 23" using bk_inv_length [OF 1(1)] by simp
  ultimately show "length (m_values t) < 2 ^ 32" by simp
  show "length (m_buckets t) = 2 ^ (64 - m_shifts t)" "41 \<le> m_shifts t" "m_shifts t \<le> 62"
    using 1(1) by (auto simp: bk_inv_def)
qed

lemma home_idx_slot: "table_inv t \<Longrightarrow> home_idx t key = slot (length (m_buckets t)) (m_shifts t) (mixed_hash t key) 0"
  using home_slot [OF table_invD(1)] by (simp add: home_idx_def)

lemma home_dist_want: "home_dist t key = want (mixed_hash t key) 0"
  by (simp add: home_dist_def home_want)

text \<open>Erasing the bucket of a value index removes that value and moves the last one into its place.\<close>

definition drop_value :: "nat \<Rightarrow> ('k \<times> 'v) list \<Rightarrow> ('k \<times> 'v) list" where
  "drop_value r vs = butlast (vs[r := last vs])"

lemma length_drop_value [simp]: "length (drop_value r vs) = length vs - 1"
  by (simp add: drop_value_def)

lemma do_erase_ok:
  assumes inv: "table_inv t" and i: "i < length (m_buckets t)" "occupied (m_buckets t ! i)"
    "m_value_idx (m_buckets t ! i) = r"
  shows "\<exists>bs. do_erase t i = Some (m_values t ! r, t\<lparr>m_values := drop_value r (m_values t), m_buckets := bs\<rparr>) \<and>
    table_inv (t\<lparr>m_values := drop_value r (m_values t), m_buckets := bs\<rparr>)"
proof -
  let ?vs = "m_values t" and ?hs = "\<lambda>j. mixed_hash t (fst (m_values t ! j))" and ?sh = "m_shifts t"
  let ?ws = "drop_value r ?vs" and ?l = "length (m_values t) - 1"
  note D = table_invD [OF inv]
  have r: "r < length ?vs" using live_elem [OF bk_invD(3) [OF D(1)] bk_invD(4) [OF D(1)] i(1,2)] i(3) by simp
  then have ne: "?vs \<noteq> []" "?l < length ?vs" by auto
  have lastl: "last ?vs = ?vs ! ?l" using ne by (simp add: last_conv_nth)
  obtain bs where bs: "erase_and_shift_down (m_buckets t) i = Some bs" "length bs = length (m_buckets t)"
    "bk_inv ?hs ?sh ({..<length ?vs} - {r}) bs"
    using erase_inv [OF D(1) i(1,2)] i(3) by blast
  have rdi: "rd (m_buckets t) i = Some (m_buckets t ! i)" using i(1) by simp
  have u: "u32 ?l = ?l" using D(7) by simp
  have dist: "distinct (map fst ?ws)" using remove_by_last(2) [OF r D(2)] by (simp add: drop_value_def)
  have nth_ws: "?ws ! j = (if j = r then ?vs ! ?l else ?vs ! j)" if "j < ?l" for j
    using that r by (auto simp: drop_value_def nth_butlast lastl)
  show ?thesis
  proof (cases "r = ?l")
    case True
    then have S: "{..<length ?vs} - {r} = {..<length ?ws}" using r by auto
    have "bk_inv (\<lambda>j. mixed_hash t (fst (?ws ! j))) ?sh {..<length ?ws} bs"
      by (rule bk_inv_cong [OF bs(3) [unfolded S]]) (use nth_ws True in auto)
    then have "table_inv (t\<lparr>m_values := ?ws, m_buckets := bs\<rparr>)"
      using dist bs(2) D(6,11) by (simp add: table_inv_def bucket_count_def)
    moreover have "butlast ?vs = ?ws" using True ne by (simp add: drop_value_def lastl)
    ultimately show ?thesis using bs(1) rdi i(3) r True by (auto simp: do_erase_def Let_def)
  next
    case False
    then have l: "?l \<in> {..<length ?vs} - {r}" using ne by auto
    obtain j where j: "j < length bs" "find_value_idx bs ?l (slot (length bs) ?sh (?hs ?l) 0) = Some j"
      "occupied (bs ! j)" "m_value_idx (bs ! j) = ?l"
      using find_value_idx_found [OF bs(3) l] by blast
    let ?bs = "bs[j := (bs ! j)\<lparr>m_value_idx := r\<rparr>]"
    have S: "insert r ({..<length ?vs} - {r} - {?l}) = {..<length ?ws}" using r False by auto
    have "bk_inv (\<lambda>j. mixed_hash t (fst (?ws ! j))) ?sh (insert r ({..<length ?vs} - {r} - {?l})) ?bs"
    proof (rule relocate_inv [OF bs(3) j(1,3,4)])
      show "mixed_hash t (fst (?ws ! r)) = ?hs ?l" using nth_ws [of r] r False by simp
      show "mixed_hash t (fst (?ws ! k)) = ?hs k" if "k \<in> {..<length ?vs} - {r} - {?l}" for k
        using nth_ws [of k] that by auto
    qed simp
    then have "table_inv (t\<lparr>m_values := ?ws, m_buckets := ?bs\<rparr>)"
      using dist bs(2) D(6,11) unfolding S by (simp add: table_inv_def bucket_count_def)
    moreover have "do_erase t i = Some (?vs ! r, t\<lparr>m_values := ?ws, m_buckets := ?bs\<rparr>)"
      using bs(1) rdi i(3) r False ne j(1) j(2) u home_idx_slot [OF inv, of "fst (?vs ! ?l)"]
      by (simp add: do_erase_def Let_def drop_value_def lastl bs(2))
    ultimately show ?thesis by blast
  qed
qed

lemma next_while_less_stops:
  assumes inv: "bk_inv hs sh S bs" and T: "T < length bs" "df (bs ! slot (length bs) sh h T) \<le> want h T"
  shows "\<exists>s \<le> T. next_while_less_loop bs (want h 0) (slot (length bs) sh h 0) =
      Some (want h s, slot (length bs) sh h s) \<and> df (bs ! slot (length bs) sh h s) \<le> want h s \<and>
    (\<forall>t < s. want h t < df (bs ! slot (length bs) sh h t))"
proof -
  let ?b = "\<lambda>t. bs ! slot (length bs) sh h t"
  define s where "s = (LEAST t. df (?b t) \<le> want h t)"
  have s: "df (?b s) \<le> want h s" "s \<le> T"
    unfolding s_def using LeastI [of "\<lambda>t. df (?b t) \<le> want h t", OF T(2)]
      Least_le [of "\<lambda>t. df (?b t) \<le> want h t", OF T(2)] by blast+
  have less: "want h t < df (?b t)" if "t < s" for t
    using not_less_Least that unfolding s_def by (metis not_less)
  have "next_while_less_loop bs (want h 0) (slot (length bs) sh h 0) = next_while_less_loop bs (want h s) (slot (length bs) sh h s)"
  proof (rule unroll [where F = "\<lambda>t. next_while_less_loop bs (want h t) (slot (length bs) sh h t)"])
    fix t assume "t < s"
    then show "next_while_less_loop bs (want h t) (slot (length bs) sh h t) =
        next_while_less_loop bs (want h (Suc t)) (slot (length bs) sh h (Suc t))"
      using slot_step [OF inv, of t h] less T(1) s(2) by (subst next_while_less_loop.simps) simp
  qed simp
  also have "\<dots> = Some (want h s, slot (length bs) sh h s)"
    using slot_step(3) [OF inv, of s h] s T(1) by (subst next_while_less_loop.simps) simp
  finally show ?thesis using s less by blast
qed

lemma erase_key_loop_at:
  assumes inv: "bk_inv hs sh S bs" and s: "s \<le> T" "T < length bs" "df (bs ! slot (length bs) sh h s) \<le> want h s"
    and p: "\<forall>t < T. passes bs vs key sh h t"
  shows "erase_key_loop bs vs key (want h s) (slot (length bs) sh h s) =
    erase_key_loop bs vs key (want h T) (slot (length bs) sh h T)"
proof (rule unroll [where F = "\<lambda>t. erase_key_loop bs vs key (want h t) (slot (length bs) sh h t)"])
  fix t assume t: "s \<le> t" "t < T"
  then have "df (bs ! slot (length bs) sh h t) \<le> want h t"
    using descend [OF bk_invD(2) [OF inv] _ s(3)] bk_inv_length [OF inv] by blast
  then show "erase_key_loop bs vs key (want h t) (slot (length bs) sh h t) =
      erase_key_loop bs vs key (want h (Suc t)) (slot (length bs) sh h (Suc t))"
    using passes_cases [of bs vs key sh h t] p t slot_step [OF inv, of t h] s(2)
    by (subst erase_key_loop.simps) auto
qed (rule s(1))

lemma do_erase_key_ok:
  assumes inv: "table_inv t"
  shows "\<exists>t'. do_erase_key t key = Some (map_option (Pair key) (map_of (m_values t) key), t') \<and>
    table_inv t' \<and> map_of (m_values t') = (map_of (m_values t))(key := None) \<and>
    m_max_load_factor t' = m_max_load_factor t"
proof (cases "m_values t = []")
  case True
  with inv show ?thesis by (simp add: do_erase_key_def)
next
  case False
  let ?vs = "m_values t" and ?bs = "m_buckets t" and ?h = "mixed_hash t key" and ?sh = "m_shifts t"
  note D = table_invD [OF inv]
  note ix = indexes_all [OF D(2), of "mixed_hash t"]
  have nw: "next_while_less t key = next_while_less_loop ?bs (want ?h 0) (slot (length ?bs) ?sh ?h 0)"
    by (simp add: next_while_less_def home_idx_slot [OF inv] home_dist_want)
  have main: "\<exists>T < length ?bs. \<exists>b. b = ?bs ! slot (length ?bs) ?sh ?h T \<and>
      df b \<le> want ?h T \<and> (\<forall>s < T. passes ?bs ?vs key ?sh ?h s) \<and>
      (df b = want ?h T \<longrightarrow> m_value_idx b < length ?vs \<and> fst (?vs ! m_value_idx b) = key) \<and>
      (df b = want ?h T \<longleftrightarrow> key \<in> fst ` set ?vs)"
  proof (cases "key \<in> fst ` set ?vs")
    case True
    then obtain j where j: "j < length ?vs" "fst (?vs ! j) = key" by (auto simp: in_set_conv_nth)
    with path_present [OF D(1) ix, of j] True show ?thesis by (fastforce simp: holds_key_def Let_def)
  next
    case nk: False
    with path_absent [OF D(1) ix, of key ?h] show ?thesis by (fastforce simp: keys_all)
  qed
  then obtain T b where T: "T < length ?bs" "b = ?bs ! slot (length ?bs) ?sh ?h T" "df b \<le> want ?h T"
    "\<forall>s < T. passes ?bs ?vs key ?sh ?h s"
    and eq: "df b = want ?h T \<Longrightarrow> m_value_idx b < length ?vs \<and> fst (?vs ! m_value_idx b) = key"
    and iff: "df b = want ?h T \<longleftrightarrow> key \<in> fst ` set ?vs" by blast
  obtain s where s: "s \<le> T" "next_while_less t key = Some (want ?h s, slot (length ?bs) ?sh ?h s)"
    "df (?bs ! slot (length ?bs) ?sh ?h s) \<le> want ?h s"
    using next_while_less_stops [OF D(1) T(1)] T(2,3) unfolding nw by blast
  have rdT: "rd ?bs (slot (length ?bs) ?sh ?h T) = Some b" using slot_step(3) [OF D(1) T(1)] T(2) by simp
  have "erase_key_loop ?bs ?vs key (want ?h T) (slot (length ?bs) ?sh ?h T) = Some (want ?h T, slot (length ?bs) ?sh ?h T)"
    using rdT eq by (subst erase_key_loop.simps) (auto simp: key_at_def)
  then have loop: "erase_key_loop ?bs ?vs key (want ?h s) (slot (length ?bs) ?sh ?h s) = Some (want ?h T, slot (length ?bs) ?sh ?h T)"
    using erase_key_loop_at [OF D(1) s(1) T(1) s(3) T(4)] by simp
  show ?thesis
  proof (cases "df b = want ?h T")
    case True
    let ?r = "m_value_idx b"
    have r: "?r < length ?vs" "fst (?vs ! ?r) = key" using eq [OF True] by blast+
    have "slot (length ?bs) ?sh ?h T < length ?bs" "occupied b"
      using slot_less [OF order.strict_trans1 [OF _ T(1)], of ?sh ?h T] True want_pos(1) [of ?h T] by auto
    then obtain bs where bs: "do_erase t (slot (length ?bs) ?sh ?h T) = Some (?vs ! ?r, t\<lparr>m_values := drop_value ?r ?vs, m_buckets := bs\<rparr>)"
      "table_inv (t\<lparr>m_values := drop_value ?r ?vs, m_buckets := bs\<rparr>)"
      using do_erase_ok [OF inv, of "slot (length ?bs) ?sh ?h T" ?r] T(2) by blast
    have "map_of ?vs key = Some (snd (?vs ! ?r))"
      using r D(2) by (metis map_of_is_SomeI nth_mem prod.collapse)
    moreover have "map_of (drop_value ?r ?vs) = (map_of ?vs)(key := None)"
      using remove_by_last(1) [OF r(1) D(2)] r(2) by (simp add: drop_value_def)
    moreover have "?vs ! ?r = (key, snd (?vs ! ?r))" using r(2) by (metis prod.collapse)
    ultimately show ?thesis using False s(2) loop rdT bs True by (simp add: do_erase_key_def)
  next
    case ne: False
    then have "map_of ?vs key = None" using iff by (simp add: map_of_eq_None_iff)
    then have "(map_of ?vs)(key := None) = map_of ?vs" by auto
    then show ?thesis using False s(2) loop rdT ne inv \<open>map_of ?vs key = None\<close>
      by (auto simp: do_erase_key_def)
  qed
qed

subsection \<open>Filling and growing\<close>

lemma bk_inv_empty:
  assumes "41 \<le> sh" "sh \<le> 62"
  shows "bk_inv hs sh {} (replicate (2 ^ (64 - sh)) no_bucket)"
proof -
  have e: "df no_bucket = 0" by (simp add: no_bucket_def)
  have "live (replicate n no_bucket) = {#}" for n by (induction n) (simp_all add: e)
  moreover have "seated hs sh n i (replicate k no_bucket)" for n i k
    by (induction k arbitrary: i) (simp_all add: seat_def e)
  moreover have "ring_ok (replicate n no_bucket)" for n
  proof -
    have "successively pair_ok (replicate n no_bucket)" for n
      by (induction n rule: induct_nat_012) (simp_all add: pair_ok_def e)
    from this [of "Suc n"] show ?thesis
      by (cases n) (simp_all add: ring_ok_def replicate_append_same)
  qed
  ultimately show ?thesis using assms by (simp add: bk_inv_def)
qed

lemma clear_and_fill_ok:
  assumes sh: "41 \<le> m_shifts t" "m_shifts t \<le> 62" "length (m_buckets t) = 2 ^ (64 - m_shifts t)"
    and vs: "distinct (map fst (m_values t))" "length (m_values t) < length (m_buckets t)"
  shows "\<exists>bs. clear_and_fill_buckets_from_values t = Some (t\<lparr>m_buckets := bs\<rparr>) \<and>
    bk_inv (\<lambda>j. mixed_hash t (fst (m_values t ! j))) (m_shifts t) {..<length (m_values t)} bs"
proof -
  let ?vs = "m_values t" and ?sh = "m_shifts t" and ?n = "length (m_buckets t)"
  let ?hs = "\<lambda>j. mixed_hash t (fst (m_values t ! j))"
  have loop: "\<exists>bs'. fill_loop [j..<length ?vs] (t\<lparr>m_buckets := bs\<rparr>) = Some (t\<lparr>m_buckets := bs'\<rparr>) \<and>
      bk_inv ?hs ?sh {..<length ?vs} bs'"
    if "bk_inv ?hs ?sh {..<j} bs" "length bs = ?n" "j \<le> length ?vs" for j bs
    using that
  proof (induction "length ?vs - j" arbitrary: j bs)
    case 0
    then show ?case by auto
  next
    case (Suc m)
    then have j: "j < length ?vs" by simp
    let ?h = "?hs j"
    obtain T where T: "T < length bs" "df (bs ! slot (length bs) ?sh ?h T) < want ?h T"
      using search_absent [OF Suc.prems(1), of ?h] by blast
    then obtain s where s: "next_while_less_loop bs (want ?h 0) (slot (length bs) ?sh ?h 0) = Some (want ?h s, slot (length bs) ?sh ?h s)"
      "df (bs ! slot (length bs) ?sh ?h s) \<le> want ?h s" "\<forall>k < s. want ?h k < df (bs ! slot (length bs) ?sh ?h k)"
      using next_while_less_stops [OF Suc.prems(1), of T ?h] by auto
    have pred: "want ?h (s - 1) \<le> df (bs ! slot (length bs) ?sh ?h (s - 1))" if "0 < s"
      using s(3) that by (simp add: less_imp_le)
    have card: "Suc (card {..<j}) < length bs" using j vs(2) Suc.prems(2) by simp
    obtain bs' where bs': "place_and_shift_up bs \<lparr>m_dist_and_fingerprint = want ?h s, m_value_idx = j\<rparr> (slot (length bs) ?sh ?h s) = Some bs'"
      "length bs' = length bs" "bk_inv ?hs ?sh (insert j {..<j}) bs'"
      using place_inv [OF Suc.prems(1) _ card s(2) pred] by auto
    have "fill_value (t\<lparr>m_buckets := bs\<rparr>) j = Some (t\<lparr>m_buckets := bs'\<rparr>)"
      using s(1) bs'(1) j
      by (simp add: fill_value_def key_at_def next_while_less_def home_dist_want home_idx_def home_slot [OF Suc.prems(1)])
    moreover have "insert j {..<j} = {..<Suc j}" by (rule lessThan_Suc [symmetric])
    ultimately show ?case
      using Suc.hyps(1) [of "Suc j" bs'] Suc.hyps(2) Suc.prems bs' j by (simp add: upt_conv_Cons del: upt_Suc)
  qed
  have "?n \<le> 2 ^ 23" using sh power_increasing [of "64 - ?sh" 23 "2 :: nat"] by simp
  then have "length ?vs < 4294967296" using vs(2) by simp
  moreover have "clear_buckets t = t\<lparr>m_buckets := replicate ?n no_bucket\<rparr>"
    by (simp add: clear_buckets_def bucket_count_def)
  ultimately show ?thesis
    using loop [of 0 "replicate ?n no_bucket"] bk_inv_empty [OF sh(1,2), of ?hs] sh(3)
    by (simp add: clear_and_fill_buckets_from_values_def)
qed

lemma allocate_ok:
  assumes "41 \<le> m_shifts t" "m_shifts t \<le> 62" "m_buckets t = []" "m_max_load_factor t < 2 ^ 24"
  shows "\<exists>cap. allocate_buckets_from_shift t =
      Some (t\<lparr>m_buckets := replicate (2 ^ (64 - m_shifts t)) no_bucket, m_max_bucket_capacity := cap\<rparr>) \<and>
    cap < 2 ^ (64 - m_shifts t) \<and> cap = load_cap (m_max_load_factor t) (2 ^ (64 - m_shifts t))"
proof -
  let ?n = "2 ^ (64 - m_shifts t) :: nat"
  have n: "?n \<le> 2 ^ 23" using assms(1) power_increasing [of "64 - m_shifts t" 23 "2 :: nat"] by simp
  have c: "load_cap (m_max_load_factor t) ?n < ?n" by (rule load_cap_less [OF assms(4)]) simp
  with n have "u32 (load_cap (m_max_load_factor t) ?n) = load_cap (m_max_load_factor t) ?n" by simp
  moreover have "calc_num_buckets (m_shifts t) = Some ?n"
    using assms(1) n by (simp add: calc_num_buckets_def max_bucket_count_def max_table_size_def)
  moreover have "?n \<noteq> max_bucket_count" using n by (simp add: max_bucket_count_def max_table_size_def)
  ultimately show ?thesis using c assms(3) by (simp add: allocate_buckets_from_shift_def)
qed

lemma table_inv_fill:
  assumes "41 \<le> m_shifts t" "m_shifts t \<le> 62" "length (m_buckets t) = 2 ^ (64 - m_shifts t)"
    "distinct (map fst (m_values t))" "length (m_values t) < length (m_buckets t)"
    "m_max_bucket_capacity t = load_cap (m_max_load_factor t) (length (m_buckets t))" "m_max_load_factor t < 2 ^ 24"
  shows "\<exists>bs. clear_and_fill_buckets_from_values t = Some (t\<lparr>m_buckets := bs\<rparr>) \<and> table_inv (t\<lparr>m_buckets := bs\<rparr>)"
  using clear_and_fill_ok [OF assms(1-5)] assms
  by (fastforce simp: table_inv_def bucket_count_def bk_inv_def)

lemma increase_size_ok:
  assumes sh: "42 \<le> m_shifts t" "m_shifts t \<le> 62" and cap: "m_max_bucket_capacity t < 2 ^ 23"
    and vs: "distinct (map fst (m_values t))" "length (m_values t) \<le> 2 ^ (64 - m_shifts t)"
    and mlf: "m_max_load_factor t < 2 ^ 24"
  shows "\<exists>t'. increase_size t = Some t' \<and> table_inv t' \<and> m_values t' = m_values t \<and>
    m_max_load_factor t' = m_max_load_factor t"
proof -
  let ?t = "deallocate_buckets (t\<lparr>m_shifts := m_shifts t - 1\<rparr>)"
  obtain cp where c: "allocate_buckets_from_shift ?t =
      Some (?t\<lparr>m_buckets := replicate (2 ^ (64 - m_shifts ?t)) no_bucket, m_max_bucket_capacity := cp\<rparr>)"
    "cp = load_cap (m_max_load_factor ?t) (2 ^ (64 - m_shifts ?t))"
    using allocate_ok [of ?t] sh mlf by (auto simp: deallocate_buckets_def)
  let ?u = "?t\<lparr>m_buckets := replicate (2 ^ (64 - m_shifts ?t)) no_bucket, m_max_bucket_capacity := cp\<rparr>"
  have "64 - (m_shifts t - 1) = Suc (64 - m_shifts t)" using sh by simp
  then have "length (m_values t) < 2 ^ (64 - (m_shifts t - 1))"
    using vs(2) by (simp del: diff_diff_left diff_diff_right) (metis le_less_trans lessI power_strict_increasing_iff one_less_numeral_iff semiring_norm(76) mult_2 power_Suc)
  then have "\<exists>bs. clear_and_fill_buckets_from_values ?u = Some (?u\<lparr>m_buckets := bs\<rparr>) \<and> table_inv (?u\<lparr>m_buckets := bs\<rparr>)"
    using sh vs(1) mlf c(2) by (intro table_inv_fill) (simp_all add: deallocate_buckets_def)
  then show ?thesis using c(1) sh cap
    by (auto simp: increase_size_def max_bucket_count_def max_table_size_def deallocate_buckets_def)
qed

subsection \<open>Inserting\<close>

text \<open>There is room when the table need not grow, or may still double its buckets.\<close>

definition has_room :: "('k, 'v) table \<Rightarrow> bool" where
  "has_room t \<longleftrightarrow> length (m_values t) < m_max_bucket_capacity t \<or> 42 \<le> m_shifts t"

lemma nth_snoc_hash:
  "j \<in> {..<length vs} \<Longrightarrow> mixed_hash t (fst ((vs @ [kv]) ! j)) = mixed_hash t (fst (vs ! j))"
  by (simp add: nth_append)

lemma place_new:
  assumes inv: "table_inv t" and room: "has_room t" and new: "key \<notin> fst ` set (m_values t)"
    and T: "T < length (m_buckets t)"
      "df (m_buckets t ! slot (length (m_buckets t)) (m_shifts t) (mixed_hash t key) T) < want (mixed_hash t key) T"
      "\<forall>s < T. passes (m_buckets t) (m_values t) key (m_shifts t) (mixed_hash t key) s"
  shows "\<exists>t'. do_place_element t (want (mixed_hash t key) T)
      (slot (length (m_buckets t)) (m_shifts t) (mixed_hash t key) T) key v = Some (length (m_values t), True, t') \<and>
    table_inv t' \<and> m_values t' = m_values t @ [(key, v)] \<and> m_max_load_factor t' = m_max_load_factor t"
proof -
  let ?vs = "m_values t" and ?bs = "m_buckets t" and ?h = "mixed_hash t key" and ?sh = "m_shifts t"
  let ?t = "t\<lparr>m_values := m_values t @ [(key, v)]\<rparr>" and ?ws = "m_values t @ [(key, v)]"
  note D = table_invD [OF inv]
  have dist: "distinct (map fst ?ws)" using D(2) new by auto
  have u: "u32 (length ?ws - 1) = length ?vs" using D(7) by simp
  show ?thesis
  proof (cases "is_full ?t")
    case True
    then have "42 \<le> ?sh" using room by (auto simp: has_room_def is_full_def)
    then have "\<exists>t'. increase_size ?t = Some t' \<and> table_inv t' \<and> m_values t' = m_values ?t \<and>
        m_max_load_factor t' = m_max_load_factor ?t"
      using D dist by (intro increase_size_ok) auto
    with True u show ?thesis by (auto simp: do_place_element_def)
  next
    case False
    then have card: "Suc (card {..<length ?vs}) < length ?bs" using D(5) by (auto simp: is_full_def)
    let ?hs = "\<lambda>j. mixed_hash t (fst (?ws ! j))"
    have inv': "bk_inv ?hs ?sh {..<length ?vs} ?bs"
      by (rule bk_inv_cong [OF D(1)]) (simp add: nth_append)
    have h: "?hs (length ?vs) = ?h" by simp
    have pred: "want ?h (T - 1) \<le> df (?bs ! slot (length ?bs) ?sh ?h (T - 1))" if "0 < T"
      using T(3) that by (simp add: passes_def Let_def)
    obtain bs where bs: "place_and_shift_up ?bs \<lparr>m_dist_and_fingerprint = want ?h T, m_value_idx = length ?vs\<rparr>
        (slot (length ?bs) ?sh ?h T) = Some bs" "length bs = length ?bs"
      "bk_inv ?hs ?sh (insert (length ?vs) {..<length ?vs}) bs"
      using place_inv [OF inv' _ card, of "length ?vs" T] T(2) pred unfolding h by auto
    have "insert (length ?vs) {..<length ?vs} = {..<length ?ws}" by (simp add: lessThan_Suc)
    then have "table_inv (?t\<lparr>m_buckets := bs\<rparr>)"
      using bs dist D(6,11) by (simp add: table_inv_def bucket_count_def)
    with False bs(1) u show ?thesis by (simp add: do_place_element_def)
  qed
qed

lemma try_emplace_loop_pass:
  assumes inv: "table_inv t" and t: "s \<le> T" "T < length (m_buckets t)"
    "\<forall>s < T. passes (m_buckets t) (m_values t) key (m_shifts t) h s"
  shows "try_emplace_loop t key v (want h s) (slot (length (m_buckets t)) (m_shifts t) h s) =
    try_emplace_loop t key v (want h T) (slot (length (m_buckets t)) (m_shifts t) h T)"
proof (rule unroll [where F = "\<lambda>s. try_emplace_loop t key v (want h s) (slot (length (m_buckets t)) (m_shifts t) h s)"])
  fix s assume s: "s < T"
  then have p: "passes (m_buckets t) (m_values t) key (m_shifts t) h s" using t(3) by blast
  have "s < length (m_buckets t)" using s t(2) by simp
  from slot_step [OF table_invD(1) [OF inv] this, of h] passes_cases [OF p]
  show "try_emplace_loop t key v (want h s) (slot (length (m_buckets t)) (m_shifts t) h s) =
    try_emplace_loop t key v (want h (Suc s)) (slot (length (m_buckets t)) (m_shifts t) h (Suc s))"
    by (elim disjE conjE exE; subst try_emplace_loop.simps; simp)
qed (rule t(1))

lemma emplace_loop_pass:
  assumes inv: "bk_inv hs sh S bs" and t: "T < length bs" "\<forall>s < T. passes bs vs key sh h s"
  shows "emplace_loop bs vs key (want h 0) (slot (length bs) sh h 0) =
    emplace_loop bs vs key (want h T) (slot (length bs) sh h T)"
proof (rule unroll [where F = "\<lambda>s. emplace_loop bs vs key (want h s) (slot (length bs) sh h s)"])
  fix s assume s: "s < T"
  then have p: "passes bs vs key sh h s" using t(2) by blast
  have "s < length bs" using s t(1) by simp
  from slot_step [OF inv this, of h] passes_cases [OF p]
  show "emplace_loop bs vs key (want h s) (slot (length bs) sh h s) =
    emplace_loop bs vs key (want h (Suc s)) (slot (length bs) sh h (Suc s))"
    by (elim disjE conjE exE; subst emplace_loop.simps; simp)
qed simp

lemma passes_append: "passes bs vs key sh h s \<Longrightarrow> passes bs (vs @ ws) key sh h s"
  by (auto simp: passes_def Let_def nth_append)

text \<open>The two ways a search for a key can end in a table.\<close>

lemma table_path:
  assumes "table_inv t"
  obtains (present) T j where "T < length (m_buckets t)" "j < length (m_values t)" "fst (m_values t ! j) = key"
      "holds_key (m_buckets t) (m_shifts t) (mixed_hash t key) T j"
      "\<forall>s < T. passes (m_buckets t) (m_values t) key (m_shifts t) (mixed_hash t key) s"
  | (absent) T where "T < length (m_buckets t)" "key \<notin> fst ` set (m_values t)"
      "df (m_buckets t ! slot (length (m_buckets t)) (m_shifts t) (mixed_hash t key) T) < want (mixed_hash t key) T"
      "\<forall>s < T. passes (m_buckets t) (m_values t) key (m_shifts t) (mixed_hash t key) s"
proof (cases "key \<in> fst ` set (m_values t)")
  case True
  then obtain j where j: "j < length (m_values t)" "fst (m_values t ! j) = key" by (auto simp: in_set_conv_nth)
  with path_present [OF table_invD(1) [OF assms] indexes_all [OF table_invD(2) [OF assms]], of j] present
  show thesis by auto
next
  case False
  with path_absent [OF table_invD(1) [OF assms] indexes_all [OF table_invD(2) [OF assms], of "mixed_hash t"], of key "mixed_hash t key"] absent
  show thesis by (auto simp: keys_all)
qed

lemma do_try_emplace_ok:
  assumes inv: "table_inv t" and room: "has_room t"
  shows "(\<exists>j < length (m_values t). fst (m_values t ! j) = key \<and> do_try_emplace t key v = Some (j, False, t)) \<or>
    (key \<notin> fst ` set (m_values t) \<and> (\<exists>t'. do_try_emplace t key v = Some (length (m_values t), True, t') \<and>
      table_inv t' \<and> m_values t' = m_values t @ [(key, v)] \<and> m_max_load_factor t' = m_max_load_factor t))"
proof -
  let ?bs = "m_buckets t" and ?h = "mixed_hash t key" and ?sh = "m_shifts t"
  have start: "do_try_emplace t key v = try_emplace_loop t key v (want ?h 0) (slot (length ?bs) ?sh ?h 0)"
    by (simp add: do_try_emplace_def home_dist_want home_idx_slot [OF inv])
  show ?thesis
  proof (cases rule: table_path [OF inv, of key, case_names present absent])
    case (present T j)
    have rdT: "rd ?bs (slot (length ?bs) ?sh ?h T) = Some (?bs ! slot (length ?bs) ?sh ?h T)"
      using slot_step(3) [OF table_invD(1) [OF inv] present(1)] .
    have "do_try_emplace t key v = Some (j, False, t)"
      unfolding start try_emplace_loop_pass [OF inv le0 present(1,5)]
      using rdT present(2-4) by (subst try_emplace_loop.simps) (simp add: holds_key_def Let_def key_at_def)
    with present show ?thesis by blast
  next
    case (absent T)
    have rdT: "rd ?bs (slot (length ?bs) ?sh ?h T) = Some (?bs ! slot (length ?bs) ?sh ?h T)"
      using slot_step(3) [OF table_invD(1) [OF inv] absent(1)] .
    have "do_try_emplace t key v = do_place_element t (want ?h T) (slot (length ?bs) ?sh ?h T) key v"
      unfolding start try_emplace_loop_pass [OF inv le0 absent(1,4)]
      using rdT absent(3) by (subst try_emplace_loop.simps) simp
    with place_new [OF inv room absent(2,1,3,4)] absent(2) show ?thesis by auto
  qed
qed

lemma emplace_is_try_emplace:
  assumes inv: "table_inv t" and room: "has_room t"
  shows "table_emplace t key v = do_try_emplace t key v"
proof -
  let ?bs = "m_buckets t" and ?h = "mixed_hash t key" and ?sh = "m_shifts t"
  let ?t = "t\<lparr>m_values := m_values t @ [(key, v)]\<rparr>" and ?ws = "m_values t @ [(key, v)]"
  note D = table_invD [OF inv]
  have hm: "home_dist ?t key = want ?h 0" "home_idx ?t key = slot (length ?bs) ?sh ?h 0"
    using home_idx_slot [OF inv, of key] by (simp_all add: home_dist_want home_idx_def)
  have start: "do_try_emplace t key v = try_emplace_loop t key v (want ?h 0) (slot (length ?bs) ?sh ?h 0)"
    by (simp add: do_try_emplace_def home_dist_want home_idx_slot [OF inv])
  show ?thesis
  proof (cases rule: table_path [OF inv, of key, case_names present absent])
    case (present T j)
    have rdT: "rd ?bs (slot (length ?bs) ?sh ?h T) = Some (?bs ! slot (length ?bs) ?sh ?h T)"
      using slot_step(3) [OF D(1) present(1)] .
    have p: "\<forall>s < T. passes ?bs ?ws key ?sh ?h s" using present(5) by (simp add: passes_append)
    have "emplace_loop ?bs ?ws key (want ?h 0) (slot (length ?bs) ?sh ?h 0) = Some (Inl j)"
      unfolding emplace_loop_pass [OF D(1) present(1) p]
      using rdT present(2-4) by (subst emplace_loop.simps) (simp add: holds_key_def Let_def key_at_def nth_append)
    moreover have "do_try_emplace t key v = Some (j, False, t)"
      unfolding start try_emplace_loop_pass [OF inv le0 present(1,5)]
      using rdT present(2-4) by (subst try_emplace_loop.simps) (simp add: holds_key_def Let_def key_at_def)
    ultimately show ?thesis by (simp add: table_emplace_def hm)
  next
    case (absent T)
    have rdT: "rd ?bs (slot (length ?bs) ?sh ?h T) = Some (?bs ! slot (length ?bs) ?sh ?h T)"
      using slot_step(3) [OF D(1) absent(1)] .
    have p: "\<forall>s < T. passes ?bs ?ws key ?sh ?h s" using absent(4) by (simp add: passes_append)
    have "emplace_loop ?bs ?ws key (want ?h 0) (slot (length ?bs) ?sh ?h 0) = Some (Inr (want ?h T, slot (length ?bs) ?sh ?h T))"
      unfolding emplace_loop_pass [OF D(1) absent(1) p]
      using rdT absent(3) by (subst emplace_loop.simps) simp
    moreover have "do_try_emplace t key v = do_place_element t (want ?h T) (slot (length ?bs) ?sh ?h T) key v"
      unfolding start try_emplace_loop_pass [OF inv le0 absent(1,4)]
      using rdT absent(3) by (subst try_emplace_loop.simps) simp
    ultimately show ?thesis by (simp add: table_emplace_def hm do_place_element_def)
  qed
qed

subsection \<open>Looking up and assigning\<close>

definition content :: "('k, 'v) table \<Rightarrow> 'k \<Rightarrow> 'v option" where
  "content t = map_of (m_values t)"

definition limit :: "('k, 'v) table \<Rightarrow> nat" where
  "limit t = load_cap (m_max_load_factor t) (2 ^ 23)"

lemma card_content: "table_inv t \<Longrightarrow> card (dom (content t)) = length (m_values t)"
  using table_invD(2) [of t] by (simp add: content_def dom_map_of_conv_image_fst distinct_card flip: set_map)

lemma room_below_limit: "table_inv t \<Longrightarrow> length (m_values t) < limit t \<Longrightarrow> has_room t"
  using table_invD(8,9,11) [of t] by (cases "m_shifts t = 41") (auto simp: has_room_def limit_def)

lemma map_of_new:
  assumes "key \<notin> fst ` set vs"
  shows "map_of vs key = None" "map_of (vs @ [(key, v)]) = (map_of vs)(key \<mapsto> v)"
proof -
  show n: "map_of vs key = None" using assms by (simp add: map_of_eq_None_iff)
  show "map_of (vs @ [(key, v)]) = (map_of vs)(key \<mapsto> v)"
    by (rule ext) (use n in \<open>auto simp: map_add_def split: option.splits\<close>)
qed

lemma do_find_content:
  assumes "table_inv t"
  shows "\<exists>i. do_find t key = Some i \<and>
    (case content t key of None \<Rightarrow> i = length (m_values t)
     | Some v \<Rightarrow> i < length (m_values t) \<and> m_values t ! i = (key, v))"
  using do_find_eq [OF assms, of key]
proof
  assume "\<exists>j < length (m_values t). fst (m_values t ! j) = key \<and> do_find t key = Some j"
  then obtain j where j: "j < length (m_values t)" "fst (m_values t ! j) = key" "do_find t key = Some j" by blast
  then have "map_of (m_values t) key = Some (snd (m_values t ! j))"
    using table_invD(2) [OF assms] by (metis map_of_is_SomeI nth_mem prod.collapse)
  with j show ?thesis by (auto simp: content_def prod_eq_iff)
next
  assume "key \<notin> fst ` set (m_values t) \<and> do_find t key = Some (length (m_values t))"
  then show ?thesis using map_of_new(1) [of key "m_values t"] by (simp add: content_def)
qed

lemma contains_content: "table_inv t \<Longrightarrow> table_contains t key = Some (content t key \<noteq> None)"
  using do_find_content [of t key] by (auto simp: table_contains_def split: option.splits)

lemma at_content: "table_inv t \<Longrightarrow> do_at t key = content t key"
  using do_find_content [of t key] by (auto simp: do_at_def split: option.splits)

lemma mixed_hash_values: "mixed_hash (t\<lparr>m_values := vs\<rparr>) = mixed_hash t"
  by simp

lemma table_inv_assign:
  assumes "table_inv t" "j < length (m_values t)"
  shows "table_inv (t\<lparr>m_values := (m_values t)[j := (fst (m_values t ! j), v)]\<rparr>)"
proof -
  let ?ws = "(m_values t)[j := (fst (m_values t ! j), v)]"
  have m: "map fst ?ws = map fst (m_values t)" by (simp add: map_update) (metis list_update_id assms(2) nth_map)
  then have "\<And>i. i \<in> {..<length (m_values t)} \<Longrightarrow> fst (?ws ! i) = fst (m_values t ! i)"
    by (metis length_list_update lessThan_iff nth_map)
  then have "bk_inv (\<lambda>i. mixed_hash t (fst (?ws ! i))) (m_shifts t) {..<length (m_values t)} (m_buckets t)"
    by (intro bk_inv_cong [OF table_invD(1) [OF assms(1)]]) simp
  then show ?thesis using m assms(1) by (simp add: table_inv_def bucket_count_def)
qed

lemma insert_or_assign_ok:
  assumes "table_inv t" "has_room t"
  shows "\<exists>i t'. do_insert_or_assign t key v = Some (i, content t key = None, t') \<and> table_inv t' \<and>
    content t' = (content t)(key \<mapsto> v) \<and> m_max_load_factor t' = m_max_load_factor t"
  using do_try_emplace_ok [OF assms, of key v]
proof
  assume "\<exists>j < length (m_values t). fst (m_values t ! j) = key \<and> do_try_emplace t key v = Some (j, False, t)"
  then obtain j where j: "j < length (m_values t)" "fst (m_values t ! j) = key" "do_try_emplace t key v = Some (j, False, t)"
    by blast
  let ?t = "t\<lparr>m_values := (m_values t)[j := (fst (m_values t ! j), v)]\<rparr>"
  have d: "distinct (map fst (m_values t))" using table_invD(2) [OF assms(1)] .
  have "content t key \<noteq> None" using j by (auto simp: content_def map_of_eq_None_iff)
  moreover have inv: "table_inv ?t" using table_inv_assign [OF assms(1) j(1)] .
  moreover have "content ?t = (content t)(key \<mapsto> v)"
  proof
    fix k
    have s: "set (m_values ?t) = insert (key, v) (set (m_values t) - {m_values t ! j})"
      using j d by (simp add: set_update_distinct distinct_map)
    have u: "(key, w) \<in> set (m_values t) \<Longrightarrow> (key, w) = m_values t ! j" for w
      using j d by (metis eq_key_imp_eq_value nth_mem prod.collapse)
    have "content ?t k = Some w \<longleftrightarrow> ((content t)(key \<mapsto> v)) k = Some w" for w
      unfolding content_def using table_invD(2) [OF inv] d s u j(2)
      by (cases "m_values t ! j") (auto simp: map_of_eq_Some_iff simp del: table.select_convs table.simps)
    then show "content ?t k = ((content t)(key \<mapsto> v)) k" by (metis option.exhaust_sel not_Some_eq)
  qed
  ultimately show ?thesis using j by (simp add: do_insert_or_assign_def)
next
  assume "key \<notin> fst ` set (m_values t) \<and> (\<exists>t'. do_try_emplace t key v = Some (length (m_values t), True, t') \<and>
      table_inv t' \<and> m_values t' = m_values t @ [(key, v)] \<and> m_max_load_factor t' = m_max_load_factor t)"
  then show ?thesis using map_of_new(1) [of key "m_values t"] map_of_new(2) [of key "m_values t" v]
    by (auto simp: do_insert_or_assign_def content_def)
qed

lemma try_emplace_content:
  assumes "table_inv t" "has_room t"
  shows "\<exists>i t'. do_try_emplace t key v = Some (i, content t key = None, t') \<and> table_inv t' \<and>
    content t' = (if content t key = None then (content t)(key \<mapsto> v) else content t) \<and>
    m_max_load_factor t' = m_max_load_factor t"
  using do_try_emplace_ok [OF assms, of key v]
proof
  assume "\<exists>j < length (m_values t). fst (m_values t ! j) = key \<and> do_try_emplace t key v = Some (j, False, t)"
  then show ?thesis using assms(1) by (auto simp: content_def map_of_eq_None_iff)
next
  assume "key \<notin> fst ` set (m_values t) \<and> (\<exists>t'. do_try_emplace t key v = Some (length (m_values t), True, t') \<and>
      table_inv t' \<and> m_values t' = m_values t @ [(key, v)] \<and> m_max_load_factor t' = m_max_load_factor t)"
  then show ?thesis using map_of_new(1) [of key "m_values t"] map_of_new(2) [of key "m_values t" v] by (auto simp: content_def)
qed

subsection \<open>Construction and the hash policy\<close>

lemma make_table_ok: "\<exists>t :: ('k, 'v) table. make_table h 0 = Some t \<and> table_inv t \<and> m_values t = [] \<and> limit t = 6710886 \<and> m_hash t = h"
proof -
  let ?u = "unallocated h :: ('k, 'v) table"
  obtain cap where a: "allocate_buckets_from_shift ?u =
      Some (?u\<lparr>m_buckets := replicate (2 ^ (64 - m_shifts ?u)) no_bucket, m_max_bucket_capacity := cap\<rparr>)"
    "cap = load_cap (m_max_load_factor ?u) (2 ^ (64 - m_shifts ?u))"
    using allocate_ok [of ?u] by (auto simp: unallocated_def initial_shifts_def default_max_load_factor_def)
  let ?t = "?u\<lparr>m_buckets := replicate (2 ^ (64 - m_shifts ?u)) no_bucket, m_max_bucket_capacity := cap\<rparr>"
  have "table_inv ?t"
    using bk_inv_empty [of 62] a(2)
    by (simp add: table_inv_def unallocated_def initial_shifts_def default_max_load_factor_def bucket_count_def lessThan_0)
  moreover have "clear_buckets ?t = ?t" by (simp add: clear_buckets_def bucket_count_def)
  ultimately have "make_table h 0 = Some ?t \<and> table_inv ?t" using a(1) by (simp add: make_table_def)
  moreover have "m_values ?t = []" "limit ?t = 6710886" "m_hash ?t = h"
    by (simp_all add: unallocated_def limit_def load_cap_def default_max_load_factor_def)
  ultimately show ?thesis by blast
qed

lemma shifts_loop_ok:
  assumes "s \<le> load_cap mlf (2 ^ 23)" "41 \<le> n" "n \<le> 62"
  shows "\<exists>k. shifts_loop mlf s n = Some k \<and> 41 \<le> k \<and> k \<le> 62 \<and> s \<le> load_cap mlf (2 ^ (64 - k))"
  using assms(2,3)
proof (induction n)
  case (Suc n)
  have "(2 :: nat) ^ (64 - Suc n) \<le> 2 ^ 23" using Suc.prems by (intro power_increasing) auto
  then have c: "calc_num_buckets (Suc n) = Some (2 ^ (64 - Suc n))"
    by (simp add: calc_num_buckets_def max_bucket_count_def max_table_size_def)
  show ?case
  proof (cases "load_cap mlf (2 ^ (64 - Suc n)) < s")
    case True
    then have "n \<noteq> 40" using assms(1) by (cases "n = 40") auto
    then show ?thesis using Suc True c by simp
  next
    case False
    then show ?thesis using Suc.prems c by simp
  qed
qed simp

lemma rehash_ok:
  assumes inv: "table_inv t" and n: "n \<le> limit t" "length (m_values t) \<le> limit t"
  shows "\<exists>t'. rehash t n = Some t' \<and> table_inv t' \<and> m_values t' = m_values t \<and>
    max n (length (m_values t)) \<le> m_max_bucket_capacity t'"
proof -
  note D = table_invD [OF inv]
  have "limit t < 2 ^ 23" using D(6) load_cap_less [of "m_max_load_factor t" "2 ^ 23"] by (simp add: limit_def)
  then have mn: "min n max_table_size = n" using n(1) by (simp add: max_table_size_def)
  obtain k where k: "calc_shifts_for_size t (max n (length (m_values t))) = Some k" "41 \<le> k" "k \<le> 62"
    "max n (length (m_values t)) \<le> load_cap (m_max_load_factor t) (2 ^ (64 - k))"
    using shifts_loop_ok [of "max n (length (m_values t))" "m_max_load_factor t" 62] n
    by (auto simp: calc_shifts_for_size_def initial_shifts_def limit_def)
  show ?thesis
  proof (cases "k = m_shifts t")
    case True
    then have "rehash t n = Some t" using k(1) mn by (simp add: rehash_def Let_def)
    moreover have "max n (length (m_values t)) \<le> m_max_bucket_capacity t" using k(4) True D(8,11) by simp
    ultimately show ?thesis using inv by blast
  next
    case False
    let ?t = "deallocate_buckets (t\<lparr>m_shifts := k\<rparr>)"
    obtain cap where a: "allocate_buckets_from_shift ?t =
        Some (?t\<lparr>m_buckets := replicate (2 ^ (64 - m_shifts ?t)) no_bucket, m_max_bucket_capacity := cap\<rparr>)"
      "cap < 2 ^ (64 - m_shifts ?t)" "cap = load_cap (m_max_load_factor ?t) (2 ^ (64 - m_shifts ?t))"
      using allocate_ok [of ?t] k D(6) by (auto simp: deallocate_buckets_def)
    let ?u = "?t\<lparr>m_buckets := replicate (2 ^ (64 - m_shifts ?t)) no_bucket, m_max_bucket_capacity := cap\<rparr>"
    have "cap = load_cap (m_max_load_factor t) (2 ^ (64 - k))" using a(3) by (simp add: deallocate_buckets_def)
    then have "length (m_values t) < 2 ^ (64 - k)" using k(4) a(2) by (simp add: deallocate_buckets_def)
    then have "\<exists>bs. clear_and_fill_buckets_from_values ?u = Some (?u\<lparr>m_buckets := bs\<rparr>) \<and> table_inv (?u\<lparr>m_buckets := bs\<rparr>)"
      using k(2,3) a(3) D(2,6) by (intro table_inv_fill) (simp_all add: deallocate_buckets_def)
    then obtain bs where bs: "clear_and_fill_buckets_from_values ?u = Some (?u\<lparr>m_buckets := bs\<rparr>)"
      "table_inv (?u\<lparr>m_buckets := bs\<rparr>)" by blast
    have "rehash t n = Some (?u\<lparr>m_buckets := bs\<rparr>)"
      using k(1) mn False a(1) bs(1) by (simp add: rehash_def Let_def)
    moreover have "m_values (?u\<lparr>m_buckets := bs\<rparr>) = m_values t" by (simp add: deallocate_buckets_def)
    moreover have "max n (length (m_values t)) \<le> m_max_bucket_capacity (?u\<lparr>m_buckets := bs\<rparr>)"
      using k(4) a(3) by (simp add: deallocate_buckets_def)
    ultimately show ?thesis using bs(2) by blast
  qed
qed

lemma load_cap_mono: "m \<le> n \<Longrightarrow> load_cap mlf m \<le> load_cap mlf n"
  unfolding load_cap_def by (intro div_le_mono mult_le_mono1)

lemma shifts_loop_zero: "load_cap mlf max_bucket_count < s \<Longrightarrow> shifts_loop mlf s n = Some 0"
proof (induction n)
  case (Suc n)
  have "load_cap mlf (min max_bucket_count (2 ^ (64 - Suc n))) < s"
    using Suc.prems load_cap_mono [of "min max_bucket_count (2 ^ (64 - Suc n))" max_bucket_count mlf]
    by (meson le_less_trans min.cobounded1)
  then show ?case using Suc by (simp add: calc_num_buckets_def)
qed simp

subsection \<open>Erasing by iterator\<close>

lemma erase_it_ok:
  assumes inv: "table_inv t" and it: "it < length (m_values t)"
  shows "\<exists>bs. erase_it t it = Some (it, t\<lparr>m_values := drop_value it (m_values t), m_buckets := bs\<rparr>) \<and>
    table_inv (t\<lparr>m_values := drop_value it (m_values t), m_buckets := bs\<rparr>)"
proof -
  note D = table_invD [OF inv]
  have u: "u32 it = it" using it D(7) by simp
  obtain i where i: "i < length (m_buckets t)" "find_value_idx (m_buckets t) it
      (slot (length (m_buckets t)) (m_shifts t) (mixed_hash t (fst (m_values t ! it))) 0) = Some i"
    "occupied (m_buckets t ! i)" "m_value_idx (m_buckets t ! i) = it"
    using find_value_idx_found [OF D(1), of it] it by auto
  then have "bucket_of_iterator t it = Some i"
    using it u by (simp add: bucket_of_iterator_def home_idx_slot [OF inv])
  then show ?thesis using do_erase_ok [OF inv i(1,3,4)] u by (auto simp: erase_it_def)
qed

lemma erase_if_loop_ok:
  assumes "table_inv t" "idx \<le> length (m_values t)"
  shows "\<exists>t'. erase_if_loop idx pred t = Some t' \<and> table_inv t' \<and>
    mset (m_values t') = mset (filter (\<lambda>kv. \<not> pred kv) (take idx (m_values t))) + mset (drop idx (m_values t))"
  using assms
proof (induction idx arbitrary: t)
  case (Suc idx)
  let ?vs = "m_values t"
  have l: "idx < length ?vs" using Suc.prems(2) by simp
  have split: "drop idx ?vs = ?vs ! idx # drop (Suc idx) ?vs" "take (Suc idx) ?vs = take idx ?vs @ [?vs ! idx]"
    using l by (simp_all add: Cons_nth_drop_Suc take_Suc_conv_app_nth)
  show ?case
  proof (cases "pred (?vs ! idx)")
    case False
    then show ?thesis using Suc.IH [OF Suc.prems(1)] l by (auto simp: split)
  next
    case True
    let ?ws = "drop_value idx ?vs"
    obtain bs where bs: "erase_it t idx = Some (idx, t\<lparr>m_values := ?ws, m_buckets := bs\<rparr>)"
      "table_inv (t\<lparr>m_values := ?ws, m_buckets := bs\<rparr>)" using erase_it_ok [OF Suc.prems(1) l] by blast
    have tk: "take idx ?ws = take idx ?vs" using l by (simp add: drop_value_def butlast_conv_take)
    have "mset ?ws = mset (take idx ?vs) + mset (drop idx ?vs) - {#?vs ! idx#}"
      using remove_by_last(3) [OF l table_invD(2) [OF Suc.prems(1)]]
      by (simp add: drop_value_def flip: mset_append)
    also have "\<dots> = mset (take idx ?vs) + mset (drop (Suc idx) ?vs)" by (simp add: split(1))
    finally have "mset (take idx ?ws) + mset (drop idx ?ws) = mset (take idx ?vs) + mset (drop (Suc idx) ?vs)"
      by (simp flip: mset_append)
    then have dr: "mset (drop idx ?ws) = mset (drop (Suc idx) ?vs)" by (simp add: tk)
    have "idx \<le> length ?ws" using l by simp
    then obtain t' where t': "erase_if_loop idx pred (t\<lparr>m_values := ?ws, m_buckets := bs\<rparr>) = Some t'" "table_inv t'"
      "mset (m_values t') = mset (filter (\<lambda>kv. \<not> pred kv) (take idx ?vs)) + mset (drop (Suc idx) ?vs)"
      using Suc.IH [OF bs(2)] by (auto simp: tk dr)
    with bs(1) l True show ?thesis by (simp add: split(2))
  qed
qed simp

subsection \<open>The table as a dictionary\<close>

interpretation fm: dictionary table_contains do_at do_try_emplace do_insert_or_assign erase_key table_inv content limit
proof
  fix t :: "('k, 'v) table" and k v
  show "table_inv t \<Longrightarrow> finite (dom (content t))" by (simp add: content_def finite_dom_map_of)
  show "table_inv t \<Longrightarrow> table_contains t k = Some (content t k \<noteq> None)" by (rule contains_content)
  show "table_inv t \<Longrightarrow> do_at t k = content t k" by (rule at_content)
  show "\<exists>i t'. do_try_emplace t k v = Some (i, content t k = None, t') \<and> table_inv t' \<and> limit t' = limit t \<and>
      content t' = (if content t k = None then (content t)(k \<mapsto> v) else content t)"
    if "table_inv t" "card (dom (content t)) < limit t"
    using try_emplace_content [OF that(1) room_below_limit [OF that(1)], of k v] that
    by (auto simp: card_content limit_def)
  show "\<exists>i t'. do_insert_or_assign t k v = Some (i, content t k = None, t') \<and> table_inv t' \<and> limit t' = limit t \<and>
      content t' = (content t)(k \<mapsto> v)" if "table_inv t" "card (dom (content t)) < limit t"
    using insert_or_assign_ok [OF that(1) room_below_limit [OF that(1)], of k v] that
    by (auto simp: card_content limit_def)
  show "\<exists>t'. erase_key t k = Some (if content t k = None then 0 else 1, t') \<and> table_inv t' \<and> limit t' = limit t \<and>
      content t' = (content t)(k := None)" if "table_inv t"
    using do_erase_key_ok [OF that, of k] by (cases "content t k") (auto simp: erase_key_def content_def limit_def)
qed

subsection \<open>Properties\<close>

text \<open>Property C20: any sequence of \<open>insert_or_assign\<close>, \<open>try_emplace\<close>, \<open>erase\<close> and lookups on a new
  table answers as the same sequence on a partial function and ends in a table with the same
  pairs, whatever the hash function, for up to 6710886 operations (the load limit of \<open>2^23\<close>
  buckets); the invariant of the buckets holds at the end and no operation faults or hangs.\<close>

theorem table_refines_map:
  fixes ops :: "('k, 'v) map_op list"
  assumes "length ops \<le> 6710886"
  shows "\<exists>t t'. make_table h 0 = Some t \<and>
    ops_run (map_op_run table_contains do_at do_try_emplace do_insert_or_assign erase_key) ops t =
      Some (fst (ops_spec map_op_spec ops Map.empty), t') \<and>
    table_inv t' \<and> map_of (m_values t') = snd (ops_spec map_op_spec ops Map.empty)"
proof -
  obtain t :: "('k, 'v) table" where t: "make_table h 0 = Some t" "table_inv t" "m_values t = []" "limit t = 6710886"
    using make_table_ok by blast
  then have "content t = Map.empty" by (simp add: content_def)
  with fm.ops_refine [OF t(2), of ops] t assms show ?thesis by (auto simp: content_def)
qed

theorem table_refines_map_witness:
  "\<exists>t t'. make_table (Plain (\<lambda>_. 7)) 0 = Some t \<and>
    ops_run (map_op_run table_contains do_at do_try_emplace do_insert_or_assign erase_key)
      [Put (1 :: nat) True, Put_new 2 False, Del 1, Ask 1, Ask 2] t =
    Some ([Inserted True, Inserted True, Erased 1, Found None, Found (Some False)], t')"
  using table_refines_map [of "[Put (1 :: nat) True, Put_new 2 False, Del 1, Ask 1, Ask 2]" "Plain (\<lambda>_. 7)"]
  by (auto simp: fun_eq_iff)

text \<open>Property C21: \<open>find\<close>, with its two unrolled checks and its loop, returns on every table the
  iterator to the pair with the key, and \<open>end()\<close> exactly when no pair has it.\<close>

theorem do_find_correct:
  assumes "table_inv t"
  shows "\<exists>i. do_find t key = Some i \<and> (i = length (m_values t) \<longleftrightarrow> key \<notin> fst ` set (m_values t)) \<and>
    (i < length (m_values t) \<longrightarrow> fst (m_values t ! i) = key) \<and> i \<le> length (m_values t)"
proof -
  have "fst (m_values t ! j) \<in> fst ` set (m_values t)" if "j < length (m_values t)" for j using that by simp
  then show ?thesis using do_find_eq [OF assms, of key] by (metis less_imp_le nat_neq_iff order_refl)
qed

theorem do_find_correct_witness:
  "\<exists>t. make_table (Plain (\<lambda>_. 7)) 0 = Some (t :: (nat, bool) table) \<and> do_find t 5 = Some 0"
proof -
  obtain t :: "(nat, bool) table" where t: "make_table (Plain (\<lambda>_. 7)) 0 = Some t" "table_inv t" "m_values t = []"
    using make_table_ok by blast
  with do_find_correct [OF t(2), of 5] show ?thesis by auto
qed

text \<open>Property C22: \<open>emplace\<close>, which stores the pair first and takes it back when the key is there, and
  \<open>try_emplace\<close>, which looks first, return the same iterator, flag and table; a new key is
  appended with the invariant kept, also when the table grows.\<close>

theorem emplace_and_try_emplace:
  assumes "table_inv t" "length (m_values t) < limit t"
  shows "table_emplace t key v = do_try_emplace t key v \<and>
    (\<exists>i t'. table_emplace t key v = Some (i, key \<notin> fst ` set (m_values t), t') \<and> table_inv t' \<and>
      fst (m_values t' ! i) = key \<and>
      m_values t' = (if key \<in> fst ` set (m_values t) then m_values t else m_values t @ [(key, v)]))"
proof -
  note room = room_below_limit [OF assms]
  have e: "table_emplace t key v = do_try_emplace t key v" by (rule emplace_is_try_emplace [OF assms(1) room])
  have "fst (m_values t ! j) \<in> fst ` set (m_values t)" if "j < length (m_values t)" for j using that by simp
  with do_try_emplace_ok [OF assms(1) room, of key v] assms(1) show ?thesis unfolding e by fastforce
qed

theorem emplace_and_try_emplace_witness:
  "\<exists>t i t'. make_table (Plain (\<lambda>_. 7)) 0 = Some (t :: (nat, bool) table) \<and> table_emplace t 5 True = Some (i, True, t') \<and>
    m_values t' = [(5, True)]"
proof -
  obtain t :: "(nat, bool) table" where t: "make_table (Plain (\<lambda>_. 7)) 0 = Some t" "table_inv t" "m_values t = []"
    "limit t = 6710886" using make_table_ok by blast
  have "length (m_values t) < limit t" using t by simp
  from emplace_and_try_emplace [OF t(2) this, of 5 True, THEN conjunct2] t(1,3) show ?thesis by auto
qed

text \<open>Property C23: \<open>std::erase_if\<close>, which erases by iterator from the back while every erase moves the
  last pair into the gap, removes exactly the pairs the predicate holds for, returns their number
  and keeps the invariant.\<close>

theorem erase_if_correct:
  assumes "table_inv t"
  shows "\<exists>t'. erase_if t pred = Some (length (filter pred (m_values t)), t') \<and> table_inv t' \<and>
    mset (m_values t') = filter_mset (\<lambda>kv. \<not> pred kv) (mset (m_values t))"
proof -
  obtain t' where t': "erase_if_loop (length (m_values t)) pred t = Some t'" "table_inv t'"
    "mset (m_values t') = mset (filter (\<lambda>kv. \<not> pred kv) (m_values t))"
    using erase_if_loop_ok [OF assms order_refl, of pred] by auto
  have "length (m_values t') = length (filter (\<lambda>kv. \<not> pred kv) (m_values t))" using t'(3) by (metis size_mset)
  moreover have "length (filter pred (m_values t)) + length (filter (\<lambda>kv. \<not> pred kv) (m_values t)) = length (m_values t)"
    by (rule sum_length_filter_compl)
  ultimately show ?thesis using t' by (auto simp: erase_if_def mset_filter)
qed

theorem erase_if_correct_witness:
  "\<exists>t t'. make_table (Plain (\<lambda>_. 7)) 0 = Some (t :: (nat, bool) table) \<and> erase_if t (\<lambda>_. True) = Some (0, t')"
proof -
  obtain t :: "(nat, bool) table" where t: "make_table (Plain (\<lambda>_. 7)) 0 = Some t" "table_inv t" "m_values t = []"
    using make_table_ok by blast
  with erase_if_correct [OF t(2), of "\<lambda>_. True"] show ?thesis by auto
qed

text \<open>Property C24: on a table with the invariant, \<open>rehash\<close> to any size within the limit of the model,
  6710886 pairs with the default load factor, keeps the stored pairs and the invariant and makes room for
  the requested number of pairs.\<close>

theorem rehash_correct:
  assumes "table_inv t" "n \<le> limit t" "length (m_values t) \<le> limit t"
  shows "\<exists>t'. rehash t n = Some t' \<and> table_inv t' \<and> m_values t' = m_values t \<and>
    max n (length (m_values t)) \<le> m_max_bucket_capacity t' \<and> m_max_bucket_capacity t' < bucket_count t'"
  using rehash_ok [OF assms] table_invD(5) by (auto simp: bucket_count_def)

theorem rehash_correct_witness:
  "\<exists>t t'. make_table (Plain (\<lambda>_. 7)) 0 = Some (t :: (nat, bool) table) \<and> rehash t 1000 = Some t' \<and>
    1000 \<le> m_max_bucket_capacity t'"
proof -
  obtain t :: "(nat, bool) table" where t: "make_table (Plain (\<lambda>_. 7)) 0 = Some t" "table_inv t" "m_values t = []"
    "limit t = 6710886" using make_table_ok by blast
  have "1000 \<le> limit t" "length (m_values t) \<le> limit t" using t by simp_all
  with rehash_correct [OF t(2)] t(1) show ?thesis by fastforce
qed

text \<open>Property C25: asking for more pairs than the load factor allows for \<open>2^32\<close> buckets, though within
  \<open>max_size()\<close>, makes \<open>calc_shifts_for_size\<close> return 0, and the allocation then shifts by 64, in
  \<open>reserve\<close> as in \<open>rehash\<close>: with the default load factor from 3435973889 pairs on.\<close>

theorem reserve_beyond_load_faults:
  assumes "load_cap (m_max_load_factor t) (2 ^ 32) < n" "n \<le> 2 ^ 32" "0 < m_shifts t"
  shows "calc_shifts_for_size t n = Some 0 \<and> reserve t n = None \<and> rehash t n = None"
proof -
  have c: "calc_shifts_for_size t k = Some 0" if "n \<le> k" for k
    using that assms(1) shifts_loop_zero [of "m_max_load_factor t" k initial_shifts]
    by (simp add: calc_shifts_for_size_def max_bucket_count_def max_table_size_def)
  have "min n max_table_size = n" using assms(2) by (simp add: max_table_size_def)
  then show ?thesis using c [of n] c [of "max n (length (m_values t))"] assms(3)
    by (simp add: reserve_def rehash_def Let_def allocate_buckets_from_shift_def deallocate_buckets_def calc_num_buckets_def)
qed

theorem reserve_beyond_load_faults_witness:
  "reserve (unallocated (Plain (\<lambda>_ :: nat. 7)) :: (nat, bool) table) 3435973889 = None"
  using reserve_beyond_load_faults [of "unallocated (Plain (\<lambda>_ :: nat. 7)) :: (nat, bool) table" 3435973889]
  by (simp add: unallocated_def load_cap_def default_max_load_factor_def initial_shifts_def)

end
