(* ===== verification/SegmentedVector.thy ===== *)
theory SegmentedVector
  imports Interfaces
begin

text \<open>
  \<open>segmented_vector\<close> of \<open>src/src/include/common/flat_map.h\<close>, for an element type with a destructor of its own:
  blocks of raw memory of one size, found by the high bits of an index, and in them the objects, found by
  the low bits.  Constructing over an object, reading or destroying raw memory is a fault.  The contract
  of a container of the hash table is \<open>sequence\<close>, interpreted here as \<open>sv\<close>.
\<close>

subsection \<open>Blocks and indexing\<close>

text \<open>The largest \<open>f\<close> with \<open>s << f <= max_val\<close>; a shift by the width is undefined.\<close>

partial_function (option) closest_loop :: "nat \<Rightarrow> nat \<Rightarrow> nat \<Rightarrow> nat option" where [code]:
  "closest_loop max_val s f =
    (if f + 1 < 64
     then if push_bit (f + 1) s mod 2 ^ 64 \<le> max_val then closest_loop max_val s (f + 1) else Some f
     else None)"

definition num_bits_closest :: "nat \<Rightarrow> nat \<Rightarrow> nat option" where
  "num_bits_closest max_val s = closest_loop max_val s 0"

text \<open>
  The template's constants, for a given number of index bits: \<open>1U << num_bits\<close> in 32 bits, so an index
  of 32 bits or more has no block size (the constant does not compile there).
\<close>

definition num_elements_in_block :: "nat \<Rightarrow> nat" where
  "num_elements_in_block nb = unat (push_bit nb (1 :: 32 word))"

definition block_mask :: "nat \<Rightarrow> nat" where
  "block_mask nb = num_elements_in_block nb - 1"

text \<open>A cell of a block is raw memory, \<open>None\<close>, or holds an object.\<close>

record 'a segmented_vector =
  m_blocks :: "'a option list list"
  m_size :: nat

definition make_segmented_vector :: "'a segmented_vector" where
  "make_segmented_vector = \<lparr>m_blocks = [], m_size = 0\<rparr>"

definition sv_capacity :: "nat \<Rightarrow> 'a segmented_vector \<Rightarrow> nat" where
  "sv_capacity nb v = length (m_blocks v) * num_elements_in_block nb"

definition cell :: "nat \<Rightarrow> 'a option list list \<Rightarrow> nat \<Rightarrow> 'a option option" where
  "cell nb bs i = do { b \<leftarrow> rd bs (drop_bit nb i); rd b (i AND block_mask nb) }"

definition set_cell :: "nat \<Rightarrow> 'a option list list \<Rightarrow> nat \<Rightarrow> 'a option \<Rightarrow> 'a option list list option" where
  "set_cell nb bs i c = do {
     b \<leftarrow> rd bs (drop_bit nb i);
     rd b (i AND block_mask nb);
     Some (bs[drop_bit nb i := b[i AND block_mask nb := c]]) }"

text \<open>\<open>operator[]\<close>: an object that is not there is a fault.\<close>

definition sv_at :: "nat \<Rightarrow> 'a segmented_vector \<Rightarrow> nat \<Rightarrow> 'a option" where
  "sv_at nb v i = do { c \<leftarrow> cell nb (m_blocks v) i; c }"

text \<open>\<open>~T()\<close> of the object at an index.\<close>

definition destroy :: "nat \<Rightarrow> nat \<Rightarrow> 'a segmented_vector \<Rightarrow> 'a segmented_vector option" where
  "destroy nb i v = do {
     x \<leftarrow> sv_at nb v i;
     bs \<leftarrow> set_cell nb (m_blocks v) i None;
     Some (v\<lparr>m_blocks := bs\<rparr>) }"

fun destroy_all :: "nat \<Rightarrow> nat list \<Rightarrow> 'a segmented_vector \<Rightarrow> 'a segmented_vector option" where
  "destroy_all nb [] v = Some v"
| "destroy_all nb (i # is) v = do { v \<leftarrow> destroy nb i v; destroy_all nb is v }"

subsection \<open>Operations\<close>

definition increase_capacity :: "nat \<Rightarrow> 'a segmented_vector \<Rightarrow> 'a segmented_vector" where
  "increase_capacity nb v = v\<lparr>m_blocks := m_blocks v @ [replicate (num_elements_in_block nb) None]\<rparr>"

text \<open>Placement new needs raw memory.\<close>

definition sv_emplace_back :: "nat \<Rightarrow> 'a \<Rightarrow> 'a segmented_vector \<Rightarrow> 'a segmented_vector option" where
  "sv_emplace_back nb x v = do {
     let v = (if m_size v = sv_capacity nb v then increase_capacity nb v else v);
     c \<leftarrow> cell nb (m_blocks v) (m_size v);
     assert_opt (c = None);
     bs \<leftarrow> set_cell nb (m_blocks v) (m_size v) (Some x);
     Some (v\<lparr>m_blocks := bs, m_size := m_size v + 1\<rparr>) }"

definition sv_back :: "nat \<Rightarrow> 'a segmented_vector \<Rightarrow> 'a option" where
  "sv_back nb v = sv_at nb v (sub64 (m_size v) 1)"

definition sv_pop_back :: "nat \<Rightarrow> 'a segmented_vector \<Rightarrow> 'a segmented_vector option" where
  "sv_pop_back nb v = do {
     v \<leftarrow> destroy nb (sub64 (m_size v) 1) v;
     Some (v\<lparr>m_size := sub64 (m_size v) 1\<rparr>) }"

definition sv_empty :: "'a segmented_vector \<Rightarrow> bool" where
  "sv_empty v \<longleftrightarrow> 0 = m_size v"

definition calc_num_blocks_for_capacity :: "nat \<Rightarrow> nat \<Rightarrow> nat" where
  "calc_num_blocks_for_capacity nb c =
    sub64 ((c + num_elements_in_block nb) mod 2 ^ 64) 1 div num_elements_in_block nb"

text \<open>\<open>while (new_capacity > capacity()) increase_capacity()\<close>\<close>

partial_function (option) sv_reserve :: "nat \<Rightarrow> nat \<Rightarrow> 'a segmented_vector \<Rightarrow> 'a segmented_vector option" where [code]:
  "sv_reserve nb new_capacity v =
    (if new_capacity > sv_capacity nb v then sv_reserve nb new_capacity (increase_capacity nb v) else Some v)"

definition resize_shrink :: "nat \<Rightarrow> nat \<Rightarrow> 'a segmented_vector \<Rightarrow> 'a segmented_vector option" where
  "resize_shrink nb new_size v = do {
     v \<leftarrow> destroy_all nb [new_size..<m_size v] v;
     Some (v\<lparr>m_size := new_size\<rparr>) }"

fun emplace_all :: "nat \<Rightarrow> 'a list \<Rightarrow> 'a segmented_vector \<Rightarrow> 'a segmented_vector option" where
  "emplace_all nb [] v = Some v"
| "emplace_all nb (x # xs) v = do { v \<leftarrow> sv_emplace_back nb x v; emplace_all nb xs v }"

text \<open>With \<open>value\<close> either the argument or \<open>T()\<close>.\<close>

definition sv_resize :: "nat \<Rightarrow> nat \<Rightarrow> 'a \<Rightarrow> 'a segmented_vector \<Rightarrow> 'a segmented_vector option" where
  "sv_resize nb n value v =
    (if n < m_size v then resize_shrink nb n v
     else if n > m_size v
     then do { v' \<leftarrow> sv_reserve nb n v; emplace_all nb (replicate (n - m_size v) value) v' }
     else Some v)"

definition sv_clear :: "nat \<Rightarrow> 'a segmented_vector \<Rightarrow> 'a segmented_vector option" where
  "sv_clear nb v = do { v \<leftarrow> destroy_all nb [0..<m_size v] v; Some (v\<lparr>m_size := 0\<rparr>) }"

fun drop_blocks :: "nat \<Rightarrow> 'b list \<Rightarrow> 'b list" where
  "drop_blocks n bs = (if length bs > n then drop_blocks n (butlast bs) else bs)"

declare drop_blocks.simps [simp del]

definition shrink_to_fit :: "nat \<Rightarrow> 'a segmented_vector \<Rightarrow> 'a segmented_vector" where
  "shrink_to_fit nb v = v\<lparr>m_blocks := drop_blocks (calc_num_blocks_for_capacity nb (m_size v)) (m_blocks v)\<rparr>"

subsection \<open>Iterators\<close>

text \<open>Two iterators of one vector differ only in their index.\<close>

datatype iter_t = Iter (m_idx: nat)

definition sv_begin :: iter_t where
  "sv_begin = Iter 0"

definition sv_end :: "'a segmented_vector \<Rightarrow> iter_t" where
  "sv_end v = Iter (m_size v)"

definition iter_next :: "iter_t \<Rightarrow> iter_t" where
  "iter_next it = Iter ((m_idx it + 1) mod 2 ^ 64)"

definition iter_prev :: "iter_t \<Rightarrow> iter_t" where
  "iter_prev it = Iter (sub64 (m_idx it) 1)"

text \<open>The offset is a signed number of the same width.\<close>

definition iter_add :: "iter_t \<Rightarrow> int \<Rightarrow> iter_t" where
  "iter_add it d = Iter (nat ((int (m_idx it) + d) mod 2 ^ 64))"

definition iter_sub :: "iter_t \<Rightarrow> int \<Rightarrow> iter_t" where
  "iter_sub it d = Iter (nat ((int (m_idx it) - d) mod 2 ^ 64))"

definition iter_diff :: "iter_t \<Rightarrow> iter_t \<Rightarrow> int" where
  "iter_diff a b = int (m_idx a) - int (m_idx b)"

lemma iter_arith:
  assumes "0 \<le> int (m_idx it) + d" "int (m_idx it) + d < 2 ^ 64" "m_idx it < 2 ^ 64"
  shows "iter_diff (iter_add it d) it = d" "iter_sub (iter_add it d) d = it"
  using assms by (auto simp: iter_diff_def iter_add_def iter_sub_def intro!: iter_t.expand)

definition iter_deref :: "nat \<Rightarrow> 'a segmented_vector \<Rightarrow> iter_t \<Rightarrow> 'a option" where
  "iter_deref nb v it = sv_at nb v (m_idx it)"

instantiation iter_t :: linorder
begin

definition less_iter_t :: "iter_t \<Rightarrow> iter_t \<Rightarrow> bool" where
  "less_iter_t a b \<longleftrightarrow> m_idx a < m_idx b"

definition less_eq_iter_t :: "iter_t \<Rightarrow> iter_t \<Rightarrow> bool" where
  "less_eq_iter_t a b \<longleftrightarrow> \<not> m_idx b < m_idx a"

instance
  by standard (auto simp: less_iter_t_def less_eq_iter_t_def iter_t.expand)

end

text \<open>The range-based \<open>for\<close>, from an iterator to \<open>end()\<close>.\<close>

partial_function (option) walk :: "nat \<Rightarrow> 'a segmented_vector \<Rightarrow> iter_t \<Rightarrow> 'a list option" where [code]:
  "walk nb v it =
    (if it = sv_end v then Some []
     else do { x \<leftarrow> iter_deref nb v it; xs \<leftarrow> walk nb v (iter_next it); Some (x # xs) })"

text \<open>The copying \<open>append_everything_from\<close>, and the assignments built on it.\<close>

definition append_everything_from :: "nat \<Rightarrow> 'a segmented_vector \<Rightarrow> 'a segmented_vector \<Rightarrow> 'a segmented_vector option" where
  "append_everything_from nb other v = do {
     xs \<leftarrow> walk nb other sv_begin;
     v \<leftarrow> sv_reserve nb (m_size v + m_size other) v;
     emplace_all nb xs v }"

definition sv_copy_assign :: "nat \<Rightarrow> bool \<Rightarrow> 'a segmented_vector \<Rightarrow> 'a segmented_vector \<Rightarrow> 'a segmented_vector option" where
  "sv_copy_assign nb same other v =
    (if same then Some v else do { v \<leftarrow> sv_clear nb v; append_everything_from nb other v })"

text \<open>With equal allocators the blocks change hands; the result is this vector and the other one.\<close>

definition sv_move_assign :: "nat \<Rightarrow> 'a segmented_vector \<Rightarrow> 'a segmented_vector \<Rightarrow> ('a segmented_vector \<times> 'a segmented_vector) option" where
  "sv_move_assign nb other v = do {
     v \<leftarrow> sv_clear nb v;
     Some (v\<lparr>m_blocks := m_blocks other, m_size := m_size other\<rparr>, other\<lparr>m_blocks := [], m_size := 0\<rparr>) }"

subsection \<open>The blocks in a row\<close>

definition blocks_ok :: "nat \<Rightarrow> 'b list list \<Rightarrow> bool" where
  "blocks_ok nb bs \<longleftrightarrow> nb < 32 \<and> (\<forall>b \<in> set bs. length b = 2 ^ nb)"

lemma block_size [simp]: "nb < 32 \<Longrightarrow> num_elements_in_block nb = 2 ^ nb"
proof -
  assume "nb < 32"
  then have "(2 :: nat) ^ nb < 2 ^ 32" by (simp only: power_strict_increasing_iff)
  then have "take_bit 32 ((2 :: nat) ^ nb) = 2 ^ nb" by (simp only: take_bit_nat_eq_self)
  then show ?thesis
    unfolding num_elements_in_block_def unsigned_push_bit_eq by (simp add: push_bit_eq_mult)
qed

lemma block_index [simp]: "drop_bit nb i = i div 2 ^ nb" "nb < 32 \<Longrightarrow> i AND block_mask nb = i mod 2 ^ nb"
  by (simp_all only: drop_bit_eq_div block_mask_def block_size take_bit_eq_mod flip: take_bit_eq_mask mask_eq_exp_minus_1)

lemma blocks_bits: "blocks_ok nb bs \<Longrightarrow> nb < 32"
  by (simp add: blocks_ok_def)

lemma length_blocks: "\<forall>b \<in> set bs. length b = n \<Longrightarrow> length (concat bs) = length bs * n"
  by (induction bs) auto

lemma nth_blocks:
  "\<forall>b \<in> set bs. length b = n \<Longrightarrow> i < length bs * n \<Longrightarrow> concat bs ! i = bs ! (i div n) ! (i mod n)"
proof (induction bs arbitrary: i)
  case (Cons b bs)
  then have "0 < n" by (cases n) auto
  with Cons show ?case
    by (cases "i < n") (auto simp: nth_append le_div_geq [of n i] le_mod_geq [of n i] not_less)
qed simp

lemma update_blocks:
  "\<forall>b \<in> set bs. length b = n \<Longrightarrow> i < length bs * n \<Longrightarrow>
    concat (bs[i div n := (bs ! (i div n))[i mod n := c]]) = (concat bs)[i := c]"
proof (induction bs arbitrary: i)
  case (Cons b bs)
  then have "0 < n" by (cases n) auto
  with Cons show ?case
    by (cases "i < n") (auto simp: list_update_append le_div_geq [of n i] le_mod_geq [of n i] not_less)
qed simp

lemma block_less: "i < m * 2 ^ nb \<longleftrightarrow> i div 2 ^ nb < (m :: nat)"
  by (simp add: div_less_iff_less_mult)

lemma cell_eq: "blocks_ok nb bs \<Longrightarrow> cell nb bs i = rd (concat bs) i"
  using length_blocks [of bs "2 ^ nb"] nth_blocks [of bs "2 ^ nb" i] block_less [of i "length bs" nb]
  by (auto simp: cell_def blocks_ok_def rd_def)

lemma set_cell_eq:
  assumes "blocks_ok nb bs" "i < length (concat bs)"
  shows "\<exists>bs'. set_cell nb bs i c = Some bs' \<and> blocks_ok nb bs' \<and> length bs' = length bs \<and> concat bs' = (concat bs)[i := c]"
proof -
  let ?q = "i div 2 ^ nb"
  have i: "i < length bs * 2 ^ nb" "?q < length bs"
    using assms length_blocks [of bs "2 ^ nb"] block_less [of i "length bs" nb] by (simp_all add: blocks_ok_def)
  then have "length (bs ! ?q) = 2 ^ nb" using assms(1) by (simp add: blocks_ok_def)
  with i assms(1) update_blocks [of bs "2 ^ nb" i c] show ?thesis
    by (auto simp: set_cell_def blocks_ok_def dest!: set_update_subset_insert [THEN subsetD])
qed

subsection \<open>The vector as a list\<close>

definition represents :: "nat \<Rightarrow> 'a segmented_vector \<Rightarrow> 'a list \<Rightarrow> bool" where
  "represents nb v xs \<longleftrightarrow> blocks_ok nb (m_blocks v) \<and> m_size v = length xs \<and>
     (\<exists>k. concat (m_blocks v) = map Some xs @ replicate k None)"

lemma representsE:
  assumes "represents nb v xs"
  obtains k where "blocks_ok nb (m_blocks v)" "m_size v = length xs" "concat (m_blocks v) = map Some xs @ replicate k None"
    "sv_capacity nb v = length xs + k" "nb < 32"
proof -
  obtain k where k: "concat (m_blocks v) = map Some xs @ replicate k None" using assms by (auto simp: represents_def)
  have "blocks_ok nb (m_blocks v)" "m_size v = length xs" using assms by (simp_all add: represents_def)
  moreover from this(1) have "sv_capacity nb v = length (concat (m_blocks v))"
    using length_blocks [of "m_blocks v" "2 ^ nb"] by (simp add: sv_capacity_def blocks_ok_def)
  ultimately show thesis using that [of k] k blocks_bits [of nb "m_blocks v"] by simp
qed

lemma represents_bits: "represents nb v xs \<Longrightarrow> nb < 32"
  by (simp add: represents_def blocks_ok_def)

lemma represents_empty: "nb < 32 \<Longrightarrow> represents nb make_segmented_vector []"
  by (simp add: represents_def make_segmented_vector_def blocks_ok_def)

lemma sv_at_eq: "represents nb v xs \<Longrightarrow> sv_at nb v i = rd xs i"
  by (elim representsE) (auto simp: sv_at_def cell_eq rd_def nth_append)

lemma represents_grow: "represents nb v xs \<Longrightarrow> represents nb (increase_capacity nb v) xs"
proof (elim representsE)
  fix k assume "blocks_ok nb (m_blocks v)" "m_size v = length xs" "concat (m_blocks v) = map Some xs @ replicate k None"
  then show ?thesis by (auto simp: represents_def increase_capacity_def blocks_ok_def simp flip: replicate_add)
qed

lemma grow_capacity: "nb < 32 \<Longrightarrow> sv_capacity nb (increase_capacity nb v) = sv_capacity nb v + 2 ^ nb"
  by (simp add: sv_capacity_def increase_capacity_def)

lemma emplace_back_ok:
  assumes "represents nb v xs"
  shows "\<exists>v'. sv_emplace_back nb x v = Some v' \<and> represents nb v' (xs @ [x])"
proof -
  define w where "w = (if m_size v = sv_capacity nb v then increase_capacity nb v else v)"
  have w: "represents nb w xs" using assms by (auto simp: w_def intro: represents_grow)
  then obtain k where k: "blocks_ok nb (m_blocks w)" "m_size w = length xs" "concat (m_blocks w) = map Some xs @ replicate k None"
      "sv_capacity nb w = length xs + k" by (elim representsE)
  have "k \<noteq> 0" using k(4) assms grow_capacity [of nb v]
    by (elim representsE) (auto simp: w_def split: if_splits)
  then obtain k' where k': "k = Suc k'" by (cases k) auto
  obtain bs where bs: "set_cell nb (m_blocks w) (m_size w) (Some x) = Some bs" "blocks_ok nb bs"
      "concat bs = (concat (m_blocks w))[length xs := Some x]"
    using set_cell_eq [OF k(1), of "length xs" "Some x"] k k' by auto
  have "cell nb (m_blocks w) (m_size w) = Some None" using k k' by (simp add: cell_eq nth_append)
  then have "sv_emplace_back nb x v = Some (w\<lparr>m_blocks := bs, m_size := m_size w + 1\<rparr>)"
    using bs(1) by (simp add: sv_emplace_back_def Let_def flip: w_def)
  moreover have "concat bs = map Some (xs @ [x]) @ replicate k' None" using bs(3) k(3) k' by (simp add: list_update_append)
  ultimately show ?thesis using bs(2) k(2) by (auto simp: represents_def)
qed

lemma destroy_ok:
  assumes "blocks_ok nb (m_blocks v)" "i < length (concat (m_blocks v))" "concat (m_blocks v) ! i \<noteq> None"
  shows "\<exists>v'. destroy nb i v = Some v' \<and> blocks_ok nb (m_blocks v') \<and> m_size v' = m_size v \<and>
    concat (m_blocks v') = (concat (m_blocks v))[i := None]"
proof -
  have "\<exists>x. sv_at nb v i = Some x" using assms by (auto simp: sv_at_def cell_eq)
  with set_cell_eq [OF assms(1,2), of None] show ?thesis by (auto simp: destroy_def)
qed

lemma destroy_all_ok:
  assumes "n \<le> m" "blocks_ok nb (m_blocks v)" "m \<le> length (concat (m_blocks v))"
    "\<forall>i. n \<le> i \<longrightarrow> i < m \<longrightarrow> concat (m_blocks v) ! i \<noteq> None"
  shows "\<exists>v'. destroy_all nb [n..<m] v = Some v' \<and> blocks_ok nb (m_blocks v') \<and> m_size v' = m_size v \<and>
    concat (m_blocks v') = take n (concat (m_blocks v)) @ replicate (m - n) None @ drop m (concat (m_blocks v))"
  using assms
proof (induction n arbitrary: v rule: inc_induct)
  case base
  then show ?case by simp
next
  case (step n)
  let ?ys = "concat (m_blocks v)"
  obtain w where w: "destroy nb n v = Some w" "blocks_ok nb (m_blocks w)" "m_size w = m_size v" "concat (m_blocks w) = ?ys[n := None]"
    using destroy_ok [of nb v n] step.hyps step.prems by auto
  obtain w' where w': "destroy_all nb [Suc n..<m] w = Some w'" "blocks_ok nb (m_blocks w')" "m_size w' = m_size w"
      "concat (m_blocks w') = take (Suc n) (?ys[n := None]) @ replicate (m - Suc n) None @ drop m (?ys[n := None])"
    using step.IH [of w] w step.hyps step.prems by auto
  have "take (Suc n) (?ys[n := None]) = take n ?ys @ [None]" using step.hyps step.prems(2) by (simp add: take_Suc_conv_app_nth)
  moreover have "m - n = Suc (m - Suc n)" using step.hyps by simp
  ultimately have "concat (m_blocks w') = take n ?ys @ replicate (m - n) None @ drop m ?ys"
    using w'(4) step.hyps by simp
  with w w' step.hyps show ?case by (simp add: upt_conv_Cons)
qed

lemma shrink_ok:
  assumes "represents nb v xs" "n \<le> length xs"
  shows "\<exists>v'. destroy_all nb [n..<length xs] v = Some v' \<and> represents nb (v'\<lparr>m_size := n\<rparr>) (take n xs)"
proof -
  obtain k where k: "blocks_ok nb (m_blocks v)" "m_size v = length xs" "concat (m_blocks v) = map Some xs @ replicate k None"
    using assms(1) by (elim representsE)
  obtain v' where "destroy_all nb [n..<length xs] v = Some v'" "blocks_ok nb (m_blocks v')"
      "concat (m_blocks v') = map Some (take n xs) @ replicate (length xs - n) None @ replicate k None"
    using destroy_all_ok [OF assms(2) k(1)] assms(2) by (auto simp: k(3) nth_append take_map)
  then show ?thesis using assms(2) by (auto simp: represents_def simp flip: replicate_add)
qed

lemma pop_back_ok:
  assumes "represents nb v xs" "length xs < 2 ^ 64"
  shows "if xs = [] then sv_pop_back nb v = None else \<exists>v'. sv_pop_back nb v = Some v' \<and> represents nb v' (butlast xs)"
proof (cases "xs = []")
  case True
  with sv_at_eq [OF assms(1), of "sub64 (m_size v) 1"] show ?thesis by (simp add: sv_pop_back_def destroy_def rd_def)
next
  case False
  have size: "m_size v = length xs" using assms(1) by (simp add: represents_def)
  have last: "sub64 (length xs) 1 = length xs - 1" using False assms(2) by (intro sub64_eq) (cases xs; simp)+
  have one: "[length xs - 1..<length xs] = [length xs - 1]" using False by (cases xs) simp_all
  have "n - 1 \<le> n" for n :: nat by simp
  from shrink_ok [OF assms(1) this] obtain v' where
    "destroy_all nb [length xs - 1..<length xs] v = Some v'" "represents nb (v'\<lparr>m_size := length xs - 1\<rparr>) (take (length xs - 1) xs)"
    by blast
  then have d: "destroy nb (length xs - 1) v = Some v'" unfolding one by (auto split: Option.bind_splits)
  then have "m_size v' = length xs" using size by (auto simp: destroy_def split: Option.bind_splits)
  with d have "sv_pop_back nb v = Some (v'\<lparr>m_size := length xs - 1\<rparr>)" by (simp add: sv_pop_back_def size last [unfolded One_nat_def])
  with False \<open>represents nb (v'\<lparr>m_size := length xs - 1\<rparr>) (take (length xs - 1) xs)\<close> show ?thesis
    by (simp add: butlast_conv_take)
qed

lemma reserve_ok:
  "represents nb v xs \<Longrightarrow> \<exists>v'. sv_reserve nb n v = Some v' \<and> represents nb v' xs \<and> n \<le> sv_capacity nb v'"
proof (induction "n - sv_capacity nb v" arbitrary: v rule: less_induct)
  case less
  show ?case
  proof (cases "n > sv_capacity nb v")
    case True
    then have "n - sv_capacity nb (increase_capacity nb v) < n - sv_capacity nb v"
      using grow_capacity [OF represents_bits [OF less.prems], of v] by (simp add: diff_less_mono2)
    from less.hyps [OF this represents_grow [OF less.prems]] True show ?thesis
      by (subst sv_reserve.simps) (simp only: if_True)
  next
    case False
    with less.prems show ?thesis by (subst sv_reserve.simps) simp
  qed
qed

lemma emplace_all_ok:
  "represents nb v xs \<Longrightarrow> \<exists>v'. emplace_all nb ys v = Some v' \<and> represents nb v' (xs @ ys)"
proof (induction ys arbitrary: v xs)
  case (Cons y ys)
  obtain w where w: "sv_emplace_back nb y v = Some w" "represents nb w (xs @ [y])"
    using emplace_back_ok [OF Cons.prems] by blast
  from Cons.IH [OF w(2)] obtain v' where "emplace_all nb ys w = Some v'" "represents nb v' ((xs @ [y]) @ ys)" by blast
  with w(1) show ?case by simp
qed simp

lemma clear_ok: "represents nb v xs \<Longrightarrow> \<exists>v'. sv_clear nb v = Some v' \<and> represents nb v' []"
  using shrink_ok [of nb v xs 0] by (auto simp: sv_clear_def represents_def)

definition resized :: "nat \<Rightarrow> 'a \<Rightarrow> 'a list \<Rightarrow> 'a list" where
  "resized n x xs = take n xs @ replicate (n - length xs) x"

lemma resize_ok:
  assumes "represents nb v xs"
  shows "\<exists>v'. sv_resize nb n x v = Some v' \<and> represents nb v' (resized n x xs)"
proof -
  have size: "m_size v = length xs" using assms by (simp add: represents_def)
  consider "n < length xs" | "n = length xs" | "length xs < n" by linarith
  then show ?thesis
  proof cases
    case 1
    with shrink_ok [OF assms, of n] size show ?thesis by (auto simp: sv_resize_def resize_shrink_def resized_def)
  next
    case 2
    with assms size show ?thesis by (simp add: sv_resize_def resized_def)
  next
    case 3
    obtain w where "sv_reserve nb n v = Some w" "represents nb w xs" using reserve_ok [OF assms] by blast
    with emplace_all_ok [of nb w xs "replicate (n - length xs) x"] 3 size
    show ?thesis by (auto simp: sv_resize_def resized_def)
  qed
qed

lemma drop_blocks_eq: "drop_blocks n bs = take n bs"
proof (induction n bs rule: drop_blocks.induct)
  case (1 n bs)
  then show ?case by (subst drop_blocks.simps) (auto simp: butlast_conv_take min_def)
qed

lemma blocks_needed:
  assumes "nb < 32" "c + 2 ^ nb < 2 ^ 64"
  shows "c \<le> calc_num_blocks_for_capacity nb c * 2 ^ nb"
proof -
  have "sub64 ((c + 2 ^ nb) mod 2 ^ 64) 1 = c + 2 ^ nb - 1"
    using assms by (subst sub64_eq) (simp_all add: Suc_leI)
  then have "calc_num_blocks_for_capacity nb c = (c + 2 ^ nb - 1) div 2 ^ nb"
    using assms(1) by (simp add: calc_num_blocks_for_capacity_def)
  moreover have "c + 2 ^ nb - 1 < ((c + 2 ^ nb - 1) div 2 ^ nb) * 2 ^ nb + 2 ^ nb"
    using dividend_less_div_times [of "2 ^ nb" "c + 2 ^ nb - 1"] by simp
  moreover have "c \<le> q * p" if "c + p - 1 < q * p + p" "0 < p" for q p :: nat using that by linarith
  ultimately show ?thesis by simp
qed

lemma shrink_to_fit_ok:
  assumes "represents nb v xs" "length xs + 2 ^ nb < 2 ^ 64"
  shows "represents nb (shrink_to_fit nb v) xs"
proof -
  obtain k where k: "blocks_ok nb (m_blocks v)" "m_size v = length xs" "concat (m_blocks v) = map Some xs @ replicate k None"
    using assms(1) by (elim representsE)
  let ?n = "calc_num_blocks_for_capacity nb (length xs)"
  have "concat (take n bs) = take (n * 2 ^ nb) (concat bs)" if "blocks_ok nb bs" for n and bs :: "'a option list list"
    using that
  proof (induction n arbitrary: bs)
    case (Suc n)
    then show ?case by (cases bs) (auto simp: blocks_ok_def)
  qed simp
  from this [OF k(1), of ?n] have "concat (take ?n (m_blocks v)) = map Some xs @ take (?n * 2 ^ nb - length xs) (replicate k None)"
    using blocks_needed [OF represents_bits [OF assms(1)] assms(2)] by (simp add: k(3))
  moreover have "blocks_ok nb (take ?n (m_blocks v))" using k(1) by (auto simp: blocks_ok_def dest: in_set_takeD)
  ultimately show ?thesis using k(2) by (auto simp: represents_def shrink_to_fit_def drop_blocks_eq)
qed

lemma walk_ok:
  assumes "represents nb v xs" "length xs < 2 ^ 64" "i \<le> length xs"
  shows "walk nb v (Iter i) = Some (drop i xs)"
  using assms(3)
proof (induction i rule: inc_induct)
  case base
  then show ?case using assms(1) by (subst walk.simps) (simp add: sv_end_def represents_def)
next
  case (step i)
  then have "(i + 1) mod 2 ^ 64 = Suc i" using assms(2) by simp
  with step assms(1) show ?case
    by (subst walk.simps) (simp add: sv_end_def represents_def iter_deref_def sv_at_eq [OF assms(1)] iter_next_def Cons_nth_drop_Suc)
qed

lemma append_everything_ok:
  assumes "represents nb v xs" "represents nb w ys" "length ys < 2 ^ 64"
  shows "\<exists>v'. append_everything_from nb w v = Some v' \<and> represents nb v' (xs @ ys)"
proof -
  obtain u where "sv_reserve nb (m_size v + m_size w) v = Some u" "represents nb u xs"
    using reserve_ok [OF assms(1)] by blast
  with walk_ok [OF assms(2,3), of 0] emplace_all_ok [of nb u xs ys] show ?thesis
    by (simp add: append_everything_from_def sv_begin_def)
qed

lemma sv_copy_assign_ok:
  assumes "represents nb v xs" "represents nb w ys" "length ys < 2 ^ 64"
  shows "\<exists>v'. sv_copy_assign nb False w v = Some v' \<and> represents nb v' ys"
  using clear_ok [OF assms(1)] append_everything_ok [of nb _ "[]", OF _ assms(2,3)] by (fastforce simp: sv_copy_assign_def)

lemma sv_move_assign_ok:
  assumes "represents nb v xs" "represents nb w ys"
  shows "\<exists>v' w'. sv_move_assign nb w v = Some (v', w') \<and> represents nb v' ys \<and> represents nb w' []"
  using clear_ok [OF assms(1)] assms(2) by (auto simp: sv_move_assign_def represents_def blocks_ok_def)

subsection \<open>The segmented vector as a sequence\<close>

interpretation sv: sequence "sv_emplace_back nb" "sv_pop_back nb" "sv_at nb" "sv_resize nb" "sv_clear nb" "sv_reserve nb"
  "shrink_to_fit nb" "represents nb" "2 ^ 64 - 2 ^ nb" for nb
proof
  fix v :: "'a segmented_vector" and xs i n x
  show "represents nb v xs \<Longrightarrow> \<exists>v'. sv_emplace_back nb x v = Some v' \<and> represents nb v' (xs @ [x])" by (rule emplace_back_ok)
  show "represents nb v xs \<Longrightarrow> length xs < 2 ^ 64 - 2 ^ nb \<Longrightarrow>
      if xs = [] then sv_pop_back nb v = None else \<exists>v'. sv_pop_back nb v = Some v' \<and> represents nb v' (butlast xs)"
    by (rule pop_back_ok) simp_all
  show "represents nb v xs \<Longrightarrow> sv_at nb v i = rd xs i" by (rule sv_at_eq)
  show "represents nb v xs \<Longrightarrow> \<exists>v'. sv_resize nb n x v = Some v' \<and> represents nb v' (take n xs @ replicate (n - length xs) x)"
    using resize_ok [of nb v xs n x] by (simp add: resized_def)
  show "represents nb v xs \<Longrightarrow> \<exists>v'. sv_clear nb v = Some v' \<and> represents nb v' []" by (rule clear_ok)
  show "represents nb v xs \<Longrightarrow> \<exists>v'. sv_reserve nb n v = Some v' \<and> represents nb v' xs" using reserve_ok by blast
  show "represents nb v xs \<Longrightarrow> length xs < 2 ^ 64 - 2 ^ nb \<Longrightarrow> represents nb (shrink_to_fit nb v) xs"
    by (rule shrink_to_fit_ok) simp_all
qed

definition sv_op :: "nat \<Rightarrow> 'a seq_op \<Rightarrow> 'a segmented_vector \<Rightarrow> ('a option \<times> 'a segmented_vector) option" where
  "sv_op nb = seq_op_run (sv_emplace_back nb) (sv_pop_back nb) (sv_at nb) (sv_resize nb) (sv_clear nb) (sv_reserve nb) (shrink_to_fit nb)"

subsection \<open>The size of a block\<close>

lemma closest_loop_spec:
  assumes "0 < s" "max_val < 2 ^ 63" "s * 2 ^ f \<le> max_val"
  shows "\<exists>g. closest_loop max_val s f = Some g \<and> s * 2 ^ g \<le> max_val \<and> max_val < s * 2 ^ (g + 1)"
  using assms(3)
proof (induction "max_val - s * 2 ^ f" arbitrary: f rule: less_induct)
  case less
  have "2 ^ f \<le> s * 2 ^ f" using assms(1) by simp
  then have "2 ^ f \<le> max_val" using less.prems by (rule order.trans)
  with assms(2) have "(2 :: nat) ^ f < 2 ^ 63" by simp
  then have f: "f < 63" by (simp only: power_strict_increasing_iff)
  have shift: "push_bit (f + 1) s = s * 2 ^ (f + 1)" by (simp only: push_bit_eq_mult)
  have "s * 2 ^ (f + 1) < 2 ^ 64" using less.prems assms(2) by simp
  with shift have mod: "push_bit (f + 1) s mod 2 ^ 64 = s * 2 ^ (f + 1)" by (simp only: mod_less)
  show ?case
  proof (cases "s * 2 ^ (f + 1) \<le> max_val")
    case True
    moreover have "s * 2 ^ f < s * 2 ^ (f + 1)" using assms(1) by simp
    ultimately have "max_val - s * 2 ^ (f + 1) < max_val - s * 2 ^ f" by linarith
    from less.hyps [OF this True] show ?thesis
      using f True mod by (subst closest_loop.simps) (simp del: push_bit_Suc power_Suc)
  next
    case False
    then show ?thesis using f mod less.prems by (subst closest_loop.simps) (simp del: push_bit_Suc power_Suc)
  qed
qed

text \<open>Property C28: the block size.  For elements and segments below \<open>2^63\<close> bytes of which fewer than
  \<open>2^32\<close> fit into a segment, the constant is computed without an undefined shift and is the largest
  power of two of elements that fits the segment; if not even one element fits, a block is a single
  element and exceeds the segment.\<close>

theorem num_bits_closest_fits:
  assumes "0 < s" "s < 2 ^ 63" "max_val < 2 ^ 63" "max_val < s * 2 ^ 32"
  shows "\<exists>f. num_bits_closest max_val s = Some f \<and> f < 32 \<and> max_val < s * (2 * num_elements_in_block f) \<and>
    (if s \<le> max_val then s * num_elements_in_block f \<le> max_val else num_elements_in_block f = 1)"
proof (cases "s \<le> max_val")
  case True
  obtain f where f: "num_bits_closest max_val s = Some f" "s * 2 ^ f \<le> max_val" "max_val < s * 2 ^ (f + 1)"
    using closest_loop_spec [of s max_val 0] assms True by (auto simp: num_bits_closest_def)
  have "s * 2 ^ f < s * 2 ^ 32" using f(2) assms(4) by (rule le_less_trans)
  then have "(2 :: nat) ^ f < 2 ^ 32" using assms(1) by (simp only: nat_mult_less_cancel1)
  then have "f < 32" by (simp only: power_strict_increasing_iff)
  with f True show ?thesis by (simp add: mult.assoc)
next
  case False
  have "\<not> push_bit 1 s mod 2 ^ 64 \<le> max_val" using False assms(2) by (simp add: push_bit_eq_mult)
  then have "num_bits_closest max_val s = Some 0"
    by (simp add: num_bits_closest_def) (subst closest_loop.simps, simp)
  with False show ?thesis by simp
qed

theorem num_bits_closest_fits_witness:
  "\<exists>f. num_bits_closest 4096 24 = Some f \<and> 24 * num_elements_in_block f \<le> 4096 \<and> 4096 < 24 * (2 * num_elements_in_block f)"
  using num_bits_closest_fits [of 24 4096] by auto

subsection \<open>The properties\<close>

text \<open>Property C26: a segmented vector behaves as a list.  Any sequence of insertions and removals at the end,
  lookups, resizings, clearings, reservations and shrinkings answers as on a list and faults exactly
  where the list has no such element, for every block size that the 32-bit constant can hold.\<close>

theorem segmented_vector_refines_list:
  assumes "nb < 32" "seq_fits (2 ^ 64 - 2 ^ nb) ops []"
  shows "case ops_run seq_op_spec ops [] of
      None \<Rightarrow> ops_run (sv_op nb) ops make_segmented_vector = None
    | Some (answers, xs) \<Rightarrow> \<exists>v. ops_run (sv_op nb) ops make_segmented_vector = Some (answers, v) \<and>
        m_size v = length xs \<and> (\<forall>i. sv_at nb v i = rd xs i)"
  using sv.seq_refines [OF represents_empty [OF assms(1)] assms(2)] sv_at_eq
  by (fastforce simp: sv_op_def represents_def split: option.splits)

definition sample_ops :: "nat seq_op list" where
  "sample_ops = [Seq_push 1, Seq_push 2, Seq_push 3, Seq_pop, Seq_get 1, Seq_resize 4 7, Seq_shrink, Seq_get 3]"

lemma sample_bits: "(1 :: nat) < 32"
  by simp

lemma sample_fits: "seq_fits (2 ^ 64 - 2 ^ 1) sample_ops []"
  by (simp add: sample_ops_def rd_def)

lemma sample_run: "ops_run seq_op_spec sample_ops [] = Some ([None, None, None, None, Some 2, None, None, Some 7], [1, 2, 7, 7])"
  by (simp add: sample_ops_def rd_def numeral_2_eq_2 numeral_3_eq_3)

theorem segmented_vector_refines_list_witness:
  "\<exists>v. ops_run (sv_op 1) sample_ops make_segmented_vector = Some ([None, None, None, None, Some 2, None, None, Some 7], v) \<and>
    m_size v = 4 \<and> (\<forall>i. sv_at 1 v i = rd [1, 2, 7, 7] i)"
  using segmented_vector_refines_list [OF _ sample_fits] unfolding sample_run by (simp add: eval_nat_numeral)

text \<open>Property C27: the memory of a segmented vector is well typed after any such sequence: all blocks have the block
  size, there are enough of them, and exactly the cells below the size hold an object, so nothing is
  constructed over a live object, read before it is constructed or left undestroyed.\<close>

theorem segmented_vector_well_typed:
  assumes "nb < 32" "seq_fits (2 ^ 64 - 2 ^ nb) ops []" "ops_run (sv_op nb) ops make_segmented_vector = Some (answers, v)"
  shows "(\<forall>b \<in> set (m_blocks v). length b = num_elements_in_block nb) \<and> m_size v \<le> sv_capacity nb v \<and>
    (\<forall>i < sv_capacity nb v. cell nb (m_blocks v) i = Some None \<longleftrightarrow> m_size v \<le> i)"
proof -
  obtain xs where "represents nb v xs"
    using sv.seq_refines [OF represents_empty [OF assms(1)] assms(2)] assms(3) by (auto simp: sv_op_def split: option.splits)
  then obtain k where k: "blocks_ok nb (m_blocks v)" "m_size v = length xs" "concat (m_blocks v) = map Some xs @ replicate k None"
      "sv_capacity nb v = length xs + k" by (elim representsE)
  have "cell nb (m_blocks v) i = Some None \<longleftrightarrow> length xs \<le> i" if "i < length xs + k" for i
    using that by (auto simp: cell_eq [OF k(1)] k(3) nth_append)
  then show ?thesis using k by (simp add: blocks_ok_def)
qed

theorem segmented_vector_well_typed_witness:
  "\<exists>answers v. ops_run (sv_op 1) sample_ops make_segmented_vector = Some (answers, v) \<and> m_size v \<le> sv_capacity 1 v"
proof -
  from sv.seq_refines [OF represents_empty sample_fits, OF sample_bits] obtain answers v where
    run: "ops_run (sv_op 1) sample_ops make_segmented_vector = Some (answers, v)"
    unfolding sample_run by (auto simp: sv_op_def)
  with segmented_vector_well_typed [OF sample_bits sample_fits run] show ?thesis by blast
qed

end
