(* ===== verification/Util.thy ===== *)
theory Util
  imports Wyhash Utf8
begin

text \<open>
  \<open>src/src/include/common/util.h\<close> and \<open>src/src/common/util.cc\<close>: hashing, alignment, bit tricks, the
  small decoder \<open>NextUtf8Char\<close> and the compare-and-swap loops \<open>UpdateMax\<close> and \<open>UpdateMin\<close>, the
  latter as a step relation over any number of threads.
\<close>

definition HashFn :: "64 word \<Rightarrow> 64 word" where
  "HashFn k =
    (let m = 0xc6a4a7935bd1e995;
         h = 0x8445d61a4e774912 XOR (8 * m);
         k = k * m;
         k = k XOR drop_bit 47 k;
         k = k * m;
         h = h XOR k;
         h = h * m;
         h = h XOR drop_bit 47 h;
         h = h * m
     in h XOR drop_bit 47 h)"

definition UpAlign :: "64 word \<Rightarrow> 64 word \<Rightarrow> 64 word option" where
  "UpAlign x align_size = do {
     assert_opt (align_size AND (align_size - 1) = 0);
     Some ((x + (align_size - 1)) AND NOT (align_size - 1)) }"

definition DownAlign :: "64 word \<Rightarrow> 64 word \<Rightarrow> 64 word option" where
  "DownAlign x align_size = do {
     assert_opt (align_size AND (align_size - 1) = 0);
     Some (x - (x AND (align_size - 1))) }"

text \<open>A remainder by zero is undefined.\<close>

definition IsAligned :: "64 word \<Rightarrow> 64 word \<Rightarrow> 64 word \<Rightarrow> bool option" where
  "IsAligned align_size p p_size =
    (if align_size = 0 then None else Some (p mod align_size = 0 \<and> p_size mod align_size = 0))"

text \<open>\<open>__builtin_ctz\<close> takes an \<open>unsigned int\<close> and is undefined at zero.\<close>

definition builtin_ctz :: "32 word \<Rightarrow> nat option" where
  "builtin_ctz w = (if w = 0 then None else Some (length (takeWhile (\<lambda>i. \<not> bit w i) [0..<32])))"

definition GetFirstBitSet :: "64 word \<Rightarrow> nat option" where
  "GetFirstBitSet value = do { assert_opt (value \<noteq> 0); builtin_ctz (ucast value) }"

definition ClearLeftmostSet :: "'a::len word \<Rightarrow> 'a word option" where
  "ClearLeftmostSet value = do { assert_opt (value \<noteq> 0); Some (value AND (value - 1)) }"

definition countl_zero :: "'a::len word \<Rightarrow> nat" where
  "countl_zero a = length (takeWhile (\<lambda>i. \<not> bit a i) (rev [0..<LENGTH('a)]))"

definition BitLength :: "'a::len word \<Rightarrow> nat option" where
  "BitLength a = do { assert_opt (a > 0); Some (LENGTH('a) - countl_zero a) }"

definition Square :: "'a::len word \<Rightarrow> 'a word" where
  "Square a = a * a"

function Power :: "'a::len word \<Rightarrow> nat \<Rightarrow> 'a word" where
  "Power a n = (if n = 0 then 1 else Square (Power a (n div 2)) * (if n mod 2 = 0 then 1 else a))"
  by auto
termination by (relation "measure snd") auto

declare Power.simps [simp del]

definition ArraySum :: "'a::len word list \<Rightarrow> 'a word" where
  "ArraySum array = fold (\<lambda>x sum. sum + x) array 0"

definition LoadUnaligned :: "bytes \<Rightarrow> nat \<Rightarrow> 32 word option" where
  "LoadUnaligned buf p = do { x \<leftarrow> read_le buf p 4; Some (ucast x) }"

text \<open>\<open>s.data()\<close> is terminated by a zero byte; the exception is a fault.  The result has the new \<open>i\<close>.\<close>

definition NextUtf8Char :: "bytes \<Rightarrow> nat \<Rightarrow> (32 word \<times> nat) option" where
  "NextUtf8Char s i = do {
     let p = s @ [0];
     c \<leftarrow> rd p i;
     if c < 0x80 then Some (ucast c, i + 1)
     else if drop_bit 5 c = 0x6 then do {
       c1 \<leftarrow> rd p (i + 1);
       Some (push_bit 6 (ucast c AND 0x1F) OR (ucast c1 AND 0x3F), i + 2) }
     else if drop_bit 4 c = 0xE then do {
       c1 \<leftarrow> rd p (i + 1);
       c2 \<leftarrow> rd p (i + 2);
       Some (push_bit 12 (ucast c AND 0xF) OR push_bit 6 (ucast c1 AND 0x3F) OR (ucast c2 AND 0x3F), i + 3) }
     else if drop_bit 3 c = 0x1E then do {
       c1 \<leftarrow> rd p (i + 1);
       c2 \<leftarrow> rd p (i + 2);
       c3 \<leftarrow> rd p (i + 3);
       Some (push_bit 18 (ucast c AND 0x7) OR push_bit 12 (ucast c1 AND 0x3F) OR push_bit 6 (ucast c2 AND 0x3F)
             OR (ucast c3 AND 0x3F), i + 4) }
     else None }"

subsection \<open>Atomic maximum and minimum\<close>

text \<open>
  A thread that runs \<open>UpdateMax(atomic, v)\<close>: before the first load, in the loop with \<open>prev_value\<close>,
  or returned.  \<open>compare_exchange_weak\<close> either stores, when the atomic holds \<open>prev_value\<close>, or fails,
  also spuriously, and then reloads \<open>prev_value\<close>.
\<close>

datatype updater = Loading nat | Trying nat nat | Returned nat

inductive updater_step :: "(nat \<Rightarrow> nat \<Rightarrow> bool) \<Rightarrow> nat \<times> updater \<Rightarrow> nat \<times> updater \<Rightarrow> bool" for lt where
  load: "updater_step lt (a, Loading v) (a, Trying v a)"
| leave: "\<not> lt prev v \<Longrightarrow> updater_step lt (a, Trying v prev) (a, Returned v)"
| stored: "lt prev v \<Longrightarrow> a = prev \<Longrightarrow> updater_step lt (a, Trying v prev) (v, Returned v)"
| failed: "lt prev v \<Longrightarrow> updater_step lt (a, Trying v prev) (a, Trying v a)"

inductive_cases updater_stepE: "updater_step lt (a, u) (b, w)"

definition UpdateMax :: "nat \<times> updater \<Rightarrow> nat \<times> updater \<Rightarrow> bool" where
  "UpdateMax = updater_step (\<lambda>prev v. prev < v)"

definition UpdateMin :: "nat \<times> updater \<Rightarrow> nat \<times> updater \<Rightarrow> bool" where
  "UpdateMin = updater_step (\<lambda>prev v. prev > v)"

text \<open>Threads in any interleaving.\<close>

inductive updates :: "(nat \<times> updater \<Rightarrow> nat \<times> updater \<Rightarrow> bool) \<Rightarrow> nat \<times> updater list \<Rightarrow> nat \<times> updater list \<Rightarrow> bool"
  for step1 where
  refl: "updates step1 s s"
| step: "updates step1 s (a, us) \<Longrightarrow> i < length us \<Longrightarrow> step1 (a, us ! i) (b, u) \<Longrightarrow>
    updates step1 s (b, us[i := u])"

fun value_of :: "updater \<Rightarrow> nat" where
  "value_of (Loading v) = v" | "value_of (Trying v prev) = v" | "value_of (Returned v) = v"

text \<open>
  The invariant: the atomic is the initial value or one of the given ones, it never falls below
  what it was, below what a thread has seen, or below the value of a thread that has returned.
\<close>

definition max_inv :: "nat \<Rightarrow> nat list \<Rightarrow> nat \<times> updater list \<Rightarrow> bool" where
  "max_inv a0 vs s \<longleftrightarrow> (let (a, us) = s in map value_of us = vs \<and> a \<in> insert a0 (set vs) \<and> a0 \<le> a \<and>
     (\<forall>u \<in> set us. case u of Loading v \<Rightarrow> True | Trying v prev \<Rightarrow> prev \<le> a | Returned v \<Rightarrow> v \<le> a))"

lemma max_inv_step:
  assumes "max_inv a0 vs (a, us)" "i < length us" "UpdateMax (a, us ! i) (b, u)"
  shows "max_inv a0 vs (b, us[i := u])"
proof -
  have "us ! i \<in> set us" using assms(2) by simp
  then have "case us ! i of Loading v \<Rightarrow> True | Trying v prev \<Rightarrow> prev \<le> a | Returned v \<Rightarrow> v \<le> a"
    using assms(1) by (auto simp: max_inv_def)
  then have v: "value_of u = value_of (us ! i)" and ab: "a \<le> b" and bv: "b = a \<or> b = value_of (us ! i)"
    and u: "case u of Loading v \<Rightarrow> True | Trying v prev \<Rightarrow> prev \<le> b | Returned v \<Rightarrow> v \<le> b"
    using assms(3) by (auto simp: UpdateMax_def elim!: updater_stepE)
  have "map value_of (us[i := u]) = vs" using assms(1,2) v
    by (simp add: max_inv_def map_update) (metis list_update_id nth_map)
  moreover have "value_of (us ! i) \<in> set vs" using assms(1,2) by (auto simp: max_inv_def)
  moreover have "\<forall>w \<in> set (us[i := u]). case w of Loading v \<Rightarrow> True | Trying v prev \<Rightarrow> prev \<le> b | Returned v \<Rightarrow> v \<le> b"
  proof
    fix w assume "w \<in> set (us[i := u])"
    then have "w \<in> set us \<or> w = u" using set_update_subset_insert by fastforce
    then show "case w of Loading v \<Rightarrow> True | Trying v prev \<Rightarrow> prev \<le> b | Returned v \<Rightarrow> v \<le> b"
      using assms(1) u ab by (fastforce simp: max_inv_def split: updater.splits)
  qed
  ultimately show ?thesis using assms(1) ab bv by (auto simp: max_inv_def)
qed

lemma updates_max_inv: "updates UpdateMax (a0, map Loading vs) s \<Longrightarrow> max_inv a0 vs s"
proof (induction "(a0, map Loading vs)" s rule: updates.induct)
  case refl
  then show ?case by (auto simp: max_inv_def comp_def)
next
  case (step a us i b u)
  then show ?case using max_inv_step by blast
qed

subsection \<open>Lemmas\<close>

lemma char_int_and: "n \<le> 8 \<Longrightarrow> char_int b AND mask n = ucast b AND mask n"
  by (intro bit_word_eqI) (auto simp: char_int_def bit_simps)

lemma less_0x80: "b < 0x80 \<longleftrightarrow> \<not> bit (b :: byte) 7"
proof
  assume "b < 0x80"
  then show "\<not> bit b 7" using word_high_bits [of b 7 7] by simp
next
  assume n: "\<not> bit b 7"
  have "b = take_bit 7 b"
  proof (rule bit_word_eqI)
    fix i assume "i < LENGTH(8)"
    then show "bit b i = bit (take_bit 7 b) i" using n by (cases "i = 7") (auto simp: bit_simps)
  qed
  then have "unat b = take_bit 7 (unat b)" by (metis unsigned_take_bit_eq)
  then have "unat b < 128" using take_bit_nat_less_exp [of 7 "unat b"] by simp
  then show "b < 0x80" by (simp add: word_less_nat_alt)
qed

lemma char_int_ascii: "b < 0x80 \<Longrightarrow> char_int b = ucast b"
proof -
  assume "b < 0x80"
  then have n: "\<not> bit b 7" by (simp add: less_0x80)
  show ?thesis
  proof (rule bit_word_eqI)
    fix i assume "i < LENGTH(32)"
    then show "bit (char_int b) i = bit (ucast b :: 32 word) i"
      using n bit_imp_le_length [of b i]
      by (cases "i < 7"; cases "i = 7") (auto simp: char_int_def bit_simps min_def)
  qed
qed

lemma header_shifts:
  "b < 0x80 \<longleftrightarrow> b AND 0x80 = (0 :: byte)"
  "drop_bit 5 b = 0x6 \<Longrightarrow> multiByteSequenceLength b = Some 2"
  "drop_bit 4 b = 0xE \<Longrightarrow> multiByteSequenceLength b = Some 3"
  "drop_bit 3 b = 0x1E \<Longrightarrow> multiByteSequenceLength b = Some 4"
proof -
  show "b < 0x80 \<longleftrightarrow> b AND 0x80 = (0 :: byte)" by (simp only: less_0x80 ascii_bit)
  have bits: "bit b (n + i) \<longleftrightarrow> bit w i" if "drop_bit n b = w" for n w i
    using that by (auto simp: bit_simps)
  show "multiByteSequenceLength b = Some 2" if "drop_bit 5 b = 0x6"
    using bits [OF that, of 2] bits [OF that, of 1] bits [OF that, of 0]
    by (simp add: multiByteSequenceLength_eq mb_len_def bit_iff_odd [of 6])
  show "multiByteSequenceLength b = Some 3" if "drop_bit 4 b = 0xE"
    using bits [OF that, of 3] bits [OF that, of 2] bits [OF that, of 1] bits [OF that, of 0]
    by (simp add: multiByteSequenceLength_eq mb_len_def bit_iff_odd [of 14])
  show "multiByteSequenceLength b = Some 4" if "drop_bit 3 b = 0x1E"
    using bits [OF that, of 4] bits [OF that, of 3] bits [OF that, of 2] bits [OF that, of 1] bits [OF that, of 0]
    by (simp add: multiByteSequenceLength_eq mb_len_def bit_iff_odd [of 30])
qed

lemma and_minus_one: "x AND NOT (a - 1) = x - (x AND (a - 1))" for x a :: "64 word"
proof -
  have "(x AND (a - 1)) + (x AND NOT (a - 1)) = x"
    by (subst disjunctive_add) (auto simp: bit_simps intro!: bit_word_eqI)
  then show ?thesis by (metis add_diff_cancel_left')
qed

subsection \<open>Properties\<close>

text \<open>Property C40: \<open>NextUtf8Char\<close>, where it does not throw, decodes what \<open>readCodePoint\<close> decodes: the
  same code point and the same next position, for every byte string and every index.\<close>

theorem NextUtf8Char_agrees:
  assumes "NextUtf8Char s i = Some (c, j)" "j \<le> n"
  shows "readCodePoint (s @ [0]) i n = Some \<lparr>next_pos = j, codePoint = c\<rparr> \<and> i < j \<and> j \<le> i + 4"
proof -
  note m = mask_consts(1-3)[where 'a = 32] mask_consts(5)[where 'a = 32]
  obtain b where b: "rd (s @ [0]) i = Some b" using assms(1) by (cases "rd (s @ [0]) i") (auto simp: NextUtf8Char_def)
  consider "b < 0x80" | "\<not> b < 0x80" "drop_bit 5 b = 0x6" | "\<not> b < 0x80" "drop_bit 4 b = 0xE"
    | "\<not> b < 0x80" "drop_bit 3 b = 0x1E"
    using assms(1) b by (auto simp: NextUtf8Char_def Let_def split: if_splits)
  then show ?thesis
  proof cases
    case 1
    with b assms show ?thesis
      by (auto simp: NextUtf8Char_def Let_def readCodePoint_def header_shifts(1) [symmetric] char_int_ascii)
  next
    case 2
    note l = header_shifts(2) [OF 2(2)]
    from 2 b assms l show ?thesis
      by (auto simp: NextUtf8Char_def Let_def readCodePoint_def header_shifts(1) [symmetric]
          readMultiByteCase_def m char_int_and bind_eq_Some_conv)
  next
    case 3
    then have "drop_bit 5 b \<noteq> 0x6" using header_shifts(2,3) by fastforce
    moreover note l = header_shifts(3) [OF 3(2)]
    ultimately show ?thesis using 3 b assms
      by (auto simp: NextUtf8Char_def Let_def readCodePoint_def header_shifts(1) [symmetric]
          readMultiByteCase_def m char_int_and bind_eq_Some_conv)
  next
    case 4
    then have "drop_bit 5 b \<noteq> 0x6" "drop_bit 4 b \<noteq> 0xE" using header_shifts(2-4) by fastforce+
    moreover note l = header_shifts(4) [OF 4(2)]
    ultimately show ?thesis using 4 b assms
      by (auto simp: NextUtf8Char_def Let_def readCodePoint_def header_shifts(1) [symmetric]
          readMultiByteCase_def m char_int_and bind_eq_Some_conv)
  qed
qed

theorem NextUtf8Char_agrees_witness:
  "readCodePoint ([0xE2, 0x82, 0xAC] @ [0]) 0 3 = Some \<lparr>next_pos = 3, codePoint = 0x20AC\<rparr>"
proof -
  have "NextUtf8Char [0xE2, 0x82, 0xAC] 0 = Some (0x20AC, 3)" by code_simp
  from NextUtf8Char_agrees [OF this, of 3] show ?thesis by simp
qed

text \<open>\<open>UpAlign\<close> and \<open>DownAlign\<close> assert a power of two or zero; for \<open>2^k\<close> they return the next
  multiple not below the argument, unless that overflows 64 bits, and the next one not above it.\<close>

theorem align_correct:
  assumes "k < 64"
  shows "\<exists>d. DownAlign x (2 ^ k) = Some d \<and> unat d = unat x div 2 ^ k * 2 ^ k \<and>
    (\<exists>u. UpAlign x (2 ^ k) = Some u \<and> (unat x + 2 ^ k \<le> 2 ^ 64 \<longrightarrow> unat u = (unat x + (2 ^ k - 1)) div 2 ^ k * 2 ^ k))"
proof -
  have mk: "2 ^ k - 1 = (mask k :: 64 word)" by (simp add: mask_eq_exp_minus_1)
  have z: "(2 ^ k AND mask k :: 64 word) = 0" by (intro bit_word_eqI) (auto simp: bit_simps)
  have down: "unat (y - (y AND mask k)) = unat y div 2 ^ k * 2 ^ k" for y :: "64 word"
  proof -
    have m: "unat (y AND mask k) = unat y mod 2 ^ k"
      by (simp add: take_bit_eq_mask [symmetric] unsigned_take_bit_eq) (simp add: take_bit_eq_mod)
    then have "unat (y AND mask k) \<le> unat y" by simp
    then have "unat (y - (y AND mask k)) = unat y - unat (y AND mask k)"
      by (simp add: unat_sub word_le_nat_alt)
    then show ?thesis by (simp add: m minus_mod_eq_div_mult)
  qed
  have "unat (x + mask k) = unat x + (2 ^ k - 1)" if "unat x + 2 ^ k \<le> 2 ^ 64"
  proof -
    have "unat (mask k :: 64 word) = mask k" by (rule bit_eqI) (use assms in \<open>auto simp: bit_simps\<close>)
    then have "unat (mask k :: 64 word) = 2 ^ k - 1" by (simp add: mask_eq_exp_minus_1)
    moreover have "unat x + (2 ^ k - 1) < 2 ^ 64" using that zero_less_power [of "2 :: nat" k] by linarith
    ultimately show ?thesis by (simp add: unat_word_ariths)
  qed
  then show ?thesis using z down [of x] down [of "x + mask k"]
    by (simp add: DownAlign_def UpAlign_def mk and_minus_one [of _ "2 ^ k", unfolded mk])
qed

theorem align_correct_witness: "\<exists>d. DownAlign 13 (2 ^ 3) = Some d \<and> unat d = 8"
  using align_correct [of 3 13] by auto

text \<open>Property C37: however the loads and compare-and-swaps of any number of \<open>UpdateMax\<close> calls
  interleave, with spurious failures, the atomic never decreases, and when all calls have returned
  it holds the maximum of its initial value and all arguments.\<close>

theorem UpdateMax_max:
  assumes "updates UpdateMax (a0, map Loading vs) (a, us)" "\<forall>u \<in> set us. \<exists>v. u = Returned v"
  shows "a = Max (insert a0 (set vs))"
proof -
  have inv: "max_inv a0 vs (a, us)" using updates_max_inv [OF assms(1)] .
  have "v \<le> a" if "v \<in> set vs" for v
  proof -
    obtain u where "u \<in> set us" "value_of u = v" using inv \<open>v \<in> set vs\<close> by (auto simp: max_inv_def)
    with assms(2) inv show ?thesis by (force simp: max_inv_def)
  qed
  then show ?thesis using inv by (intro Max_eqI [symmetric]) (auto simp: max_inv_def)
qed

theorem UpdateMax_max_witness:
  "Max (insert 3 (set [5 :: nat])) = 5 \<and> updates UpdateMax (3, [Loading 5]) (5, [Returned 5])"
proof -
  have 1: "updates UpdateMax (3, [Loading 5]) (3, [Trying 5 3])"
    using updates.step [OF updates.refl, of 0 "[Loading 5]" UpdateMax 3 3 "Trying 5 3"] updater_step.load
    by (simp add: UpdateMax_def)
  have 2: "updates UpdateMax (3, [Loading 5]) (5, [Returned 5])"
    using updates.step [OF 1, of 0 5 "Returned 5"] updater_step.stored [of "\<lambda>prev v. prev < v" 3 5 3]
    by (simp add: UpdateMax_def)
  with UpdateMax_max [of 3 "[5]" 5 "[Returned 5]"] show ?thesis by simp
qed

text \<open>\<open>ClearLeftmostSet\<close> clears the lowest set bit, the rightmost one, and keeps all
  others.\<close>

theorem ClearLeftmostSet_clears_lowest:
  fixes v :: "'a::len word"
  assumes "bit v k" "\<forall>i < k. \<not> bit v i"
  shows "\<exists>w. ClearLeftmostSet v = Some w \<and> (\<forall>i. bit w i \<longleftrightarrow> bit v i \<and> i \<noteq> k)"
proof -
  define x where "x = v AND NOT (mask (Suc k))"
  have k: "k < LENGTH('a)" using assms(1) bit_imp_le_length by blast
  have "x OR 2 ^ k = v"
    using assms k by (intro bit_word_eqI) (auto simp: x_def bit_simps less_Suc_eq)
  moreover have "x + 2 ^ k = x OR 2 ^ k"
    by (rule disjunctive_add) (auto simp: x_def bit_simps)
  ultimately have v: "v = x + 2 ^ k" by simp
  have "v - 1 = x + mask k" by (simp add: v mask_eq_exp_minus_1)
  also have "\<dots> = x OR mask k"
    by (rule disjunctive_add) (auto simp: x_def bit_simps)
  finally have "bit (v AND (v - 1)) i \<longleftrightarrow> bit v i \<and> i \<noteq> k" for i
    using assms bit_imp_le_length [of v i] by (cases i k rule: linorder_cases) (auto simp: x_def bit_simps)
  moreover have "v \<noteq> 0" using assms(1) by auto
  ultimately show ?thesis by (simp add: ClearLeftmostSet_def)
qed

theorem ClearLeftmostSet_clears_lowest_witness:
  "\<exists>w. ClearLeftmostSet (6 :: 8 word) = Some w \<and> \<not> bit w 1 \<and> bit w 2"
proof -
  have "bit (6 :: 8 word) 1" "\<forall>i < 1. \<not> bit (6 :: 8 word) i" "bit (6 :: 8 word) 2" by (simp_all add: bit_iff_odd)
  with ClearLeftmostSet_clears_lowest [of "6 :: 8 word" 1] show ?thesis by auto
qed

end
