(* ===== verification/CodeStrings.thy ===== *)
theory CodeStrings
  imports Like "HOL-Library.Sublist"
begin

text \<open>
  Encoded strings as byte strings: the encoding is prefix-free, has no zero byte when no code point is
  0, and a prefix of it is some whole code points and the beginning of one more.
\<close>

lemma or_byte_nonzero: "bit h 7 \<Longrightarrow> ucast (h OR (x :: 32 word)) \<noteq> (0 :: byte)"
proof
  assume h: "bit h 7" and "ucast (h OR x) = (0 :: byte)"
  then have "\<not> bit (ucast (h OR x) :: byte) 7" by simp
  with h show False by (simp add: bit_ucast_iff bit_or_iff)
qed

lemma zero_free:
  assumes "c \<le> 0x7FFFFFFF" "c \<noteq> 0"
  shows "0 \<notin> set (writeCodePointUnchecked c)"
proof -
  have "ucast c \<noteq> (0 :: byte)" if "c \<le> 0x7F"
    using that assms(2) read_ascii [OF that] by (auto simp: char_int_def)
  moreover have "bit (0x80 :: 32 word) 7" "bit (0xC0 :: 32 word) 7" "bit (0xE0 :: 32 word) 7"
    "bit (0xF0 :: 32 word) 7" "bit (0xF8 :: 32 word) 7" "bit (0xFC :: 32 word) 7"
    by simp_all
  ultimately show ?thesis
    using or_byte_nonzero by (simp add: writeCodePointUnchecked_def)
qed

lemma cp_length: "c \<le> 0x7FFFFFFF \<Longrightarrow> length (writeCodePointUnchecked c) \<le> 6"
  by (simp add: writeCodePointUnchecked_def)

lemma cp_prefix_free:
  assumes "c \<le> 0x7FFFFFFF" "d \<le> 0x7FFFFFFF" "prefix (writeCodePointUnchecked c @ x) (writeCodePointUnchecked d @ y)"
  shows "c = d"
proof -
  obtain z where z: "writeCodePointUnchecked d @ y = writeCodePointUnchecked c @ x @ z"
    using assms(3) by (auto simp: prefix_def)
  have "readCodePoint (writeCodePointUnchecked c @ x @ z) 0 (12 + length y) =
      Some \<lparr>next_pos = length (writeCodePointUnchecked c), codePoint = c\<rparr>"
    using read_written [OF assms(1), of "[]" "x @ z" "12 + length y - length (writeCodePointUnchecked c)"]
      cp_length [OF assms(1)] by simp
  moreover have "readCodePoint (writeCodePointUnchecked d @ y) 0 (12 + length y) =
      Some \<lparr>next_pos = length (writeCodePointUnchecked d), codePoint = d\<rparr>"
    using read_written [OF assms(2), of "[]" "y" "12 + length y - length (writeCodePointUnchecked d)"]
      cp_length [OF assms(2)] by simp
  ultimately show ?thesis using z by simp
qed

lemma encode_prefix [simp]:
  "valid_cps xs \<Longrightarrow> valid_cps ys \<Longrightarrow> prefix (encode xs) (encode ys) \<longleftrightarrow> prefix xs ys"
proof (induction xs arbitrary: ys)
  case (Cons c xs)
  show ?case
  proof (cases ys)
    case Nil
    with Cons.prems writeCodePoint_nonempty [of c] show ?thesis by simp
  next
    case (Cons d zs)
    show ?thesis
    proof (cases "c = d")
      case True
      with Cons Cons.IH [of zs] Cons.prems show ?thesis by simp
    next
      case False
      with Cons Cons.prems cp_prefix_free [of c d "encode xs" "encode zs"] show ?thesis by auto
    qed
  qed
qed simp

lemma encode_inj: "valid_cps xs \<Longrightarrow> valid_cps ys \<Longrightarrow> encode xs = encode ys \<longleftrightarrow> xs = ys"
  by (metis encode_prefix prefix_order.eq_iff)

subsection \<open>Code point boundaries\<close>

definition boundary :: "bytes \<Rightarrow> bool" where
  "boundary bs \<longleftrightarrow> (\<exists>xs. valid_cps xs \<and> bs = encode xs)"

lemma boundary_encode [simp]: "valid_cps xs \<Longrightarrow> boundary (encode xs)"
  by (auto simp: boundary_def)

lemma not_boundary:
  assumes "valid_cps xs" "c \<le> 0x7FFFFFFF" "strict_prefix bs (writeCodePointUnchecked c)" "bs \<noteq> []"
  shows "\<not> boundary (encode xs @ bs)"
proof
  assume "boundary (encode xs @ bs)"
  then obtain ys where ys: "valid_cps ys" "encode xs @ bs = encode ys" by (auto simp: boundary_def)
  then have "prefix (encode xs) (encode ys)" by (metis prefixI)
  with encode_prefix [OF assms(1) ys(1)] obtain zs where zs: "ys = xs @ zs" by (auto elim: prefixE)
  with ys have bs: "bs = encode zs" by simp
  with assms(4) obtain d ds where d: "zs = d # ds" by (cases zs) auto
  from assms(3) obtain r where "writeCodePointUnchecked c = bs @ r" "r \<noteq> []"
    by (auto elim: strict_prefixE')
  with bs d ys(1) zs cp_prefix_free [of d c "encode ds @ r" "[]"] assms(2) show False by auto
qed

text \<open>Cutting an encoded string anywhere: whole code points and the beginning of one more.\<close>

lemma take_encode:
  assumes "valid_cps k" "n \<le> length (encode k)"
  obtains xs bs where "take n (encode k) = encode xs @ bs" "prefix xs k"
    "bs = [] \<or> (\<exists>c. prefix (xs @ [c]) k \<and> strict_prefix bs (writeCodePointUnchecked c))"
  using assms
proof (induction k arbitrary: n thesis)
  case Nil
  then show ?case by simp
next
  case (Cons c k)
  let ?m = "length (writeCodePointUnchecked c)"
  show ?case
  proof (cases "n < ?m")
    case True
    then have "strict_prefix (take n (writeCodePointUnchecked c)) (writeCodePointUnchecked c)"
      by (auto simp: strict_prefix_def take_is_prefix)
    with True show ?thesis by (intro Cons.prems(1) [of "[]" "take n (writeCodePointUnchecked c)"]) auto
  next
    case False
    from Cons.prems have "valid_cps k" by simp
    moreover from False Cons.prems have "n - ?m \<le> length (encode k)" by simp
    ultimately obtain xs bs where "take (n - ?m) (encode k) = encode xs @ bs" "prefix xs k"
      "bs = [] \<or> (\<exists>c. prefix (xs @ [c]) k \<and> strict_prefix bs (writeCodePointUnchecked c))"
      by (elim Cons.IH [rotated])
    with False show ?thesis by (intro Cons.prems(1) [of "c # xs" bs]) auto
  qed
qed

text \<open>Texts and literals without the code point 0, which is the trie's terminator.\<close>

definition nonzero_cps :: "32 word list \<Rightarrow> bool" where
  "nonzero_cps cs \<longleftrightarrow> valid_cps cs \<and> 0 \<notin> set cs"

lemma nonzero_cps_simps [simp]:
  "nonzero_cps []"
  "nonzero_cps (c # cs) \<longleftrightarrow> c \<le> 0x7FFFFFFF \<and> c \<noteq> 0 \<and> nonzero_cps cs"
  "nonzero_cps (xs @ ys) \<longleftrightarrow> nonzero_cps xs \<and> nonzero_cps ys"
  by (auto simp: nonzero_cps_def)

lemma nonzero_valid: "nonzero_cps cs \<Longrightarrow> valid_cps cs"
  by (simp add: nonzero_cps_def)

lemma nonzero_bytes: "nonzero_cps cs \<Longrightarrow> 0 \<notin> set (encode cs)"
  by (induction cs) (auto simp: zero_free)

lemma nonzero_prefix: "nonzero_cps k \<Longrightarrow> prefix xs k \<Longrightarrow> nonzero_cps xs"
  by (auto simp: prefix_def)

lemma valid_prefix: "valid_cps k \<Longrightarrow> prefix xs k \<Longrightarrow> valid_cps xs"
  by (auto simp: prefix_def)

lemma nonzero_suffix: "nonzero_cps k \<Longrightarrow> suffix xs k \<Longrightarrow> nonzero_cps xs"
  by (auto simp: suffix_def)

end
