(* ===== verification/TrieLaws.thy ===== *)
theory TrieLaws
  imports CodeStrings Art
begin

text \<open>
  The trie as a dictionary of literals.  \<open>trie_inv h adr D\<close> says that the heap \<open>h\<close> is exactly the
  byte trie of the literals in \<open>dom D\<close>: \<open>adr\<close> maps the byte strings that are prefixes of an encoded
  literal one-to-one to the nodes, every node has the children, the terminator leaf and the code point
  flag that its byte string asks for, and no node is locked.  The lemmas on \<open>Tree_insert\<close> say that an
  insertion of one thread descends as far as the key is there, adds the missing chain and changes
  nothing else.
\<close>

subsection \<open>The invariant\<close>

type_synonym literals = "32 word list \<Rightarrow> nat option"

definition decode :: "bytes \<Rightarrow> 32 word list" where
  "decode bs = (THE xs. valid_cps xs \<and> encode xs = bs)"

definition tree_nodes :: "literals \<Rightarrow> bytes set" where
  "tree_nodes D = {bs. bs = [] \<or> (\<exists>k \<in> dom D. prefix bs (encode k))}"

definition leaf_of :: "literals \<Rightarrow> bytes \<Rightarrow> ptr" where
  "leaf_of D bs = (if boundary bs then (case D (decode bs) of None \<Rightarrow> Null | Some t \<Rightarrow> LeafPtr t) else Null)"

definition child_of :: "(bytes \<Rightarrow> nat) \<Rightarrow> literals \<Rightarrow> bytes \<Rightarrow> byte \<Rightarrow> ptr" where
  "child_of adr D bs b =
    (if b = NULL_TERMINATOR then leaf_of D bs
     else if bs @ [b] \<in> tree_nodes D then NodePtr (adr (bs @ [b])) else Null)"

definition node_inv :: "(bytes \<Rightarrow> nat) \<Rightarrow> literals \<Rightarrow> bytes \<Rightarrow> n256 \<Rightarrow> bool" where
  "node_inv adr D bs n \<longleftrightarrow>
    \<not> isLocked (versionLock n) \<and> isCodePointEnd n = boundary bs \<and>
    length (links n) = (if boundary bs then 2 else 0) \<and> children n = child_of adr D bs"

definition trie_inv :: "heap \<Rightarrow> (bytes \<Rightarrow> nat) \<Rightarrow> literals \<Rightarrow> bool" where
  "trie_inv h adr D \<longleftrightarrow>
    adr [] = 0 \<and> bij_betw adr (tree_nodes D) {..<length h} \<and>
    (\<forall>k \<in> dom D. k \<noteq> [] \<and> nonzero_cps k) \<and>
    (\<forall>bs \<in> tree_nodes D. node_inv adr D bs (h ! adr bs))"

definition unlinked :: "heap \<Rightarrow> bool" where
  "unlinked h \<longleftrightarrow> (\<forall>n \<in> set h. set (links n) \<subseteq> {Null})"

lemma decode_encode [simp]: "valid_cps xs \<Longrightarrow> decode (encode xs) = xs"
  unfolding decode_def by (rule the_equality) (auto simp: encode_inj)

lemma leaf_of_encode [simp]:
  "valid_cps k \<Longrightarrow> leaf_of D (encode k) = (case D k of None \<Rightarrow> Null | Some t \<Rightarrow> LeafPtr t)"
  by (simp add: leaf_of_def)

lemma tree_nodes_Nil [simp]: "[] \<in> tree_nodes D"
  by (simp add: tree_nodes_def)

lemma tree_nodes_prefix: "bs \<in> tree_nodes D \<Longrightarrow> prefix as bs \<Longrightarrow> as \<in> tree_nodes D"
  unfolding tree_nodes_def using prefix_order.trans by auto blast

lemma boundary_Nil [simp]: "boundary []"
  using boundary_encode [of "[]"] by simp

lemma tree_nodes_snoc: "bs @ [b] \<in> tree_nodes D \<Longrightarrow> bs \<in> tree_nodes D"
  by (rule tree_nodes_prefix) auto

lemma node_access:
  assumes "trie_inv h adr D" "bs \<in> tree_nodes D"
  shows adr_less: "adr bs < length h"
    and deref_node: "deref h (NodePtr (adr bs)) = Some (h ! adr bs)"
    and node_at: "node_inv adr D bs (h ! adr bs)"
proof -
  show less: "adr bs < length h" using assms by (auto simp: trie_inv_def bij_betw_def)
  then show "deref h (NodePtr (adr bs)) = Some (h ! adr bs)" by (simp add: deref_def)
  show "node_inv adr D bs (h ! adr bs)" using assms by (simp add: trie_inv_def)
qed

lemma adr_inj: "trie_inv h adr D \<Longrightarrow> as \<in> tree_nodes D \<Longrightarrow> bs \<in> tree_nodes D \<Longrightarrow> adr as = adr bs \<longleftrightarrow> as = bs"
  by (auto simp: trie_inv_def bij_betw_def inj_on_def)

lemma adr_root: "trie_inv h adr D \<Longrightarrow> NodePtr (adr []) = root"
  by (simp add: trie_inv_def root_def)

lemma root_iff: "trie_inv h adr D \<Longrightarrow> bs \<in> tree_nodes D \<Longrightarrow> NodePtr (adr bs) = root \<longleftrightarrow> bs = []"
  using adr_inj [of h adr D bs "[]"] by (simp add: trie_inv_def root_def)

lemma node_queries:
  assumes "trie_inv h adr D" "bs \<in> tree_nodes D"
  shows "getChild h (NodePtr (adr bs)) b = Some (child_of adr D bs b)"
    "isLastByteOfCodePoint h (NodePtr (adr bs)) = Some (boundary bs)"
    "isTerminalNode h (NodePtr (adr bs)) = Some (leaf_of D bs \<noteq> Null)"
  using deref_node [OF assms] node_at [OF assms]
  by (simp_all add: getChild_def isLastByteOfCodePoint_def isTerminalNode_def node_inv_def child_of_def)

lemma trie_inv_empty: "trie_inv Tree (\<lambda>_. 0) Map.empty" "unlinked Tree"
  using decode_encode [of "[]"]
  by (auto simp: trie_inv_def Tree_def tree_nodes_def bij_betw_def node_inv_def makeNode_def isLocked_def
      child_of_def leaf_of_def unlinked_def fun_eq_iff)

lemma key_nodes: "k \<in> dom D \<Longrightarrow> prefix bs (encode k) \<Longrightarrow> bs \<in> tree_nodes D"
  by (auto simp: tree_nodes_def)

subsection \<open>The descent\<close>

lemma read_last:
  assumes "rd buf p = Some b" "b \<noteq> 0xFF"
  shows "\<exists>r. readCodePoint buf p (p + 1) = Some r \<and> next_pos r = p + 1"
proof -
  obtain n where n: "mb_len b = Some n" "0 < n" using assms(2) mb_len_None_iff mb_len_pos by blast
  from assms(1) have "p + 1 \<le> length buf" by (simp add: rd_eq_Some_iff)
  then have "\<exists>c. readMultiByteCase buf p b 1 = Some c" by (rule readMultiByteCase_total)
  with n assms(1) show ?thesis
    by (cases "n = 1") (auto simp: readCodePoint_def multiByteSequenceLength_eq)
qed

lemma fold_clear:
  "length (fold (\<lambda>b e. e[b + 1 := False]) ps e) = length e \<and>
   (\<forall>i < length e. fold (\<lambda>b e. e[b + 1 := False]) ps e ! i = (e ! i \<and> i \<notin> (\<lambda>b. b + 1) ` set ps))"
proof (induction ps arbitrary: e)
  case (Cons p ps)
  have "e[p + 1 := False] ! i = (e ! i \<and> i \<noteq> p + 1)" if "i < length e" for i
    using that by (cases "i = p + 1") simp_all
  with Cons [of "e[p + 1 := False]"] show ?case by auto
qed simp

lemma boundary_inside:
  assumes "valid_cps (xs @ c # ys)" "i \<le> length (encode (xs @ [c]))" "length (encode xs) < i"
  shows "boundary (take i (encode (xs @ c # ys))) \<longleftrightarrow> i = length (encode (xs @ [c]))"
proof (cases "i = length (encode (xs @ [c]))")
  case True
  then have "take i (encode (xs @ c # ys)) = encode (xs @ [c])" by simp
  moreover have "boundary (encode (xs @ [c]))" using assms(1) by (intro boundary_encode) simp
  ultimately show ?thesis using True by simp
next
  case False
  let ?j = "i - length (encode xs)"
  from False assms(2,3) have j: "?j < length (writeCodePointUnchecked c)" by simp
  with assms(3) have "take i (encode (xs @ c # ys)) = encode xs @ take ?j (writeCodePointUnchecked c)"
    by simp
  moreover have "strict_prefix (take ?j (writeCodePointUnchecked c)) (writeCodePointUnchecked c)"
    using j by (auto simp: strict_prefix_def take_is_prefix)
  ultimately show ?thesis
    using not_boundary [of xs c "take ?j (writeCodePointUnchecked c)"] assms False j
      writeCodePoint_nonempty [of c] by auto
qed

lemma mark_code_points_eq:
  assumes "valid_cps (xs @ ys)" "post \<noteq> []" "hd post \<noteq> 0xFF"
    "length e = length (encode (xs @ ys)) + 2"
  shows "\<exists>e'. mark_code_points (encode (xs @ ys) @ post) (length (encode (xs @ ys)) + 1) (length (encode xs)) e = Some e' \<and>
    length e' = length e \<and> (\<forall>i < length e. e' ! i =
      (e ! i \<and> (i \<le> length (encode xs) \<or> length (encode (xs @ ys)) < i \<or> boundary (take i (encode (xs @ ys))))))"
  using assms
proof (induction ys arbitrary: xs e)
  case Nil
  let ?p = "length (encode xs)"
  have "rd (encode xs @ post) ?p = Some (hd post)" using Nil.prems(2) by (simp add: rd_def hd_conv_nth nth_append)
  from read_last [OF this Nil.prems(3)] obtain r where
    r: "readCodePoint (encode xs @ post) ?p (?p + 1) = Some r" "next_pos r = ?p + 1" by blast
  show ?case
    by (subst mark_code_points.simps, simp add: r [simplified], subst mark_code_points.simps)
      (auto simp: less_Suc_eq)
next
  case (Cons c ys)
  let ?k = "encode (xs @ c # ys)" and ?p = "length (encode xs)" and ?q = "length (encode (xs @ [c]))"
  define e1 where "e1 = fold (\<lambda>b e. e[b + 1 := False]) [?p..<?q - 1] e"
  have r: "readCodePoint (?k @ post) ?p (length ?k + 1) = Some \<lparr>next_pos = ?q, codePoint = c\<rparr>"
    using read_written [of c "encode xs" "encode ys @ post" "length (encode ys) + 1"] Cons.prems(1)
    by (simp add: add.assoc)
  have "?p < ?q" using writeCodePoint_nonempty [of c] Cons.prems(1) by simp
  have "?q \<le> length ?k" by simp
  have e1: "length e1 = length e" "\<And>i. i < length e \<Longrightarrow> e1 ! i = (e ! i \<and> \<not> (?p < i \<and> i < ?q))"
    unfolding e1_def using fold_clear [of "[?p..<?q - 1]" e]
    by (auto simp: image_iff)
  obtain e' where e': "mark_code_points (?k @ post) (length ?k + 1) ?q e1 = Some e'" "length e' = length e"
    "\<And>i. i < length e \<Longrightarrow> e' ! i = (e1 ! i \<and> (i \<le> ?q \<or> length ?k < i \<or> boundary (take i ?k)))"
    using Cons.IH [of "xs @ [c]" e1] Cons.prems e1(1) by auto
  have "mark_code_points (?k @ post) (length ?k + 1) ?p e = Some e'"
    by (subst mark_code_points.simps) (simp add: r [simplified] e' [simplified] flip: e1_def [simplified])
  moreover have "e' ! i = (e ! i \<and> (i \<le> ?p \<or> length ?k < i \<or> boundary (take i ?k)))" if "i < length e" for i
    using e'(3) [OF that] e1(2) [OF that] boundary_inside [OF Cons.prems(1), of i] \<open>?p < ?q\<close> \<open>?q \<le> length ?k\<close>
    by (cases "?p < i"; cases "i \<le> ?q") auto
  ultimately show ?case using e'(2) by blast
qed

lemma build_chain_append:
  "build_chain kw n nl e (xs @ ys) p h =
    do { (p, h) \<leftarrow> build_chain kw n nl e xs p h; build_chain kw n nl e ys p h }"
  by (induction xs arbitrary: p h) (auto split: Option.bind_split)

definition key_byte :: "bytes \<Rightarrow> nat \<Rightarrow> byte" where
  "key_byte key i = (if i < length key then key ! i else NULL_TERMINATOR)"

lemma getNextChar_eq [simp]: "getNextChar (key @ post) (length key) True i = Some (key_byte key i)"
  by (simp add: getNextChar_def key_byte_def rd_def nth_append)

text \<open>The node that the chain has for the first \<open>i\<close> bytes of the key.\<close>

definition chain_node :: "bytes \<Rightarrow> bool list \<Rightarrow> ptr \<Rightarrow> nat \<Rightarrow> nat \<Rightarrow> n256" where
  "chain_node key e leaf base i = insert_child (makeNode (e ! i)) (key_byte key i)
     (if i = length key then leaf else NodePtr (base + (length key - (i + 1))))"

lemma build_chain_eq:
  assumes "j \<le> length key" "length key < length e"
  shows "build_chain (key @ post) (length key) True e (rev [j..<length key + 1]) leaf h =
    Some (NodePtr (length h + (length key - j)),
          h @ map (chain_node key e leaf (length h)) (rev [j..<length key + 1]))"
  using assms(1)
proof (induction rule: inc_induct)
  case base
  then show ?case using assms(2) by (simp add: chain_node_def)
next
  case (step j)
  then have "rev [j..<length key + 1] = rev [Suc j..<length key + 1] @ [j]"
    by (simp add: upt_conv_Cons)
  with step assms(2) show ?case
    by (simp only: build_chain_append step.IH)
      (simp add: chain_node_def)
qed

lemma generate_path_eq:
  assumes "l \<le> length key" "length key < length e" "ins s = Some (tid, s')"
  shows "generate_path (key @ post) (length key) True e l ins h s =
    Some (if l = length key then LeafPtr tid else NodePtr (length h + (length key - (l + 1))),
          h @ map (chain_node key e (LeafPtr tid) (length h)) (rev [l + 1..<length key + 1]), s')"
  using assms build_chain_eq [of "l + 1" key e post "LeafPtr tid" h]
  by (auto simp: generate_path_def)

subsection \<open>Attaching a new key\<close>

definition longer_prefixes :: "bytes \<Rightarrow> nat \<Rightarrow> bytes set" where
  "longer_prefixes key l = {take i key | i. l < i \<and> i \<le> length key}"

definition grown :: "heap \<Rightarrow> (bytes \<Rightarrow> nat) \<Rightarrow> literals \<Rightarrow> bytes \<Rightarrow> bytes \<Rightarrow> nat" where
  "grown h adr D key bs = (if bs \<in> tree_nodes D then adr bs else length h + (length key - length bs))"

lemma tree_nodes_upd:
  "tree_nodes (D(k \<mapsto> t)) = tree_nodes D \<union> {bs. prefix bs (encode k)}"
  by (auto simp: tree_nodes_def)

lemma new_nodes:
  assumes "take l (encode k) \<in> tree_nodes D" "l \<le> length (encode k)"
    "l = length (encode k) \<or> take (l + 1) (encode k) \<notin> tree_nodes D"
  shows "{bs. prefix bs (encode k)} - tree_nodes D = longer_prefixes (encode k) l"
proof -
  have "take i (encode k) \<in> tree_nodes D" if "i \<le> l" for i
    using assms(1) that by (elim tree_nodes_prefix) (metis min.absorb1 take_is_prefix take_take)
  moreover have "take i (encode k) \<notin> tree_nodes D" if "l < i" "i \<le> length (encode k)" for i
  proof -
    from that have "prefix (take (l + 1) (encode k)) (take i (encode k))"
      by (metis Suc_eq_plus1 Suc_leI min.absorb1 take_is_prefix take_take)
    with that assms(3) tree_nodes_prefix show ?thesis by fastforce
  qed
  moreover have "prefix bs (encode k) \<longleftrightarrow> (\<exists>i \<le> length (encode k). bs = take i (encode k))" for bs
    by (metis append_eq_conv_conj prefix_def prefix_length_le take_is_prefix)
  ultimately show ?thesis unfolding longer_prefixes_def by (auto simp: not_le) (metis not_le_imp_less)
qed

lemma grown_bij:
  assumes "trie_inv h adr D" and new: "{bs. prefix bs (encode k)} - tree_nodes D = longer_prefixes (encode k) l"
    and "l \<le> length (encode k)"
  shows "bij_betw (grown h adr D (encode k)) (tree_nodes (D(k \<mapsto> t))) {..<length h + (length (encode k) - l)}"
proof -
  let ?n = "length (encode k)"
  have "bij_betw (grown h adr D (encode k)) (tree_nodes D) {..<length h}"
    using assms(1) unfolding trie_inv_def by (auto simp: grown_def cong: bij_betw_cong)
  moreover have "bij_betw (grown h adr D (encode k)) (longer_prefixes (encode k) l) {length h..<length h + (?n - l)}"
  proof (rule bij_betw_byWitness [where f' = "\<lambda>a. take (?n - (a - length h)) (encode k)"])
    have g: "grown h adr D (encode k) bs = length h + (?n - length bs)" if "bs \<in> longer_prefixes (encode k) l" for bs
      using that new by (auto simp: grown_def)
    show "\<forall>bs \<in> longer_prefixes (encode k) l. take (?n - (grown h adr D (encode k) bs - length h)) (encode k) = bs"
      by (auto simp: g) (auto simp: longer_prefixes_def)
    have mem: "take (?n - (a - length h)) (encode k) \<in> longer_prefixes (encode k) l"
      if "a \<in> {length h..<length h + (?n - l)}" for a
      using that by (auto simp: longer_prefixes_def intro!: exI [of _ "?n - (a - length h)"])
    then show "(\<lambda>a. take (?n - (a - length h)) (encode k)) ` {length h..<length h + (?n - l)} \<subseteq> longer_prefixes (encode k) l"
      by blast
    show "\<forall>a \<in> {length h..<length h + (?n - l)}. grown h adr D (encode k) (take (?n - (a - length h)) (encode k)) = a"
      using g [OF mem] by (auto simp del: One_nat_def)
    show "grown h adr D (encode k) ` longer_prefixes (encode k) l \<subseteq> {length h..<length h + (?n - l)}"
      by (auto simp: g) (auto simp: longer_prefixes_def)
  qed
  moreover have "tree_nodes (D(k \<mapsto> t)) = tree_nodes D \<union> longer_prefixes (encode k) l"
    using new tree_nodes_upd [of D k t] by blast
  moreover have "{..<length h + (?n - l)} = {..<length h} \<union> {length h..<length h + (?n - l)}" by auto
  ultimately show ?thesis by (simp only:) (rule bij_betw_combine, auto)
qed

lemma prefix_iff_take: "prefix xs ys \<longleftrightarrow> take (length xs) ys = xs"
  by (metis append_eq_conv_conj prefix_def take_is_prefix)

lemma prefix_take_snoc:
  assumes "i \<le> length key"
  shows "prefix (take i key @ [b]) key \<longleftrightarrow> i < length key \<and> key ! i = b"
proof (cases "i < length key")
  case True
  then show ?thesis by (auto simp: prefix_iff_take take_Suc_conv_app_nth)
next
  case False
  with assms show ?thesis by (auto simp: prefix_iff_take)
qed

text \<open>The place where the key \<open>k\<close> leaves the trie: its first \<open>l\<close> bytes are there, the longer ones are not.\<close>

definition leaves_at :: "heap \<Rightarrow> (bytes \<Rightarrow> nat) \<Rightarrow> literals \<Rightarrow> 32 word list \<Rightarrow> nat \<Rightarrow> bool" where
  "leaves_at h adr D k l \<longleftrightarrow> trie_inv h adr D \<and> k \<noteq> [] \<and> nonzero_cps k \<and> D k = None \<and>
     take l (encode k) \<in> tree_nodes D \<and> l \<le> length (encode k) \<and>
     {bs. prefix bs (encode k)} - tree_nodes D = longer_prefixes (encode k) l"

lemma leaves_atD:
  assumes "leaves_at h adr D k l"
  shows "trie_inv h adr D" "k \<noteq> []" "nonzero_cps k" "D k = None" "take l (encode k) \<in> tree_nodes D"
    "l \<le> length (encode k)" "{bs. prefix bs (encode k)} - tree_nodes D = longer_prefixes (encode k) l"
  using assms by (simp_all add: leaves_at_def)

lemma leaves_at_le:
  assumes "leaves_at h adr D k l" "take i (encode k) \<in> tree_nodes D" "i \<le> length (encode k)"
  shows "i \<le> l"
proof (rule ccontr)
  assume "\<not> i \<le> l"
  with assms(3) have "take i (encode k) \<in> longer_prefixes (encode k) l"
    unfolding longer_prefixes_def by auto
  with assms(2) leaves_atD(7) [OF assms(1)] show False by blast
qed

lemma leaves_at_less: 
  assumes "leaves_at h adr D k l" "l < i" "i \<le> length (encode k)"
  shows "take i (encode k) \<notin> tree_nodes D"
  using leaves_at_le [OF assms(1), of i] assms(2,3) by auto

lemma leaf_of_other:
  "nonzero_cps k \<Longrightarrow> leaf_of (D(k \<mapsto> tid)) bs = (if bs = encode k then LeafPtr tid else leaf_of D bs)"
  using nonzero_valid [of k] by (auto simp: leaf_of_def boundary_def split: option.splits)

lemma leaf_of_new: "trie_inv h adr D \<Longrightarrow> bs \<notin> tree_nodes D \<Longrightarrow> leaf_of D bs = Null"
  by (auto simp: leaf_of_def boundary_def tree_nodes_def trie_inv_def nonzero_valid
      split: option.splits)

lemma key_byte_nonzero: "nonzero_cps k \<Longrightarrow> i < length (encode k) \<Longrightarrow> encode k ! i \<noteq> 0"
  using nonzero_bytes [of k] nth_mem by metis

lemma child_of_longer:
  assumes pt: "leaves_at h adr D k l" and "l < i" "i \<le> length (encode k)"
  shows "child_of (grown h adr D (encode k)) (D(k \<mapsto> tid)) (take i (encode k)) =
    (\<lambda>_. Null)(key_byte (encode k) i := (if i = length (encode k) then LeafPtr tid
       else NodePtr (length h + (length (encode k) - (i + 1)))))"
proof (rule ext)
  note inv = leaves_atD(1) [OF pt] and key = leaves_atD(2-4) [OF pt] and at = leaves_atD(5,6) [OF pt]
    and new = leaves_atD(7) [OF pt]
  note leaf_of_other = leaf_of_other [OF key(2)] and key_byte_nonzero = key_byte_nonzero [OF key(2)]
  fix b
  have i: "take i (encode k) \<notin> tree_nodes D" by (rule leaves_at_less [OF assms])
  have "take i (encode k) @ [b] \<notin> tree_nodes D" using i tree_nodes_snoc by blast
  moreover have "take i (encode k) = encode k \<longleftrightarrow> i = length (encode k)" using assms(3) by auto
  ultimately show "child_of (grown h adr D (encode k)) (D(k \<mapsto> tid)) (take i (encode k)) b =
    ((\<lambda>_. Null)(key_byte (encode k) i := (if i = length (encode k) then LeafPtr tid
       else NodePtr (length h + (length (encode k) - (i + 1)))))) b"
    using i inv leaf_of_new [OF inv i] assms(2,3) prefix_take_snoc [of i "encode k" b] key_byte_nonzero [of i]
    by (auto simp: child_of_def leaf_of_other tree_nodes_upd grown_def key_byte_def NULL_TERMINATOR_def)
qed

lemma child_of_old:
  assumes pt: "leaves_at h adr D k l" and "bs \<in> tree_nodes D"
  shows "child_of (grown h adr D (encode k)) (D(k \<mapsto> tid)) bs =
    (if bs = take l (encode k)
     then (child_of adr D bs)(key_byte (encode k) l := (if l = length (encode k) then LeafPtr tid
       else NodePtr (length h + (length (encode k) - (l + 1)))))
     else child_of adr D bs)"
proof (rule ext)
  note inv = leaves_atD(1) [OF pt] and key = leaves_atD(2-4) [OF pt] and at = leaves_atD(5,6) [OF pt]
    and new = leaves_atD(7) [OF pt]
  note leaf_of_other = leaf_of_other [OF key(2)] and key_byte_nonzero = key_byte_nonzero [OF key(2)]
  fix b
  have snoc: "bs @ [b] \<in> tree_nodes (D(k \<mapsto> tid)) \<longleftrightarrow>
      bs @ [b] \<in> tree_nodes D \<or> bs = take l (encode k) \<and> l < length (encode k) \<and> encode k ! l = b"
  proof (cases "prefix (bs @ [b]) (encode k)")
    case True
    then obtain i where b: "bs = take i (encode k)" "i < length (encode k)" "encode k ! i = b"
      by (auto simp: prefix_def intro!: that [of "length bs"])
    have "bs @ [b] \<in> tree_nodes D \<or> i = l"
    proof (rule disjCI)
      assume "i \<noteq> l"
      moreover have "\<not> l < i" using leaves_at_less [OF pt, of i] assms(2) b by auto
      ultimately have "i < l" by simp
      with b have "bs @ [b] = take (Suc i) (encode k)" by (simp add: take_Suc_conv_app_nth)
      then show "bs @ [b] \<in> tree_nodes D" using at(1) \<open>i < l\<close>
        by (metis Suc_leI min.absorb1 take_is_prefix take_take tree_nodes_prefix)
    qed
    with True b(2,3) at(2) prefix_take_snoc [OF at(2)] show ?thesis unfolding b(1) tree_nodes_upd by auto
  next
    case False
    with prefix_take_snoc [OF at(2)] show ?thesis by (auto simp: tree_nodes_upd)
  qed
  have "bs @ [b] \<notin> tree_nodes D" if "bs = take l (encode k)" "l < length (encode k)" "encode k ! l = b"
    using that leaves_at_less [OF pt, of "Suc l"] by (auto simp flip: take_Suc_conv_app_nth)
  moreover have "l = length (encode k)" if "bs = encode k"
    using that assms(2) at(2) leaves_at_le [OF pt, of "length (encode k)"] by simp
  moreover have full: "take l (encode k) = encode k \<longleftrightarrow> l = length (encode k)" using at(2) by auto
  ultimately show "child_of (grown h adr D (encode k)) (D(k \<mapsto> tid)) bs b = (if bs = take l (encode k)
     then (child_of adr D bs)(key_byte (encode k) l := (if l = length (encode k) then LeafPtr tid
       else NodePtr (length h + (length (encode k) - (l + 1)))))
     else child_of adr D bs) b"
  proof (cases "bs = take l (encode k)")
    case True
    with snoc key_byte_nonzero [of l] at(2) full
      \<open>bs = take l (encode k) \<Longrightarrow> l < length (encode k) \<Longrightarrow> encode k ! l = b \<Longrightarrow> bs @ [b] \<notin> tree_nodes D\<close>
    show ?thesis unfolding True
      by (cases "l = length (encode k)")
        (auto simp: child_of_def leaf_of_other grown_def key_byte_def NULL_TERMINATOR_def)
  next
    case False
    with snoc \<open>bs = encode k \<Longrightarrow> l = length (encode k)\<close> full show ?thesis
      by (auto simp: child_of_def leaf_of_other grown_def NULL_TERMINATOR_def)
  qed
qed

lemma chain_nth:
  assumes "l < i" "i \<le> n"
  shows "map f (rev [l + 1..<n + 1]) ! (n - i) = f i"
  using assms by (simp add: rev_nth del: upt_Suc)

lemma chain_node_inv:
  assumes "leaves_at h adr D k l" "l < i" "i \<le> length (encode k)" "e ! i = boundary (take i (encode k))"
  shows "node_inv (grown h adr D (encode k)) (D(k \<mapsto> tid)) (take i (encode k))
    (chain_node (encode k) e (LeafPtr tid) (length h) i)"
  using child_of_longer [OF assms(1-3), of tid] assms(4)
  by (simp add: node_inv_def chain_node_def insert_child_def makeNode_def isLocked_def)

lemma attach_inv:
  assumes pt: "leaves_at h adr D k l"
    and e: "\<And>i. i \<le> length (encode k) \<Longrightarrow> e ! i = boundary (take i (encode k))"
    and n': "n' = (h ! adr (take l (encode k)))\<lparr>
      children := (children (h ! adr (take l (encode k))))(key_byte (encode k) l :=
        (if l = length (encode k) then LeafPtr tid else NodePtr (length h + (length (encode k) - (l + 1))))),
      cnt := c, versionLock := v\<rparr>"
    and v: "\<not> isLocked v"
  shows "trie_inv (h[adr (take l (encode k)) := n'] @
      map (chain_node (encode k) e (LeafPtr tid) (length h)) (rev [l + 1..<length (encode k) + 1]))
    (grown h adr D (encode k)) (D(k \<mapsto> tid))" (is "trie_inv ?h ?adr ?D")
proof -
  note inv = leaves_atD(1) [OF pt] and at = leaves_atD(5,6) [OF pt]
  have "node_inv ?adr ?D bs (?h ! ?adr bs)" if "bs \<in> tree_nodes D" for bs
    using node_at [OF inv that] node_at [OF inv at(1)] adr_less [OF inv that] v
      child_of_old [OF pt that, of tid] adr_inj [OF inv that at(1)] that
    by (auto simp: node_inv_def grown_def nth_append nth_list_update n')
  moreover have "node_inv ?adr ?D bs (?h ! ?adr bs)" if "bs \<in> longer_prefixes (encode k) l" for bs
  proof -
    from that obtain i where i: "bs = take i (encode k)" "l < i" "i \<le> length (encode k)"
      by (auto simp: longer_prefixes_def)
    with leaves_at_less [OF pt i(2,3)] have "?adr bs = length h + (length (encode k) - i)"
      by (simp add: grown_def)
    with chain_nth [OF i(2,3)] have "?h ! ?adr bs = chain_node (encode k) e (LeafPtr tid) (length h) i"
      by (simp only: nth_append length_list_update) (simp del: upt_Suc)
    with chain_node_inv [OF pt i(2,3) e [OF i(3)]] i(1) show ?thesis by simp
  qed
  moreover have "tree_nodes ?D = tree_nodes D \<union> longer_prefixes (encode k) l"
    using leaves_atD(7) [OF pt] tree_nodes_upd [of D k tid] by blast
  moreover have "length ?h = length h + (length (encode k) - l)" using at(2) by auto
  moreover have "?adr [] = 0" "\<forall>k \<in> dom ?D. k \<noteq> [] \<and> nonzero_cps k"
    using inv leaves_atD(2,3) [OF pt] by (auto simp: grown_def trie_inv_def)
  ultimately show ?thesis
    using grown_bij [OF inv leaves_atD(7) [OF pt] at(2), of tid]
    unfolding trie_inv_def by auto
qed

lemma attach_unlinked:
  assumes "unlinked h" "a < length h" "links n' = links (h ! a)"
  shows "unlinked (h[a := n'] @ map (chain_node key e leaf base) is)"
  using assms
  by (auto simp: unlinked_def chain_node_def insert_child_def makeNode_def
      dest!: set_update_subset_insert [THEN subsetD] split: if_splits) (metis nth_mem subsetD singletonD)

text \<open>Only the version of one node changed.\<close>

lemma relock_inv:
  assumes "trie_inv h adr D" "bs \<in> tree_nodes D" "\<not> isLocked v"
  shows "trie_inv (h[adr bs := (h ! adr bs)\<lparr>versionLock := v\<rparr>]) adr D"
proof -
  have "node_inv adr D cs (h[adr bs := (h ! adr bs)\<lparr>versionLock := v\<rparr>] ! adr cs)" if "cs \<in> tree_nodes D" for cs
    using node_at [OF assms(1) that] adr_less [OF assms(1) that] assms(3)
      adr_inj [OF assms(1) that assms(2)]
    by (cases "cs = bs") (simp_all add: node_inv_def)
  with assms(1) show ?thesis by (simp add: trie_inv_def)
qed

lemma version_unlock: "\<not> isLocked v \<Longrightarrow> \<not> isLocked (v + 1 + 1)"
proof -
  have "isLocked w \<longleftrightarrow> odd w" for w :: "64 word"
    by (simp add: isLocked_def and_one_eq odd_iff_mod_2_eq_one)
  then show "\<not> isLocked v \<Longrightarrow> \<not> isLocked (v + 1 + 1)" by simp
qed

subsection \<open>One pass through the loop\<close>

definition parent_ok :: "heap \<Rightarrow> ptr \<Rightarrow> 64 word \<Rightarrow> bool" where
  "parent_ok h p v \<longleftrightarrow> p = Null \<or> (\<exists>n. deref h p = Some n \<and> versionLock n = v)"

lemma parent_check:
  "parent_ok h p v \<Longrightarrow> (if p \<noteq> Null then do { pn \<leftarrow> deref h p; Some (readUnlockOrRestart pn v) } else Some False)
    = Some False"
  by (auto simp: parent_ok_def readUnlockOrRestart_def)

definition args_for :: "bytes \<Rightarrow> bytes \<Rightarrow> bool list \<Rightarrow> ('s \<Rightarrow> (nat \<times> 's) option) \<Rightarrow> (nat \<Rightarrow> 's \<Rightarrow> 's option) \<Rightarrow> 's insert_args" where
  "args_for key post e ins ups = \<lparr>ia_keyword = key @ post, ia_keywordLen = length key,
     ia_mustAppendNull = True, ia_isEnd = e, ia_insert_fn = ins, ia_upsert_fn = ups\<rparr>"

lemma step_reads:
  assumes "trie_inv h adr D" "bs \<in> tree_nodes D"
  shows "readLockOrRestart (h ! adr bs) = (versionLock (h ! adr bs), False)"
  using node_at [OF assms] by (simp add: readLockOrRestart_def node_inv_def)

lemma step_descends:
  assumes inv: "trie_inv h adr D" and par: "parent_ok h parent pv" and k: "nonzero_cps k"
    and l: "l < length (encode k)" "take (Suc l) (encode k) \<in> tree_nodes D"
  shows "insert_step (args_for (encode k) post e ins ups) parent pv l (NodePtr (adr (take l (encode k)))) h s =
    Some (Descended (versionLock (h ! adr (take l (encode k)))) (NodePtr (adr (take (Suc l) (encode k)))) h s)"
proof -
  have snoc: "take (Suc l) (encode k) = take l (encode k) @ [encode k ! l]" using l(1) by (rule take_Suc_conv_app_nth)
  with l(2) have mem: "take l (encode k) \<in> tree_nodes D" using tree_nodes_snoc by metis
  have "child_of adr D (take l (encode k)) (key_byte (encode k) l) = NodePtr (adr (take (Suc l) (encode k)))"
    using l key_byte_nonzero [OF k l(1)] snoc
    by (simp add: child_of_def key_byte_def NULL_TERMINATOR_def del: take_Suc)
  then show ?thesis
    using node_queries(1) [OF inv mem] deref_node [OF inv mem] step_reads [OF inv mem]
    unfolding insert_step_def
    by (simp add: args_for_def parent_check [OF par] isLeaf_def readUnlockOrRestart_def)
qed

lemma step_upserts:
  assumes inv: "trie_inv h adr D" and par: "parent_ok h parent pv" and k: "valid_cps k" "D k = Some t"
    and s: "ups t s = Some s'"
  shows "insert_step (args_for (encode k) post e ins ups) parent pv (length (encode k)) (NodePtr (adr (encode k))) h s =
    Some (Returned (h[adr (encode k) := (h ! adr (encode k))\<lparr>versionLock := versionLock (h ! adr (encode k)) + 1 + 1\<rparr>]) s')"
proof -
  have mem: "encode k \<in> tree_nodes D" using k(2) by (auto simp: tree_nodes_def)
  have "child_of adr D (encode k) (key_byte (encode k) (length (encode k))) = LeafPtr t"
    using k by (simp add: child_of_def key_byte_def)
  then show ?thesis
    using node_queries(1) [OF inv mem] deref_node [OF inv mem] step_reads [OF inv mem] adr_less [OF inv mem] s
    unfolding insert_step_def
    by (simp add: args_for_def parent_check [OF par] isLeaf_def readUnlockOrRestart_def getLeaf_def
        upgradeToWriteLockOrRestart_def assign_def deref_def writeUnlock_def)
qed

lemma step_attaches:
  assumes pt: "leaves_at h adr D k l" and par: "parent_ok h parent pv"
    and e: "length (encode k) < length e" and s: "ins s = Some (tid, s')"
  shows "\<exists>v c n'. insert_step (args_for (encode k) post e ins ups) parent pv l (NodePtr (adr (take l (encode k)))) h s =
      Some (Returned (h[adr (take l (encode k)) := n'] @
        map (chain_node (encode k) e (LeafPtr tid) (length h)) (rev [l + 1..<length (encode k) + 1])) s') \<and>
    n' = (h ! adr (take l (encode k)))\<lparr>
      children := (children (h ! adr (take l (encode k))))(key_byte (encode k) l :=
        (if l = length (encode k) then LeafPtr tid else NodePtr (length h + (length (encode k) - (l + 1))))),
      cnt := c, versionLock := v\<rparr> \<and>
    \<not> isLocked v"
proof -
  note inv = leaves_atD(1) [OF pt] and mem = leaves_atD(5) [OF pt] and le = leaves_atD(6) [OF pt]
  let ?a = "adr (take l (encode k))"
  have "child_of adr D (take l (encode k)) (key_byte (encode k) l) = Null"
  proof (cases "l = length (encode k)")
    case True
    with leaves_atD(3,4) [OF pt] nonzero_valid show ?thesis by (simp add: child_of_def key_byte_def)
  next
    case False
    with le leaves_at_less [OF pt, of "Suc l"] key_byte_nonzero [OF leaves_atD(3) [OF pt], of l]
    show ?thesis by (simp add: child_of_def key_byte_def NULL_TERMINATOR_def take_Suc_conv_app_nth)
  qed
  moreover have "\<not> isLocked (versionLock (h ! ?a) + 1 + 1)"
    by (rule version_unlock) (use node_at [OF inv mem] in \<open>simp add: node_inv_def\<close>)
  ultimately show ?thesis
    using node_queries(1) [OF inv mem] deref_node [OF inv mem] step_reads [OF inv mem] adr_less [OF inv mem]
      generate_path_eq [where ins = ins and s = s, OF le e s, of post]
    unfolding insert_step_def insertAndUnlock_def
    by (intro exI [of _ "versionLock (h ! ?a) + 1 + 1"] exI [of _ "u16 (cnt (h ! ?a) + 1)"] exI conjI)
      (auto simp: args_for_def parent_check [OF par] readUnlockOrRestart_def upgradeToWriteLockOrRestart_def
        assign_def deref_def writeUnlock_def nth_append list_update_append simp del: upt_Suc)
qed

subsection \<open>The loop and the insertion\<close>

lemma key_path:
  assumes "trie_inv h adr D" "take l (encode k) \<in> tree_nodes D" "i \<le> l"
  shows "take i (encode k) \<in> tree_nodes D"
  using assms(2) by (rule tree_nodes_prefix) (metis assms(3) min.absorb1 take_is_prefix take_take)

text \<open>The loop goes down as far as the key is there.\<close>

lemma insert_loop_descends:
  assumes inv: "trie_inv h adr D" and k: "nonzero_cps k" "length (encode k) < 2 ^ 32"
    and to: "take l (encode k) \<in> tree_nodes D" "l \<le> length (encode k)" "i \<le> l" and par: "parent_ok h parent pv"
  shows "\<exists>parent pv. parent_ok h parent pv \<and>
    insert_loop (args_for (encode k) post e ins ups) parent0 pv0 i (NodePtr (adr (take i (encode k)))) h s =
    insert_loop (args_for (encode k) post e ins ups) parent pv l (NodePtr (adr (take l (encode k)))) h s
    \<or> \<not> parent_ok h parent0 pv0"
  using to(3)
proof (induction arbitrary: parent0 pv0 rule: inc_induct)
  case base
  then show ?case by blast
next
  case (step i)
  from key_path [OF inv to(1)] step.hyps to(2)
  have mem: "take i (encode k) \<in> tree_nodes D" "take (Suc i) (encode k) \<in> tree_nodes D" "i < length (encode k)"
    by auto
  let ?v = "versionLock (h ! adr (take i (encode k)))"
  have "parent_ok h (NodePtr (adr (take i (encode k)))) ?v"
    using deref_node [OF inv mem(1)] by (simp add: parent_ok_def)
  moreover have "insert_loop (args_for (encode k) post e ins ups) parent0 pv0 i (NodePtr (adr (take i (encode k)))) h s =
      insert_loop (args_for (encode k) post e ins ups) (NodePtr (adr (take i (encode k)))) ?v (Suc i)
        (NodePtr (adr (take (Suc i) (encode k)))) h s" if "parent_ok h parent0 pv0"
    using mem(3) k(2) by (subst insert_loop.simps) (simp add: step_descends [OF inv that k(1) mem(3,2)] u32_def)
  ultimately show ?case using step.IH [of "NodePtr (adr (take i (encode k)))" ?v] by metis
qed

lemma leaves_somewhere:
  assumes "trie_inv h adr D" "k \<noteq> []" "nonzero_cps k" "D k = None"
  obtains l where "leaves_at h adr D k l"
proof -
  define P where "P i \<longleftrightarrow> i \<le> length (encode k) \<and> take i (encode k) \<in> tree_nodes D" for i
  have "P 0" by (simp add: P_def)
  moreover have "\<forall>i. P i \<longrightarrow> i \<le> length (encode k)" by (simp add: P_def)
  ultimately obtain l where l: "P l" "\<forall>i. P i \<longrightarrow> i \<le> l"
    using Nat.ex_has_greatest_nat [of P 0 "length (encode k)"] by blast
  then have "l = length (encode k) \<or> take (l + 1) (encode k) \<notin> tree_nodes D"
    unfolding P_def by (metis Suc_eq_plus1 Suc_leI Suc_n_not_le_n le_neq_implies_less)
  with l(1) new_nodes [of l k D] have "leaves_at h adr D k l" using assms by (simp add: leaves_at_def P_def)
  then show thesis by (rule that)
qed

lemma parent_Null [simp]: "parent_ok h Null v"
  by (simp add: parent_ok_def)

lemma insert_loop_known:
  assumes inv: "trie_inv h adr D" "unlinked h" and k: "D k = Some t" "length (encode k) < 2 ^ 32" and s: "ups t s = Some s'"
  shows "\<exists>h'. insert_loop (args_for (encode k) post e ins ups) Null 0 0 root h s = Some (h', s') \<and>
    trie_inv h' adr D \<and> unlinked h'"
proof -
  have valid: "nonzero_cps k" using inv k(1) by (auto simp: trie_inv_def)
  have mem: "take (length (encode k)) (encode k) \<in> tree_nodes D" using k(1) by (auto simp: tree_nodes_def)
  from insert_loop_descends [OF inv(1) valid k(2) mem _ _ parent_Null, of 0 post e ins ups Null 0 s] obtain parent pv where
    loop: "parent_ok h parent pv" "insert_loop (args_for (encode k) post e ins ups) Null 0 0 (NodePtr (adr [])) h s =
      insert_loop (args_for (encode k) post e ins ups) parent pv (length (encode k)) (NodePtr (adr (encode k))) h s"
    by auto
  note step = step_upserts [where ups = ups and s = s and post = post and e = e and ins = ins,
      OF inv(1) loop(1) nonzero_valid [OF valid] k(1) s]
  have "insert_loop (args_for (encode k) post e ins ups) Null 0 0 (NodePtr (adr [])) h s =
    Some (h[adr (encode k) := (h ! adr (encode k))\<lparr>versionLock := versionLock (h ! adr (encode k)) + 1 + 1\<rparr>], s')"
    unfolding loop(2) by (subst insert_loop.simps) (simp only: step Option.bind.simps insert_outcome.case)
  moreover have "unlinked (h[adr (encode k) := (h ! adr (encode k))\<lparr>versionLock := v\<rparr>])" for v
    using attach_unlinked [OF inv(2), of "adr (encode k)" _ _ _ _ _ "[]"] adr_less [OF inv(1) mem] by simp
  moreover have "\<not> isLocked (versionLock (h ! adr (encode k)) + 1 + 1)"
    by (rule version_unlock) (use node_at [OF inv(1) mem] in \<open>simp add: node_inv_def\<close>)
  ultimately show ?thesis using relock_inv [OF inv(1) mem] unfolding adr_root [OF inv(1)] by auto
qed

lemma insert_loop_new:
  assumes inv: "trie_inv h adr D" "unlinked h" and k: "k \<noteq> []" "nonzero_cps k" "D k = None" and n: "length (encode k) < 2 ^ 32"
    and e: "length (encode k) < length e" "\<And>i. i \<le> length (encode k) \<Longrightarrow> e ! i = boundary (take i (encode k))"
    and s: "ins s = Some (tid, s')"
  shows "\<exists>h' adr'. insert_loop (args_for (encode k) post e ins ups) Null 0 0 root h s = Some (h', s') \<and>
    trie_inv h' adr' (D(k \<mapsto> tid)) \<and> unlinked h'"
proof -
  obtain l where pt: "leaves_at h adr D k l" using leaves_somewhere [OF inv(1) k] .
  note mem = leaves_atD(5) [OF pt] and le = leaves_atD(6) [OF pt]
  from insert_loop_descends [OF inv(1) k(2) n mem le _ parent_Null, of 0 post e ins ups Null 0 s] obtain parent pv where
    loop: "parent_ok h parent pv" "insert_loop (args_for (encode k) post e ins ups) Null 0 0 (NodePtr (adr [])) h s =
      insert_loop (args_for (encode k) post e ins ups) parent pv l (NodePtr (adr (take l (encode k)))) h s"
    by auto
  from step_attaches [where ups = ups and post = post and ins = ins and s = s, OF pt loop(1) e(1) s] obtain v c n' where
    step: "insert_step (args_for (encode k) post e ins ups) parent pv l (NodePtr (adr (take l (encode k)))) h s =
      Some (Returned (h[adr (take l (encode k)) := n'] @
        map (chain_node (encode k) e (LeafPtr tid) (length h)) (rev [l + 1..<length (encode k) + 1])) s')"
    and n': "n' = (h ! adr (take l (encode k)))\<lparr>
      children := (children (h ! adr (take l (encode k))))(key_byte (encode k) l :=
        (if l = length (encode k) then LeafPtr tid else NodePtr (length h + (length (encode k) - (l + 1))))),
      cnt := c, versionLock := v\<rparr>" and v: "\<not> isLocked v"
    by blast
  have "insert_loop (args_for (encode k) post e ins ups) Null 0 0 (NodePtr (adr [])) h s =
    Some (h[adr (take l (encode k)) := n'] @
        map (chain_node (encode k) e (LeafPtr tid) (length h)) (rev [l + 1..<length (encode k) + 1]), s')"
    unfolding loop(2) by (subst insert_loop.simps) (simp only: step Option.bind.simps insert_outcome.case)
  moreover have "links n' = links (h ! adr (take l (encode k)))" by (simp add: n')
  ultimately show ?thesis
    using attach_inv [OF pt e(2) n' v] attach_unlinked [OF inv(2) adr_less [OF inv(1) mem]]
    unfolding adr_root [OF inv(1)] by blast
qed

lemma last_key_byte:
  assumes "k \<noteq> []" "nonzero_cps k"
  obtains b where "0 < length (encode k)" "b \<noteq> NULL_TERMINATOR" "rd (encode k @ post) (length (encode k) - 1) = Some b"
proof -
  have n: "0 < length (encode k)" using assms nonzero_valid by simp
  then have "encode k ! (length (encode k) - 1) \<noteq> 0" by (intro key_byte_nonzero [OF assms(2)]) simp
  moreover have "rd (encode k @ post) (length (encode k) - 1) = Some (encode k ! (length (encode k) - 1))"
    using n by (subst rd_Some) (simp_all add: nth_append del: length_greater_0_conv)
  ultimately show thesis by (intro that [OF n, of "encode k ! (length (encode k) - 1)"])
      (simp_all only: NULL_TERMINATOR_def not_False_eq_True)
qed

lemma insert_front:
  assumes k: "k \<noteq> []" "nonzero_cps k" and post: "post \<noteq> []" "hd post \<noteq> 0xFF"
  shows "\<exists>e. length (encode k) < length e \<and> (\<forall>i \<le> length (encode k). e ! i = boundary (take i (encode k))) \<and>
    Tree_insert (encode k @ post) (length (encode k)) True ins ups h s =
      insert_loop (args_for (encode k) post e ins ups) Null 0 0 root h s"
proof -
  let ?n = "length (encode k)"
  obtain e where e: "mark_code_points (encode k @ post) (?n + 1) 0 (replicate (?n + 2) True) = Some e"
      "length e = ?n + 2" "\<And>i. i < ?n + 2 \<Longrightarrow> e ! i = (i = 0 \<or> ?n < i \<or> boundary (take i (encode k)))"
    using mark_code_points_eq [of "[]" k post "replicate (?n + 2) True"] nonzero_valid [OF k(2)] post
    by (auto simp del: replicate.simps replicate_Suc)
  obtain b where "0 < ?n" "b \<noteq> NULL_TERMINATOR" "rd (encode k @ post) (?n - 1) = Some b"
    using last_key_byte [OF k] .
  then have "Tree_insert (encode k @ post) ?n True ins ups h s =
      insert_loop (args_for (encode k) post e ins ups) Null 0 0 root h s"
    using e(1) unfolding Tree_insert_def args_for_def by simp
  then show ?thesis using e(2,3) by (intro exI [of _ e]) auto
qed

text \<open>Inserting a key that is there leaves the keys alone and calls \<open>upsert_fn\<close> with its number.\<close>

lemma Tree_insert_known:
  assumes "trie_inv h adr D" "unlinked h" "D k = Some t" "length (encode k) < 2 ^ 32" "ups t s = Some s'" "post \<noteq> []" "hd post \<noteq> 0xFF"
  shows "\<exists>h'. Tree_insert (encode k @ post) (length (encode k)) True ins ups h s = Some (h', s') \<and>
    trie_inv h' adr D \<and> unlinked h'"
  using insert_front [OF _ _ assms(6,7), of k ins ups h s] insert_loop_known [where ups = ups, OF assms(1-5)] assms(1,3)
  unfolding trie_inv_def by fastforce

text \<open>Inserting a new key adds it under the number that \<open>insert_fn\<close> returns.\<close>

lemma Tree_insert_new:
  assumes "trie_inv h adr D" "unlinked h" "k \<noteq> []" "nonzero_cps k" "D k = None" "length (encode k) < 2 ^ 32" "ins s = Some (tid, s')"
    "post \<noteq> []" "hd post \<noteq> 0xFF"
  shows "\<exists>h' adr'. Tree_insert (encode k @ post) (length (encode k)) True ins ups h s = Some (h', s') \<and>
    trie_inv h' adr' (D(k \<mapsto> tid)) \<and> unlinked h'"
proof -
  obtain e where "length (encode k) < length e" "\<And>i. i \<le> length (encode k) \<Longrightarrow> e ! i = boundary (take i (encode k))"
    "Tree_insert (encode k @ post) (length (encode k)) True ins ups h s =
      insert_loop (args_for (encode k) post e ins ups) Null 0 0 root h s"
    using insert_front [OF assms(3,4,8,9), of ins ups h s] by blast
  then show ?thesis using insert_loop_new [where ins = ins and s = s, OF assms(1-6) _ _ assms(7)] by metis
qed

end
