(* ===== verification/LiteralLaws.thy ===== *)
theory LiteralLaws
  imports TrieLaws AhoCorasick "HOL-Library.AList"
begin

text \<open>
  The automaton while literals are inserted: \<open>built L ac occ\<close> says that it holds exactly the literals
  with a nonempty set \<open>occ k\<close> of occurrences, each under its own number below the counter, with its
  length and its set in the literal map.
\<close>

text \<open>An instance of the containers.\<close>

definition list_containers :: "(nat list, (nat \<times> nat list LiteralEntry) list) containers" where
  "list_containers = \<lparr>bitmap_empty = [], bitmap_add = (#), bitmap_elems = (\<lambda>xs. sort (remdups xs)),
     cmap_empty = [], cmap_find = map_of,
     cmap_emplace = (\<lambda>k e m. if map_of m k = None then m @ [(k, e)] else m),
     cmap_assign = AList.update\<rparr>"

lemma list_containers_ok: "containers_ok list_containers"
  by (auto simp: containers_ok_def list_containers_def update_conv' map_of_append map_add_def fun_eq_iff
      split: option.splits)

subsection \<open>The automaton while literals are inserted\<close>

type_synonym occurrences = "32 word list \<Rightarrow> nat set"

definition has_entry :: "('b, 'm) containers \<Rightarrow> 'm \<Rightarrow> nat \<Rightarrow> 32 word list \<Rightarrow> nat set \<Rightarrow> bool" where
  "has_entry L m t k S \<longleftrightarrow> (\<exists>entry. cmap_find L m t = Some entry \<and>
     entry_literal_len entry = u32 (length (encode k)) \<and> set (bitmap_elems L (bitmap entry)) = S)"

text \<open>Every literal has its own number below \<open>n\<close>, and \<open>p\<close> numbers are drawn but not in the trie yet.\<close>

definition numbers_ok :: "('b, 'm) containers \<Rightarrow> 'm \<Rightarrow> nat \<Rightarrow> literals \<Rightarrow> occurrences \<Rightarrow> nat \<Rightarrow> bool" where
  "numbers_ok L m n D occ p \<longleftrightarrow>
    (\<forall>k t. D k = Some t \<longrightarrow> t < n \<and> has_entry L m t k (occ k)) \<and>
    inj_on D (dom D) \<and> (\<forall>t \<ge> n. cmap_find L m t = None) \<and>
    (\<forall>k. occ k = {} \<longleftrightarrow> D k = None) \<and> finite (dom D) \<and> n = card (dom D) + p"

definition entries_ok :: "('b, 'm) containers \<Rightarrow> 'm \<Rightarrow> nat \<Rightarrow> literals \<Rightarrow> occurrences \<Rightarrow> bool" where
  "entries_ok L m n D occ \<longleftrightarrow> numbers_ok L m n D occ 0"

lemma entries_ok_iff:
  "entries_ok L m n D occ \<longleftrightarrow>
    (\<forall>k t. D k = Some t \<longrightarrow> t < n \<and> has_entry L m t k (occ k)) \<and>
    inj_on D (dom D) \<and> (\<forall>t \<ge> n. cmap_find L m t = None) \<and>
    (\<forall>k. occ k = {} \<longleftrightarrow> D k = None) \<and> finite (dom D) \<and> n = card (dom D)"
  unfolding entries_ok_def numbers_ok_def add_0_right ..

definition built :: "('b, 'm) containers \<Rightarrow> 'm automaton \<Rightarrow> occurrences \<Rightarrow> bool" where
  "built L ac occ \<longleftrightarrow> (\<exists>adr D. trie_inv (trie ac) adr D \<and> unlinked (trie ac) \<and>
     entries_ok L (literal_map ac) (unique_literal_cnt ac) D occ)"

lemma built_empty: "containers_ok L \<Longrightarrow> built L (AhoCorasick L) (\<lambda>_. {})"
  unfolding built_def AhoCorasick_def
  using trie_inv_empty by (auto simp: entries_ok_iff containers_ok_def intro!: exI)

lemma numbers_entry: "numbers_ok L m n D occ p \<Longrightarrow> D k = Some t \<Longrightarrow> t < n \<and> has_entry L m t k (occ k)"
  unfolding numbers_ok_def by blast

lemma numbers_draw: "numbers_ok L m n D occ p \<Longrightarrow> numbers_ok L m (n + 1) D occ (p + 1)"
  unfolding numbers_ok_def by (auto intro: less_SucI)

lemma numbers_add:
  assumes "containers_ok L" "numbers_ok L m n D occ p" "t < n" "t \<notin> ran D" "cmap_find L m t = None"
  shows "numbers_ok L (cmap_emplace L t entry m) n D occ p"
proof -
  note N = assms(2) [unfolded numbers_ok_def]
  have find: "cmap_find L (cmap_emplace L t entry m) = (cmap_find L m)(t \<mapsto> entry)"
    using assms(1,5) by (simp add: containers_ok_def)
  have "has_entry L (cmap_emplace L t entry m) t' k (occ k)" if "D k = Some t'" for k t'
  proof -
    have "t' \<noteq> t" using that assms(4) by (auto simp: ran_def)
    moreover have "has_entry L m t' k (occ k)" using N that by blast
    ultimately show ?thesis by (simp add: has_entry_def find)
  qed
  moreover have "cmap_find L (cmap_emplace L t entry m) t' = None" if "t' \<ge> n" for t'
    using N that assms(3) by (simp add: find)
  ultimately show ?thesis using N unfolding numbers_ok_def by blast
qed

lemma numbers_known:
  assumes "containers_ok L" "numbers_ok L m n D occ p" "D k = Some t" "cmap_find L m t = Some entry"
  shows "numbers_ok L (cmap_assign L t (entry\<lparr>bitmap := bitmap_add L x (bitmap entry)\<rparr>) m) n D (occ(k := insert x (occ k))) p"
proof -
  note ok = assms(2) [unfolded numbers_ok_def]
  let ?e = "entry\<lparr>bitmap := bitmap_add L x (bitmap entry)\<rparr>"
  have find: "cmap_find L (cmap_assign L t ?e m) = (cmap_find L m)(t \<mapsto> ?e)"
    and elems: "set (bitmap_elems L (bitmap ?e)) = insert x (set (bitmap_elems L (bitmap entry)))"
    using assms(1) by (simp_all add: containers_ok_def)
  have t: "t < n" "has_entry L m t k (occ k)" using ok assms(3) by auto
  have "has_entry L (cmap_assign L t ?e m) t' k' ((occ(k := insert x (occ k))) k')" if "D k' = Some t'" for k' t'
  proof (cases "k' = k")
    case True
    with that assms(3) have "t' = t" by simp
    with True assms(4) t(2) elems show ?thesis by (simp add: has_entry_def find)
  next
    case False
    with that assms(3) ok have "t' \<noteq> t" by (metis domI inj_onD)
    moreover from that ok have "has_entry L m t' k' (occ k')" by blast
    ultimately show ?thesis using False by (simp add: has_entry_def find)
  qed
  moreover have "cmap_find L (cmap_assign L t ?e m) t' = None" if "n \<le> t'" for t'
    using that ok t(1) by (simp add: find)
  moreover have "(occ(k := insert x (occ k))) k' = {} \<longleftrightarrow> D k' = None" for k'
    using ok assms(3) by auto
  ultimately show ?thesis using ok unfolding numbers_ok_def by blast
qed

lemma numbers_publish:
  assumes "numbers_ok L m n D occ (p + 1)" "D k = None" "t < n" "t \<notin> ran D" "has_entry L m t k {x}"
  shows "numbers_ok L m n (D(k \<mapsto> t)) (occ(k := insert x (occ k))) p"
proof -
  note N = assms(1) [unfolded numbers_ok_def]
  have occ: "occ k = {}" using N assms(2) by blast
  have "has_entry L m t' k' ((occ(k := insert x (occ k))) k') \<and> t' < n" if "(D(k \<mapsto> t)) k' = Some t'" for k' t'
  proof (cases "k' = k")
    case True
    then show ?thesis using that assms(3,5) by (simp add: occ)
  next
    case False
    then have "D k' = Some t'" using that by simp
    with N have "has_entry L m t' k' (occ k') \<and> t' < n" by blast
    with False show ?thesis by simp
  qed
  moreover have "inj_on (D(k \<mapsto> t)) (dom (D(k \<mapsto> t)))"
    using N assms(2,4) by (auto simp: inj_on_def ran_def)
  moreover have "(occ(k := insert x (occ k))) k' = {} \<longleftrightarrow> (D(k \<mapsto> t)) k' = None" for k' using N by simp
  moreover have "n = card (dom (D(k \<mapsto> t))) + p" using N assms(2) by (simp add: domIff)
  moreover have "finite (dom (D(k \<mapsto> t)))" using N by simp
  moreover have "\<forall>t \<ge> n. cmap_find L m t = None" using N by blast
  ultimately show ?thesis unfolding numbers_ok_def by blast
qed

lemma entries_new:
  assumes "containers_ok L" "entries_ok L m n D occ" "D k = None"
  shows "entries_ok L (cmap_emplace L n \<lparr>bitmap = bitmap_add L x (bitmap_empty L),
      entry_literal_len = u32 (length (encode k))\<rparr> m) (n + 1) (D(k \<mapsto> n)) (occ(k := insert x (occ k)))"
proof -
  let ?e = "\<lparr>bitmap = bitmap_add L x (bitmap_empty L), entry_literal_len = u32 (length (encode k))\<rparr>"
  have fresh: "n \<notin> ran D" using numbers_entry [OF assms(2) [unfolded entries_ok_def]] by (fastforce simp: ran_def)
  have "\<forall>t \<ge> n. cmap_find L m t = None" using assms(2) unfolding entries_ok_iff by blast
  then have none: "cmap_find L m n = None" by simp
  have "has_entry L (cmap_emplace L n ?e m) n k {x}" using assms(1) none by (simp add: has_entry_def containers_ok_def)
  then show ?thesis
    using numbers_publish [OF numbers_add [OF assms(1) numbers_draw [OF assms(2) [unfolded entries_ok_def]]] assms(3)]
      fresh none unfolding entries_ok_def by simp
qed

lemma entries_known:
  "containers_ok L \<Longrightarrow> entries_ok L m n D occ \<Longrightarrow> D k = Some t \<Longrightarrow> cmap_find L m t = Some entry \<Longrightarrow>
    entries_ok L (cmap_assign L t (entry\<lparr>bitmap := bitmap_add L x (bitmap entry)\<rparr>) m) n D (occ(k := insert x (occ k)))"
  unfolding entries_ok_def by (rule numbers_known)

lemma Insert_built:
  assumes "containers_ok L" "built L ac occ" "k \<noteq> []" "nonzero_cps k" "length (encode k) < 2 ^ 32" "post \<noteq> []" "hd post \<noteq> 0xFF"
  shows "\<exists>ac'. Insert L (encode k @ post) (length (encode k)) x ac = Some ac' \<and>
    built L ac' (occ(k := insert (ToUint x) (occ k)))"
proof -
  obtain adr D where ac: "trie_inv (trie ac) adr D" "unlinked (trie ac)"
      "entries_ok L (literal_map ac) (unique_literal_cnt ac) D occ"
    using assms(2) by (auto simp: built_def)
  obtain b where "0 < length (encode k)" "b \<noteq> NULL_TERMINATOR"
      "rd (encode k @ post) (length (encode k) - 1) = Some b"
    using last_key_byte [OF assms(3,4)] .
  then have ins: "Insert L (encode k @ post) (length (encode k)) x ac = (do {
     (h, n, m) \<leftarrow> Tree_insert (encode k @ post) (length (encode k)) True
       (new_tid L (u32 (length (encode k))) (ToUint x)) (upsert_tid L (ToUint x))
       (trie ac) (unique_literal_cnt ac, literal_map ac);
     Some (ac\<lparr>trie := h, unique_literal_cnt := n, literal_map := m\<rparr>) })"
    unfolding Insert_def by (simp add: Let_def)
  show ?thesis
  proof (cases "D k")
    case None
    let ?m = "cmap_emplace L (unique_literal_cnt ac) \<lparr>bitmap = bitmap_add L (ToUint x) (bitmap_empty L),
      entry_literal_len = u32 (length (encode k))\<rparr> (literal_map ac)"
    have "new_tid L (u32 (length (encode k))) (ToUint x) (unique_literal_cnt ac, literal_map ac) =
      Some (unique_literal_cnt ac, unique_literal_cnt ac + 1, ?m)"
      by (simp add: new_tid_def)
    from Tree_insert_new [where ups = "upsert_tid L (ToUint x)" and
        ins = "new_tid L (u32 (length (encode k))) (ToUint x)" and s = "(unique_literal_cnt ac, literal_map ac)", OF ac(1,2) assms(3,4) None assms(5) this assms(6,7)]
    obtain h' adr' where "Tree_insert (encode k @ post) (length (encode k)) True
       (new_tid L (u32 (length (encode k))) (ToUint x)) (upsert_tid L (ToUint x))
       (trie ac) (unique_literal_cnt ac, literal_map ac) = Some (h', unique_literal_cnt ac + 1, ?m)"
      "trie_inv h' adr' (D(k \<mapsto> unique_literal_cnt ac))" "unlinked h'" by blast
    with entries_new [OF assms(1) ac(3) None] show ?thesis
      unfolding ins built_def by auto
  next
    case (Some t)
    then obtain entry where entry: "cmap_find L (literal_map ac) t = Some entry"
      using ac(3) unfolding entries_ok_iff has_entry_def by blast
    let ?m = "cmap_assign L t (entry\<lparr>bitmap := bitmap_add L (ToUint x) (bitmap entry)\<rparr>) (literal_map ac)"
    have "upsert_tid L (ToUint x) t (unique_literal_cnt ac, literal_map ac) = Some (unique_literal_cnt ac, ?m)"
      by (simp add: upsert_tid_def entry)
    from Tree_insert_known [where ups = "upsert_tid L (ToUint x)" and
        ins = "new_tid L (u32 (length (encode k))) (ToUint x)" and s = "(unique_literal_cnt ac, literal_map ac)", OF ac(1,2) Some assms(5) this assms(6,7)]
    obtain h' where "Tree_insert (encode k @ post) (length (encode k)) True
       (new_tid L (u32 (length (encode k))) (ToUint x)) (upsert_tid L (ToUint x))
       (trie ac) (unique_literal_cnt ac, literal_map ac) = Some (h', unique_literal_cnt ac, ?m)"
      "trie_inv h' adr D" "unlinked h'" by blast
    with entries_known [OF assms(1) ac(3) Some entry] show ?thesis
      unfolding ins built_def by auto
  qed
qed

end
