(* ===== verification/Divergences.thy ===== *)
theory Divergences
  imports Probe Like LiteralLaws
begin

text \<open>
  Whole runs of the engine on closed inputs, evaluated in the kernel: inputs on which
  \<open>AhoCorasickMultiplePatterns\<close> does not answer what LIKE asks for.  The external containers are
  instantiated with lists, which satisfy \<open>containers_ok\<close>.
\<close>

subsection \<open>Bundles that evaluate a run\<close>

lemmas run_tokenizer = PatternAnalyzer_def Tokenizer_def c_string_def make_Skeleton_def segment_loop.simps
  literal_loop.simps NextSegment_def NextLiteral_def scan_segment.simps skip_literal_delims.simps
  scan_literal.simps IsSegmentDelim_def IsLiteralDelim_def IsEscaped_def IsEscapable_def PERCENTAGE_def
  UNDERSCORE_def Let_def sub32_def u32_def u16_def sub64_def add_literal_def close_segment_def
  Segment_Insert_def HasLiteral_def empty_segment_def Pos_def FoldLiteralFreeSegments_def rd_def
  StripEscapes_def strip_loop.simps insert_literal_def

lemmas run_trie = list_containers_def AhoCorasick_def Tree_def makeNode_def Insert_def NULL_TERMINATOR_def
  new_tid_def upsert_tid_def Tree_insert_def mark_code_points.simps readCodePoint_def char_int_def
  insert_loop.simps insert_step_def deref_def assign_def readLockOrRestart_def isLocked_def root_def
  getNextChar_def getChild_def readUnlockOrRestart_def insertAndUnlock_def
  upgradeToWriteLockOrRestart_def generate_path_def insert_child_def writeUnlock_def isLeaf_def
  getLeaf_def ToUint_def

lemma upt_256: "[0..<256] = [0, 1, 2, 3, 4, 5, 6, 7, 8, 9, 10, 11, 12, 13, 14, 15, 16, 17, 18, 19, 20, 21,
  22, 23, 24, 25, 26, 27, 28, 29, 30, 31, 32, 33, 34, 35, 36, 37, 38, 39, 40, 41, 42, 43, 44, 45, 46, 47,
  48, 49, 50, 51, 52, 53, 54, 55, 56, 57, 58, 59, 60, 61, 62, 63, 64, 65, 66, 67, 68, 69, 70, 71, 72, 73,
  74, 75, 76, 77, 78, 79, 80, 81, 82, 83, 84, 85, 86, 87, 88, 89, 90, 91, 92, 93, 94, 95, 96, 97, 98, 99,
  100, 101, 102, 103, 104, 105, 106, 107, 108, 109, 110, 111, 112, 113, 114, 115, 116, 117, 118, 119, 120,
  121, 122, 123, 124, 125, 126, 127, 128, 129, 130, 131, 132, 133, 134, 135, 136, 137, 138, 139, 140, 141,
  142, 143, 144, 145, 146, 147, 148, 149, 150, 151, 152, 153, 154, 155, 156, 157, 158, 159, 160, 161, 162,
  163, 164, 165, 166, 167, 168, 169, 170, 171, 172, 173, 174, 175, 176, 177, 178, 179, 180, 181, 182, 183,
  184, 185, 186, 187, 188, 189, 190, 191, 192, 193, 194, 195, 196, 197, 198, 199, 200, 201, 202, 203, 204,
  205, 206, 207, 208, 209, 210, 211, 212, 213, 214, 215, 216, 217, 218, 219, 220, 221, 222, 223, 224, 225,
  226, 227, 228, 229, 230, 231, 232, 233, 234, 235, 236, 237, 238, 239, 240, 241, 242, 243, 244, 245, 246,
  247, 248, 249, 250, 251, 252, 253, 254, 255]"
  by code_simp

lemmas run_links = upt_256 BuildSuffixLink_def bfs_loop.simps plain_item_def bfs_step_def getChildren_def
  isLastByteOfCodePoint_def setSuffixLink_def set_link_def getSuffixLink_def get_link_def
  setOutputLink_def getOutputLink_def link_child_def find_suffix.simps isTerminalNode_def

lemmas run_engine = IsEmpty_def OnlyWildcard_def SpecialMatchEmptyPattern_def make_text_iterator_def
  make_iterator_def InitializeMatcher_def make_Matcher_def LruCapForSegment_def LRUCache_def GetRoot_def
  drive_loop.simps CanAdvanceOneCodePoint_def IterateOneCodePoint_def ContinueParseText_def
  VisitCodePoint_def fall_back.simps append_terminal_def AppendResult_def output_chain.simps
  no_duplicates_def same_match_def FromUint_def handle_match_def MarkDirty_def TryMatchingLiteral_def
  Segment_Contain_def positional_fit_def IsFirstLiteral_def IsLastLiteral_def IsPreviousLiteral_def
  GetNextLiteralOffset_def Contain_def GetAndRemove_def Schedule_def SegmentTailEnd_def
  ValidLastLiteral_def AdvanceNextSegment_def Reset_def ProcessDelayedMatching.simps FrontReady_def
  Front_def Pop_def Matcher_Upsert_def Upsert_def erase_node_def AhoCorasickMultiplePatterns_def

lemmas run_like = tokens.simps tok1_def PERCENT_CP_def UNDERSCORE_CP_def

subsection \<open>The runs\<close>

text \<open>The alignment cache of a matcher is too small.  For \<open>%a_aaaaa\<close> its capacity is 4,
  the offset of the last literal plus two, but on a run of seven \<open>a\<close> more alignments than that are
  alive between the hit of the first literal and that of the second, the oldest is dropped and the
  pattern is reported as not matching.\<close>

lemma lru_capacity_loses_match:
  "containers_ok list_containers \<and>
   AhoCorasickMultiplePatterns list_containers (c_string [0x61, 0x61, 0x61, 0x61, 0x61, 0x61, 0x61]) 7
     [[0x25, 0x61, 0x5F, 0x61, 0x61, 0x61, 0x61, 0x61]] [] = Some [False] \<and>
   like (tokens 0 [0x25, 0x61, 0x5F, 0x61, 0x61, 0x61, 0x61, 0x61]) [0x61, 0x61, 0x61, 0x61, 0x61, 0x61, 0x61]"
proof (intro conjI list_containers_ok)
  show "AhoCorasickMultiplePatterns list_containers (c_string [0x61, 0x61, 0x61, 0x61, 0x61, 0x61, 0x61]) 7
     [[0x25, 0x61, 0x5F, 0x61, 0x61, 0x61, 0x61, 0x61]] [] = Some [False]"
    by (simp add: run_tokenizer run_trie run_links run_engine)
  show "like (tokens 0 [0x25, 0x61, 0x5F, 0x61, 0x61, 0x61, 0x61, 0x61]) [0x61, 0x61, 0x61, 0x61, 0x61, 0x61, 0x61]"
    by (simp add: run_like)
qed

text \<open>A zero byte of the text right after a literal makes the engine fault: \<open>%a%\<close> on \<open>a\<close>, zero, \<open>b\<close>
  (\<open>zero_byte_reaches_leaf\<close> has the reason, for all literals and texts).\<close>

lemma zero_byte_in_text_faults:
  "containers_ok list_containers \<and>
   AhoCorasickMultiplePatterns list_containers (c_string [0x61, 0, 0x62]) 3 [[0x25, 0x61, 0x25]] [] = None \<and>
   like (tokens 0 [0x25, 0x61, 0x25]) [0x61, 0, 0x62]"
proof (intro conjI list_containers_ok)
  show "AhoCorasickMultiplePatterns list_containers (c_string [0x61, 0, 0x62]) 3 [[0x25, 0x61, 0x25]] [] = None"
    by (simp add: run_tokenizer run_trie run_links run_engine)
  show "like (tokens 0 [0x25, 0x61, 0x25]) [0x61, 0, 0x62]"
    by (simp add: run_like)
qed

text \<open>Whether a byte is escaped is decided by the byte before it alone, so an escaped
  escape character escapes again: with escape \<open>!\<close> the pattern \<open>!!%\<close>, an exclamation mark and then
  anything, does not match \<open>!xy\<close>; and a pattern that is the escape character alone leaves an empty
  literal, on which the insertion into the trie asserts.\<close>

lemma escaped_escape_diverges:
  "containers_ok list_containers \<and>
   AhoCorasickMultiplePatterns list_containers (c_string [0x21, 0x78, 0x79]) 3 [[0x21, 0x21, 0x25]] [0x21] =
     Some [False] \<and>
   like (tokens 0x21 [0x21, 0x21, 0x25]) [0x21, 0x78, 0x79] \<and>
   AhoCorasickMultiplePatterns list_containers (c_string [0x21]) 1 [[0x21]] [0x21] = None"
proof (intro conjI list_containers_ok)
  show "AhoCorasickMultiplePatterns list_containers (c_string [0x21, 0x78, 0x79]) 3 [[0x21, 0x21, 0x25]] [0x21] =
     Some [False]"
    by (simp add: run_tokenizer run_trie run_links run_engine)
  show "like (tokens 0x21 [0x21, 0x21, 0x25]) [0x21, 0x78, 0x79]"
    by (simp add: run_like)
  show "AhoCorasickMultiplePatterns list_containers (c_string [0x21]) 1 [[0x21]] [0x21] = None"
    by (simp add: run_tokenizer run_trie run_links run_engine)
qed

end
