(* ===== verification/Constructor.thy ===== *)
theory Constructor
  imports SkeletonLaws CodeStrings
begin

text \<open>
  What the two loops of the constructor of \<open>Skeleton\<close> do on the encoding of a pattern without escape:
  the bytes of the two wildcards stand exactly where their code points stand, so the tokenizer cuts
  the pattern into the \<open>chunks\<close> between its percent signs and each of them into the chunks between its
  underscores, and calls the callback on every literal with its offset.
\<close>

subsection \<open>Delimiters in bytes and in code points\<close>

lemma high_byte: "bit h 7 \<Longrightarrow> bit (ucast (h OR (x :: 32 word)) :: byte) 7"
  by (simp add: bit_ucast_iff bit_or_iff)

lemma high_bytes:
  assumes "c \<le> 0x7FFFFFFF" "\<not> c \<le> 0x7F" "b \<in> set (writeCodePointUnchecked c)"
  shows "bit b 7"
proof -
  have "bit (0x80 :: 32 word) 7" "bit (0xC0 :: 32 word) 7" "bit (0xE0 :: 32 word) 7"
    "bit (0xF0 :: 32 word) 7" "bit (0xF8 :: 32 word) 7" "bit (0xFC :: 32 word) 7"
    by simp_all
  note * = this [THEN high_byte]
  show ?thesis using assms by (auto simp: writeCodePointUnchecked_def * split: if_splits)
qed

lemma ascii_byte:
  assumes "c \<le> 0x7FFFFFFF" "b \<in> set (writeCodePointUnchecked c)" "d \<le> 0x7F"
  shows "b = ucast d \<longleftrightarrow> c = d"
proof (cases "c \<le> 0x7F")
  case True
  then have "b = ucast c" using assms(2) by (simp add: writeCodePointUnchecked_def)
  then show ?thesis using read_ascii [OF True] read_ascii [OF assms(3)] by metis
next
  case False
  have "\<not> bit (ucast d :: byte) 7" using read_ascii [OF assms(3)] by (simp add: ascii_bit)
  with high_bytes [OF assms(1) False assms(2)] assms(3) False show ?thesis by auto
qed

lemma delimiter_bytes:
  assumes "c \<le> 0x7FFFFFFF" "b \<in> set (writeCodePointUnchecked c)"
  shows "b = PERCENTAGE \<longleftrightarrow> c = PERCENT_CP" "b = UNDERSCORE \<longleftrightarrow> c = UNDERSCORE_CP"
  using ascii_byte [OF assms, of PERCENT_CP] ascii_byte [OF assms, of UNDERSCORE_CP]
  by (simp_all add: PERCENTAGE_def UNDERSCORE_def PERCENT_CP_def UNDERSCORE_CP_def)

lemma takeWhile_encode:
  assumes "valid_cps xs" "\<And>c b. c \<le> 0x7FFFFFFF \<Longrightarrow> b \<in> set (writeCodePointUnchecked c) \<Longrightarrow> Q b \<longleftrightarrow> R c"
  shows "takeWhile Q (encode xs) = encode (takeWhile R xs)"
  using assms(1)
proof (induction xs)
  case (Cons c xs)
  show ?case
  proof (cases "R c")
    case True
    with Cons assms(2) [of c] show ?thesis by simp
  next
    case False
    with Cons.prems assms(2) [of c] writeCodePoint_nonempty [of c] show ?thesis
      by (cases "writeCodePointUnchecked c") auto
  qed
qed simp

lemma run_end_encoded:
  assumes "valid_cps (t1 @ t2)" "p = encode (t1 @ t2) @ post"
    "\<And>k. k < enc_len (t1 @ t2) \<Longrightarrow> P k \<longleftrightarrow> Q (p ! k)"
    "\<And>c b. c \<le> 0x7FFFFFFF \<Longrightarrow> b \<in> set (writeCodePointUnchecked c) \<Longrightarrow> Q b \<longleftrightarrow> R c"
  shows "run_end P (enc_len t1) (enc_len (t1 @ t2)) = enc_len (t1 @ takeWhile R t2)"
proof -
  let ?I = "[enc_len t1..<enc_len (t1 @ t2)]"
  have "map ((!) p) ?I = encode t2"
    by (intro nth_equalityI) (simp_all add: assms(2) enc_len_def nth_append)
  then have "map ((!) p) (takeWhile (Q \<circ> (!) p) ?I) = encode (takeWhile R t2)"
    using takeWhile_encode [of t2 Q R] assms(1,4) by (simp flip: takeWhile_map)
  then have "length (takeWhile (Q \<circ> (!) p) ?I) = enc_len (takeWhile R t2)"
    unfolding enc_len_def by (metis length_map)
  moreover have "takeWhile P ?I = takeWhile (Q \<circ> (!) p) ?I"
    using assms(3) by (intro takeWhile_cong) auto
  ultimately show ?thesis by (simp add: run_end_def)
qed

text \<open>A tokenizer without escape over an encoded pattern; \<open>post\<close> is what lies behind.\<close>

definition plain_tokenizer :: "tokenizer \<Rightarrow> bytes \<Rightarrow> bool" where
  "plain_tokenizer t p \<longleftrightarrow> \<not> tok_has_escape t \<and> tok_p t = p"

lemma plain_delims:
  assumes "plain_tokenizer t p"
  shows "seg_delim t k \<longleftrightarrow> p ! k = PERCENTAGE" "lit_delim t k \<longleftrightarrow> p ! k = UNDERSCORE" "esc_count t i j = 0"
  using assms by (simp_all add: plain_tokenizer_def seg_delim_def lit_delim_def escaped_at_def esc_count_def)

lemma delimiter_runs:
  assumes "plain_tokenizer t (encode (t1 @ t2) @ post)" "valid_cps (t1 @ t2)"
  shows "run_end (seg_delim t) (enc_len t1) (enc_len (t1 @ t2)) = enc_len (t1 @ takeWhile (\<lambda>c. c = PERCENT_CP) t2)"
    "run_end (\<lambda>k. \<not> seg_delim t k) (enc_len t1) (enc_len (t1 @ t2)) = enc_len (t1 @ takeWhile (\<lambda>c. c \<noteq> PERCENT_CP) t2)"
    "run_end (lit_delim t) (enc_len t1) (enc_len (t1 @ t2)) = enc_len (t1 @ takeWhile (\<lambda>c. c = UNDERSCORE_CP) t2)"
    "run_end (\<lambda>k. \<not> lit_delim t k \<and> \<not> seg_delim t k) (enc_len t1) (enc_len (t1 @ t2)) =
      enc_len (t1 @ takeWhile (\<lambda>c. c \<noteq> UNDERSCORE_CP \<and> c \<noteq> PERCENT_CP) t2)"
  by (rule run_end_encoded [OF assms(2) refl, where Q = "\<lambda>b. b = PERCENTAGE"]
      run_end_encoded [OF assms(2) refl, where Q = "\<lambda>b. b \<noteq> PERCENTAGE"]
      run_end_encoded [OF assms(2) refl, where Q = "\<lambda>b. b = UNDERSCORE"]
      run_end_encoded [OF assms(2) refl, where Q = "\<lambda>b. b \<noteq> UNDERSCORE \<and> b \<noteq> PERCENTAGE"];
      simp add: plain_delims [OF assms(1)] delimiter_bytes)+

subsection \<open>The literals of a pattern\<close>

abbreviation us :: "32 word \<Rightarrow> bool" where
  "us c \<equiv> c = UNDERSCORE_CP"

text \<open>The maximal runs between delimiters in \<open>x\<close>, which starts after \<open>t1\<close>, each with all that stands
  before it.\<close>

lemma dropWhile_shorter: "dropWhile P x \<noteq> [] \<Longrightarrow>
  length (dropWhile (Not \<circ> P) (dropWhile P x)) < length x"
proof -
  assume ne: "dropWhile P x \<noteq> []"
  then obtain c y where y: "dropWhile P x = c # y" by (cases "dropWhile P x") auto
  then have "\<not> P c" using hd_dropWhile [OF ne] by simp
  with y length_dropWhile_le [of P x] length_dropWhile_le [of "Not \<circ> P" y] show ?thesis by simp
qed

function chunks :: "('a \<Rightarrow> bool) \<Rightarrow> 'a list \<Rightarrow> 'a list \<Rightarrow> ('a list \<times> 'a list) list" where
  "chunks D t1 x =
    (let u = takeWhile D x; y = dropWhile D x; k = takeWhile (Not \<circ> D) y
     in if y = [] then []
        else (t1 @ u, k) # chunks D (t1 @ u @ k) (dropWhile (Not \<circ> D) y))"
  by auto
termination by (relation "measure (\<lambda>(D, t1, x). length x)") (simp_all add: dropWhile_shorter)

declare chunks.simps [simp del]

lemma chunks_induct [case_names delims chunk]:
  assumes delims: "\<And>t1 x. \<forall>c \<in> set x. D c \<Longrightarrow> chunks D t1 x = [] \<Longrightarrow> P t1 x"
    and chunk: "\<And>t1 u k z. \<forall>c \<in> set u. D c \<Longrightarrow> k \<noteq> [] \<Longrightarrow> \<forall>c \<in> set k. \<not> D c \<Longrightarrow> z = [] \<or> D (hd z) \<Longrightarrow>
      chunks D t1 (u @ k @ z) = (t1 @ u, k) # chunks D (t1 @ u @ k) z \<Longrightarrow> P (t1 @ u @ k) z \<Longrightarrow> P t1 (u @ k @ z)"
  shows "P t1 x"
proof (induction "length x" arbitrary: t1 x rule: less_induct)
  case less
  let ?u = "takeWhile D x" and ?y = "dropWhile D x"
  let ?k = "takeWhile (Not \<circ> D) ?y" and ?z = "dropWhile (Not \<circ> D) ?y"
  show ?case
  proof (cases "?y = []")
    case True
    then show ?thesis by (intro delims) (simp_all add: chunks.simps dropWhile_eq_Nil_conv)
  next
    case False
    have "?z = [] \<or> D (hd ?z)" using hd_dropWhile [of "Not \<circ> D" ?y] by auto
    moreover have "?k \<noteq> []" using hd_dropWhile [OF False] False by (cases ?y) auto
    moreover have "chunks D t1 (?u @ ?k @ ?z) = (t1 @ ?u, ?k) # chunks D (t1 @ ?u @ ?k) ?z"
      using False by (subst chunks.simps) (simp add: Let_def)
    moreover have "P (t1 @ ?u @ ?k) ?z" using dropWhile_shorter [OF False] by (intro less)
    ultimately have "P t1 (?u @ ?k @ ?z)" by (intro chunk) (auto dest: set_takeWhileD)
    then show ?thesis by simp
  qed
qed

lemma chunks_valid: "(t, k) \<in> set (chunks D t1 x) \<Longrightarrow>
  \<exists>u z. x = u @ k @ z \<and> t = t1 @ u \<and> k \<noteq> [] \<and> (\<forall>c \<in> set k. \<not> D c) \<and> (z = [] \<or> D (hd z))"
proof (induction t1 x rule: chunks_induct [where D = D])
  case (chunk t1 u q z)
  show ?case
  proof (cases "(t, k) = (t1 @ u, q)")
    case True
    with chunk.hyps(2,3,4) show ?thesis by auto
  next
    case False
    with chunk.prems chunk.hyps(5) chunk.IH obtain u' z' where "z = u' @ k @ z'" "t = (t1 @ u @ q) @ u'"
        "k \<noteq> []" "\<forall>c \<in> set k. \<not> D c" "z' = [] \<or> D (hd z')" by auto
    then show ?thesis by (intro exI [of _ "u @ q @ u'"] exI [of _ z']) simp
  qed
qed simp

definition lit_places :: "32 word list \<Rightarrow> 32 word list \<Rightarrow> (nat \<times> 32 word list) list" where
  "lit_places t1 x = map (\<lambda>(t, k). (enc_len t, k)) (chunks us t1 x)"

lemma lit_places_induct [case_names underscores literal]:
  assumes "\<And>t1 x. \<forall>c \<in> set x. us c \<Longrightarrow> lit_places t1 x = [] \<Longrightarrow> P t1 x"
    "\<And>t1 u k z. \<forall>c \<in> set u. us c \<Longrightarrow> k \<noteq> [] \<Longrightarrow> \<forall>c \<in> set k. \<not> us c \<Longrightarrow> z = [] \<or> us (hd z) \<Longrightarrow>
      lit_places t1 (u @ k @ z) = (enc_len (t1 @ u), k) # lit_places (t1 @ u @ k) z \<Longrightarrow> P (t1 @ u @ k) z \<Longrightarrow> P t1 (u @ k @ z)"
  shows "P t1 x"
proof (induction t1 x rule: chunks_induct [where D = us])
  case (delims t1 x)
  then show ?case by (intro assms(1)) (simp_all add: lit_places_def)
next
  case (chunk t1 u k z)
  show ?case by (rule assms(2)) (use chunk in \<open>simp_all add: lit_places_def\<close>)
qed

lemma takeWhile_run: "\<forall>c \<in> set u. D c \<Longrightarrow> z = [] \<or> \<not> D (hd z) \<Longrightarrow> takeWhile D (u @ z) = u"
  by (cases z) auto

abbreviation pc :: "32 word \<Rightarrow> bool" where
  "pc c \<equiv> c = PERCENT_CP"

abbreviation pieces :: "32 word list \<Rightarrow> 32 word list \<Rightarrow> (32 word list \<times> 32 word list) list" where
  "pieces \<equiv> chunks pc"

lemma enc_len_split: "enc_len (takeWhile P x) + enc_len (dropWhile P x) = enc_len x"
  by (metis takeWhile_dropWhile_id enc_len_simps(2))

definition places :: "32 word list \<Rightarrow> (nat \<times> 32 word list) list" where
  "places pat = concat (map (\<lambda>(t1, q). lit_places t1 q) (pieces [] pat))"

fun places_end :: "nat \<Rightarrow> (nat \<times> 32 word list) list \<Rightarrow> nat" where
  "places_end prev [] = prev"
| "places_end prev ((off, k) # ls) = places_end (off + enc_len k) ls"

fun add_places :: "nat \<Rightarrow> (nat \<times> 32 word list) list \<Rightarrow> Segment \<Rightarrow> Segment" where
  "add_places prev [] g = g"
| "add_places prev ((off, k) # ls) g = add_places (off + enc_len k) ls
     (add_literal \<lparr>start = off, len = enc_len k, escape_prefix_before_start = 0\<rparr> prev g)"

subsection \<open>The two loops of the constructor\<close>

text \<open>What is assumed of the callback: called with the span of a literal \<open>k\<close> it returns, and \<open>I\<close> then
  holds of the literals so far and \<open>k\<close>.\<close>

definition callback_ok :: "32 word list \<Rightarrow> bytes \<Rightarrow> 's literal_fn
    \<Rightarrow> ((nat \<times> 32 word list) list \<Rightarrow> 's \<Rightarrow> bool) \<Rightarrow> bool" where
  "callback_ok pat post fn I \<longleftrightarrow> (\<forall>tok ps s t1 k t2. plain_tokenizer tok (encode pat @ post) \<longrightarrow>
     pat = t1 @ k @ t2 \<longrightarrow> k \<noteq> [] \<longrightarrow> I ps s \<longrightarrow>
     (\<exists>s'. fn tok \<lparr>start = enc_len t1, len = enc_len k, escape_prefix_before_start = 0\<rparr> s = Some s' \<and>
        I (ps @ [(enc_len t1, k)]) s'))"

lemma literal_loop_eq:
  assumes "callback_ok pat post fn I" "valid_cps pat"
  shows "plain_tokenizer tok (encode pat @ post) \<Longrightarrow> tok_wf tok \<Longrightarrow> pat = t1 @ x @ t2 \<Longrightarrow>
    start seg + len seg = enc_len (t1 @ x) \<Longrightarrow> enc_len (t1 @ x) \<le> tok_plen tok \<Longrightarrow> PERCENT_CP \<notin> set x \<Longrightarrow>
    tok_lit_pos tok = enc_len t1 \<Longrightarrow> tok_accum_esc_len tok = 0 \<Longrightarrow> I ps s \<Longrightarrow>
    \<exists>s'. literal_loop fn seg tok g prev ow s =
        Some (tok\<lparr>tok_lit_pos := enc_len (t1 @ x)\<rparr>, add_places prev (lit_places t1 x) g,
          places_end prev (lit_places t1 x), ow \<and> lit_places t1 x = [], s') \<and>
      I (ps @ lit_places t1 x) s'"
proof (induction t1 x arbitrary: tok g prev ow s ps rule: lit_places_induct)
  case (underscores t1 x)
  have "run_end (lit_delim tok) (enc_len t1) (enc_len (t1 @ x)) = enc_len (t1 @ x)"
    using delimiter_runs(3) [of tok t1 x "encode t2 @ post"] underscores assms(2) takeWhile_eq_all_conv [THEN iffD2, OF underscores(1)] by simp
  then have "NextLiteral tok seg = Some (nullopt, tok\<lparr>tok_lit_pos := enc_len (t1 @ x)\<rparr>)"
    using NextLiteral_eq [of tok seg] underscores by (simp add: Let_def)
  with underscores show ?case by (subst literal_loop.simps) simp
next
  case (literal t1 u k z)
  let ?lit = "\<lparr>start = enc_len (t1 @ u), len = enc_len k, escape_prefix_before_start = 0\<rparr>"
  let ?tok = "tok\<lparr>tok_lit_pos := enc_len (t1 @ u @ k)\<rparr>"
  have val: "valid_cps (t1 @ u @ k @ z @ t2)" using assms(2) literal.prems(3) by simp
  have "hd (k @ z) \<in> set k" "k @ z \<noteq> []" using literal.hyps(2) by simp_all
  with literal.hyps have tw: "takeWhile us (u @ k @ z) = u" by (intro takeWhile_run) auto
  have "takeWhile (\<lambda>c. c \<noteq> UNDERSCORE_CP \<and> c \<noteq> PERCENT_CP) (k @ z) = k"
    using literal.hyps(3,4) literal.prems(6) by (intro takeWhile_run) auto
  then have e: "run_end (\<lambda>i. \<not> lit_delim tok i \<and> \<not> seg_delim tok i) (enc_len (t1 @ u)) (enc_len (t1 @ u @ k @ z)) =
      enc_len (t1 @ u @ k)"
    using delimiter_runs(4) [of tok "t1 @ u" "k @ z" "encode t2 @ post"] val literal.prems(1,3) by simp
  have s: "run_end (lit_delim tok) (enc_len t1) (enc_len (t1 @ u @ k @ z)) = enc_len (t1 @ u)"
    using delimiter_runs(3) [of tok t1 "u @ k @ z" "encode t2 @ post"] val literal.prems(1,3) tw by simp
  have less: "0 < enc_len k" using val literal.hyps(2) by (simp add: enc_len_def)
  have "NextLiteral tok seg = Some (Val ?lit, ?tok)"
    using NextLiteral_eq [of tok seg] s e less literal.prems by (simp add: Let_def plain_delims(3) del: esc_count_step)
  moreover obtain s1 where s1: "fn ?tok ?lit s = Some s1" "I (ps @ [(enc_len (t1 @ u), k)]) s1"
  proof -
    have "plain_tokenizer ?tok (encode pat @ post)" using literal.prems(1) by (simp add: plain_tokenizer_def)
    moreover have "pat = (t1 @ u) @ k @ z @ t2" using literal.prems(3) by simp
    ultimately show thesis
      using assms(1) [unfolded callback_ok_def] literal.hyps(2) literal.prems(9) that by blast
  qed
  moreover have "u32 (enc_len (t1 @ u) + enc_len k) = enc_len (t1 @ u) + enc_len k"
    using literal.prems(2,5) by (simp add: tok_wf_def)
  moreover have "\<exists>s'. literal_loop fn seg ?tok (add_literal ?lit prev g) (enc_len (t1 @ u) + enc_len k) False s1 =
      Some (?tok\<lparr>tok_lit_pos := enc_len ((t1 @ u @ k) @ z)\<rparr>,
        add_places (enc_len (t1 @ u) + enc_len k) (lit_places (t1 @ u @ k) z) (add_literal ?lit prev g),
        places_end (enc_len (t1 @ u) + enc_len k) (lit_places (t1 @ u @ k) z),
        False \<and> lit_places (t1 @ u @ k) z = [], s') \<and>
      I ((ps @ [(enc_len (t1 @ u), k)]) @ lit_places (t1 @ u @ k) z) s'"
    by (rule literal.IH) (use literal.prems s1(2) in \<open>simp_all add: plain_tokenizer_def\<close>)
  ultimately show ?case using literal.hyps(5)
    by (subst literal_loop.simps) (simp del: enc_len_simps)
qed

definition piece_segment :: "32 word list \<times> 32 word list \<Rightarrow> Segment" where
  "piece_segment = (\<lambda>(t1, q).
     close_segment \<lparr>start = enc_len t1, len = enc_len q, escape_prefix_before_start = 0\<rparr>
       (places_end (enc_len t1) (lit_places t1 q))
       (add_places (enc_len t1) (lit_places t1 q) (empty_segment\<lparr>has_prefix_percent := t1 \<noteq> []\<rparr>)))"

lemma enc_len_zero: "valid_cps t \<Longrightarrow> enc_len t = 0 \<longleftrightarrow> t = []"
  by (simp add: enc_len_def)

lemma segment_loop_eq:
  assumes "callback_ok pat post fn I" "valid_cps pat"
  shows "plain_tokenizer tok (encode pat @ post) \<Longrightarrow> tok_wf tok \<Longrightarrow> pat = t1 @ x \<Longrightarrow> enc_len pat = tok_plen tok \<Longrightarrow>
    tok_pos tok = enc_len t1 \<Longrightarrow> (gs \<noteq> [] \<Longrightarrow> t1 \<noteq> []) \<Longrightarrow> I ps s \<Longrightarrow>
    \<exists>tok' s'. segment_loop fn tok gs ow s =
        Some (tok', gs @ map piece_segment (pieces t1 x), ow \<and> concat (map (\<lambda>(t, q). lit_places t q) (pieces t1 x)) = [], s') \<and>
      I (ps @ concat (map (\<lambda>(t, q). lit_places t q) (pieces t1 x))) s' \<and>
      (tok_pos tok' \<noteq> enc_len pat \<longleftrightarrow> x \<noteq> [] \<and> last x = PERCENT_CP)"
proof (induction t1 x arbitrary: tok gs ow s ps rule: chunks_induct [where D = pc])
  case (delims t1 x)
  have "run_end (seg_delim tok) (enc_len t1) (enc_len pat) = enc_len pat"
    using delimiter_runs(1) [of tok t1 x post] delims assms(2) takeWhile_eq_all_conv [THEN iffD2, OF delims(1)] by simp
  then have "NextSegment tok = Some (nullopt, tok)"
    using NextSegment_eq [of tok] delims by (simp add: Let_def)
  moreover have "(enc_len t1 \<noteq> enc_len pat) = (x \<noteq> [] \<and> last x = PERCENT_CP)"
    using delims enc_len_zero [of x] assms(2) by auto
  ultimately show ?case using delims
    by (subst segment_loop.simps) (simp del: enc_len_simps)
next
  case (chunk t1 u q z)
  let ?seg = "\<lparr>start = enc_len (t1 @ u), len = enc_len q, escape_prefix_before_start = 0\<rparr>"
  let ?tok = "tok\<lparr>tok_pos := enc_len (t1 @ u @ q), tok_lit_pos := enc_len (t1 @ u), tok_accum_esc_len := 0\<rparr>"
  let ?ls = "lit_places (t1 @ u) q" and ?g = "empty_segment\<lparr>has_prefix_percent := t1 @ u \<noteq> []\<rparr>"
  let ?rest = "concat (map (\<lambda>(t, q). lit_places t q) (pieces (t1 @ u @ q) z))"
  have pat: "pat = (t1 @ u) @ q @ z" using chunk.prems(3) by simp
  have hd: "q @ z = [] \<or> \<not> pc (hd (q @ z))" using chunk.hyps(2,3) by simp
  have "run_end (seg_delim tok) (enc_len t1) (enc_len pat) = enc_len (t1 @ u)"
    using delimiter_runs(1) [of tok t1 "u @ q @ z" post] chunk.prems(1,3) assms(2) takeWhile_run [OF chunk.hyps(1) hd]
    by simp
  moreover have "run_end (\<lambda>k. \<not> seg_delim tok k) (enc_len (t1 @ u)) (enc_len pat) = enc_len (t1 @ u @ q)"
    using delimiter_runs(2) [of tok "t1 @ u" "q @ z" post] chunk.prems(1,3) assms(2)
      takeWhile_run [of q "\<lambda>c. c \<noteq> PERCENT_CP" z] chunk.hyps(3,4) by simp
  moreover have "0 < enc_len q" using assms(2) pat chunk.hyps(2) by (simp add: enc_len_def)
  ultimately have "NextSegment tok = Some (Val ?seg, ?tok)"
    using NextSegment_eq [of tok] chunk.prems(2,3,4,5) by (simp add: Let_def first_span_def)
  moreover obtain s1 where s1: "literal_loop fn ?seg ?tok ?g (enc_len (t1 @ u)) ow s =
      Some (?tok\<lparr>tok_lit_pos := enc_len ((t1 @ u) @ q)\<rparr>, add_places (enc_len (t1 @ u)) ?ls ?g,
        places_end (enc_len (t1 @ u)) ?ls, ow \<and> ?ls = [], s1)" "I (ps @ ?ls) s1"
    using literal_loop_eq [OF assms _ _ pat, where tok = ?tok and seg = ?seg and ps = ps and s = s and ow = ow and
        g = ?g and prev = "enc_len (t1 @ u)"] chunk.prems chunk.hyps(3) pat by (auto simp: plain_tokenizer_def)
  moreover have "(0 < length gs \<or> 0 < start ?seg) = (t1 @ u \<noteq> [])"
    using enc_len_zero [of "t1 @ u"] chunk.prems(6) assms(2) pat by (cases gs) auto
  moreover have "\<exists>tok' s'. segment_loop fn (?tok\<lparr>tok_lit_pos := enc_len ((t1 @ u) @ q)\<rparr>) (gs @ [piece_segment (t1 @ u, q)])
        (ow \<and> ?ls = []) s1 =
      Some (tok', (gs @ [piece_segment (t1 @ u, q)]) @ map piece_segment (pieces (t1 @ u @ q) z),
        (ow \<and> ?ls = []) \<and> ?rest = [], s') \<and> I ((ps @ ?ls) @ ?rest) s' \<and>
    (tok_pos tok' \<noteq> enc_len pat \<longleftrightarrow> z \<noteq> [] \<and> last z = PERCENT_CP)"
    by (rule chunk.IH) (use chunk.prems(1,2,4) pat s1(2) chunk.hyps(2) in \<open>simp_all add: plain_tokenizer_def\<close>)
  moreover have "(z \<noteq> [] \<and> last z = PERCENT_CP) = (u @ q @ z \<noteq> [] \<and> last (u @ q @ z) = PERCENT_CP)"
    using chunk.hyps(2,3) by (cases "z = []") auto
  ultimately show ?case
    unfolding chunk.hyps(5) by (subst segment_loop.simps) (simp add: piece_segment_def del: enc_len_simps)
qed

end
