(* ===== verification/Suffixes.thy ===== *)
theory Suffixes
  imports "HOL-Library.Sublist"
begin

text \<open>
  The mathematics of the automaton, on lists of any alphabet.  A set of states is prefix-closed; the
  automaton is always in the longest suffix of what it has read that is a state.  \<open>hits\<close> are the
  keys that end at the end of a word, longest first.
\<close>

definition states :: "'a list set \<Rightarrow> 'a list set" where
  "states K = {w. w = [] \<or> (\<exists>k \<in> K. prefix w k)}"

definition prefix_closed :: "'a list set \<Rightarrow> bool" where
  "prefix_closed S \<longleftrightarrow> [] \<in> S \<and> (\<forall>w c. w @ [c] \<in> S \<longrightarrow> w \<in> S)"

fun longest_in :: "'a list set \<Rightarrow> 'a list \<Rightarrow> 'a list" where
  "longest_in S [] = []"
| "longest_in S (x # w) = (if x # w \<in> S then x # w else longest_in S w)"

fun hits :: "'a list set \<Rightarrow> 'a list \<Rightarrow> 'a list list" where
  "hits K [] = []"
| "hits K (x # w) = (if x # w \<in> K then (x # w) # hits K w else hits K w)"

lemma prefix_closed_states: "prefix_closed (states K)"
  by (auto simp: prefix_closed_def states_def dest: append_prefixD)

lemma states_nil [simp]: "[] \<in> states K"
  by (simp add: states_def)

lemma keys_states: "k \<in> K \<Longrightarrow> k \<in> states K"
  by (auto simp: states_def)

lemma longest_suffix: "suffix (longest_in S w) w"
  by (induction w) (auto simp: suffix_Cons)

lemma longest_mem: "[] \<in> S \<Longrightarrow> longest_in S w \<in> S"
  by (induction w) auto

lemma longest_id [simp]: "w \<in> S \<Longrightarrow> longest_in S w = w"
  by (cases w) auto

lemma longest_max: "suffix v w \<Longrightarrow> v \<in> S \<Longrightarrow> suffix v (longest_in S w)"
  by (induction w) (auto simp: suffix_Cons)

lemma longest_length: "length (longest_in S w) \<le> length w"
  using longest_suffix suffix_length_le by blast

text \<open>The longest suffix survives cutting off what is not in it.\<close>

lemma longest_mid:
  assumes "suffix (longest_in S w) v" "suffix v w"
  shows "longest_in S v = longest_in S w"
  using assms
proof (induction w)
  case (Cons x w)
  show ?case
  proof (cases "v = x # w")
    case False
    with Cons.prems(2) have v: "suffix v w" by (simp add: suffix_Cons)
    with Cons.prems have "x # w \<notin> S"
      by (auto dest!: suffix_length_le)
    with Cons v show ?thesis by simp
  qed simp
qed simp

lemma longest_snoc:
  assumes "prefix_closed S"
  shows "longest_in S (v @ [c]) = longest_in S (longest_in S v @ [c])"
proof (rule longest_mid [symmetric])
  let ?l = "longest_in S (v @ [c])"
  show "suffix (longest_in S v @ [c]) (v @ [c])" using longest_suffix [of S v] by (auto simp: suffix_def)
  show "suffix ?l (longest_in S v @ [c])"
  proof (cases "?l = []")
    case False
    with longest_suffix [of S "v @ [c]"] obtain u where u: "?l = u @ [c]" "suffix u v"
      by (metis suffix_snoc)
    from longest_mem [of S] assms have "?l \<in> S" by (auto simp: prefix_closed_def)
    with u assms have "u \<in> S" by (auto simp: prefix_closed_def)
    with u longest_max [of u v S] show ?thesis by (auto simp: suffix_def)
  qed simp
qed

lemma longest_miss:
  assumes "prefix_closed S" "s \<noteq> []" "s @ [c] \<notin> S"
  shows "longest_in S (s @ [c]) = longest_in S (longest_in S (tl s) @ [c])"
  using assms longest_snoc [OF assms(1), of "tl s" c] by (cases s) auto

subsection \<open>Keys at the end of a word\<close>

lemma hits_set: "set (hits K w) = {k \<in> K. k \<noteq> [] \<and> suffix k w}"
  by (induction w) (auto simp: suffix_Cons)

lemma hits_longest: "hits K (longest_in (states K) w) = hits K w"
  by (induction w) (auto dest: keys_states)

lemma hits_Nil: "hits K w = [] \<longleftrightarrow> (\<forall>k. suffix k w \<longrightarrow> k \<in> K \<longrightarrow> k = [])"
  unfolding set_empty [symmetric] hits_set by auto

lemma hits_next: "hits K w = k # ks \<Longrightarrow> ks = hits K (tl k) \<and> k \<in> K \<and> k \<noteq> [] \<and> suffix k w"
  by (induction w) (auto simp: suffix_Cons split: if_splits)

lemma hits_self: "w \<noteq> [] \<Longrightarrow> hits K w = (if w \<in> K then [w] else []) @ hits K (tl w)"
  by (cases w) auto

lemma hits_distinct: "distinct (map length (hits K w))"
proof -
  have "\<forall>v \<in> set (hits K w). length v \<le> length w" for w
    by (induction w) auto
  then show ?thesis by (induction w) (force simp: image_iff)+
qed

end
