(* ===== verification/SuffixLinks.thy ===== *)
theory SuffixLinks
  imports LiteralLaws Suffixes
begin

text \<open>
  \<open>BuildSuffixLink\<close>: the breadth-first search over the byte trie returns, and afterwards every node that
  ends a code point has as suffix link the node of the longest proper suffix of its string that is a
  prefix of a literal, and as output link the node of the longest proper suffix that is a literal.
  \<open>links_at\<close> states this for the nodes seen so far; the queue holds nodes in the order of their depth,
  and all nodes not below a queued one are seen.
\<close>

subsection \<open>Nodes of states\<close>

abbreviation node_of :: "(bytes \<Rightarrow> nat) \<Rightarrow> 32 word list \<Rightarrow> ptr" where
  "node_of adr w \<equiv> NodePtr (adr (encode w))"

abbreviation stts :: "literals \<Rightarrow> 32 word list set" where
  "stts D \<equiv> states (dom D)"

lemma state_valid: "trie_inv h adr D \<Longrightarrow> w \<in> stts D \<Longrightarrow> nonzero_cps w"
  by (auto simp: states_def trie_inv_def intro: nonzero_prefix)

lemma state_node:
  assumes "trie_inv h adr D" "valid_cps w"
  shows "encode w \<in> tree_nodes D \<longleftrightarrow> w \<in> stts D"
proof -
  have "prefix (encode w) (encode k) \<longleftrightarrow> prefix w k" if "k \<in> dom D" for k
    using assms that by (intro encode_prefix) (auto simp: trie_inv_def nonzero_valid)
  then show ?thesis using assms(2) by (auto simp: tree_nodes_def states_def)
qed

lemma state_in_nodes: "trie_inv h adr D \<Longrightarrow> w \<in> stts D \<Longrightarrow> encode w \<in> tree_nodes D"
  using state_node state_valid nonzero_valid by blast

lemma node_of_inj: "trie_inv h adr D \<Longrightarrow> v \<in> stts D \<Longrightarrow> w \<in> stts D \<Longrightarrow> node_of adr v = node_of adr w \<longleftrightarrow> v = w"
  using adr_inj state_in_nodes encode_inj state_valid nonzero_valid by (metis ptr.inject(2))

lemma state_queries:
  assumes "trie_inv h adr D" "w \<in> stts D"
  shows "isLastByteOfCodePoint h (node_of adr w) = Some True"
    "isTerminalNode h (node_of adr w) = Some (w \<in> dom D)"
    "getChild h (node_of adr w) NULL_TERMINATOR = Some (case D w of None \<Rightarrow> Null | Some t \<Rightarrow> LeafPtr t)"
  using node_queries [OF assms(1) state_in_nodes [OF assms]] nonzero_valid [OF state_valid [OF assms]]
  by (auto simp: child_of_def split: option.splits)

lemma longest_state: "longest_in (stts D) w \<in> stts D"
  by (rule longest_mem) simp

lemma node_bytes:
  assumes "trie_inv h adr D" "bs \<in> tree_nodes D"
  shows "0 \<notin> set bs"
proof -
  from assms obtain k where "bs = [] \<or> prefix bs (encode k) \<and> nonzero_cps k"
    unfolding tree_nodes_def trie_inv_def by blast
  with nonzero_bytes [of k] set_mono_prefix show ?thesis by fastforce
qed

text \<open>Walking the bytes of a code point.\<close>

lemma follow_bytes_eq:
  assumes "trie_inv h adr D" "p \<in> tree_nodes D" "0 \<notin> set bs"
  shows "follow_bytes h bs (NodePtr (adr p)) =
    Some (if p @ bs \<in> tree_nodes D then Val (NodePtr (adr (p @ bs))) else nullopt)"
  using assms(2,3)
proof (induction bs arbitrary: p)
  case (Cons b bs)
  have c: "child_of adr D p b = (if p @ [b] \<in> tree_nodes D then NodePtr (adr (p @ [b])) else Null)"
    using Cons.prems by (auto simp: child_of_def NULL_TERMINATOR_def)
  show ?case
  proof (cases "p @ [b] \<in> tree_nodes D")
    case True
    with Cons.IH [OF True] Cons.prems show ?thesis by (simp add: node_queries(1) [OF assms(1)] c)
  next
    case False
    then have "p @ b # bs \<notin> tree_nodes D" using tree_nodes_prefix [of "p @ b # bs" D "p @ [b]"] by auto
    with False Cons.prems show ?thesis by (simp add: node_queries(1) [OF assms(1)] c)
  qed
qed simp

lemma snoc_child:
  assumes "trie_inv h adr D" "encode s @ bs \<in> tree_nodes D" "bs @ [b] = writeCodePointUnchecked c"
    "c \<le> 0x7FFFFFFF" "c \<noteq> 0" "s \<in> stts D"
  shows "child_of adr D (encode s @ bs) b = (if s @ [c] \<in> stts D then node_of adr (s @ [c]) else Null)"
proof -
  have e: "(encode s @ bs) @ [b] = encode (s @ [c])" using assms(3) by simp
  have "b \<noteq> 0" using zero_free [OF assms(4,5)] assms(3) by (metis in_set_conv_decomp)
  moreover have "valid_cps (s @ [c])" using assms state_valid nonzero_valid by simp
  ultimately show ?thesis unfolding child_of_def e
    using state_node [OF assms(1), of "s @ [c]"] by (simp add: NULL_TERMINATOR_def)
qed

subsection \<open>The links that are asked for\<close>

definition suffix_link :: "(bytes \<Rightarrow> nat) \<Rightarrow> literals \<Rightarrow> 32 word list \<Rightarrow> ptr" where
  "suffix_link adr D w = (if w = [] then Null else node_of adr (longest_in (stts D) (tl w)))"

definition output_link :: "(bytes \<Rightarrow> nat) \<Rightarrow> literals \<Rightarrow> 32 word list \<Rightarrow> ptr" where
  "output_link adr D w = (case hits (dom D) (tl w) of [] \<Rightarrow> Null | k # _ \<Rightarrow> node_of adr k)"

definition links_at :: "heap \<Rightarrow> (bytes \<Rightarrow> nat) \<Rightarrow> literals \<Rightarrow> bytes set \<Rightarrow> bool" where
  "links_at h adr D seen \<longleftrightarrow> (\<forall>w \<in> stts D. links (h ! adr (encode w)) =
     (if encode w \<in> seen then [suffix_link adr D w, output_link adr D w] else [Null, Null]))"

lemma links_read:
  assumes "trie_inv h adr D" "links_at h adr D seen" "w \<in> stts D" "encode w \<in> seen"
  shows "getSuffixLink h (node_of adr w) = Some (suffix_link adr D w)"
    "getOutputLink h (node_of adr w) = Some (output_link adr D w)"
  using assms deref_node [OF assms(1) state_in_nodes [OF assms(1,3)]]
  by (simp_all add: links_at_def getSuffixLink_def getOutputLink_def get_link_def)

definition with_links :: "heap \<Rightarrow> nat \<Rightarrow> ptr list \<Rightarrow> heap" where
  "with_links h a ls = h[a := (h ! a)\<lparr>links := ls\<rparr>]"

lemma with_links_twice [simp]: "a < length h \<Longrightarrow> with_links (with_links h a ls) a ms = with_links h a ms"
  by (simp add: with_links_def)

lemma with_links_nth [simp]: "a < length h \<Longrightarrow> links (with_links h a ls ! b) = (if b = a then ls else links (h ! b))"
  by (simp add: with_links_def nth_list_update)

lemma with_links_inv:
  assumes "trie_inv h adr D" "w \<in> stts D" "length ls = 2"
  shows "trie_inv (with_links h (adr (encode w)) ls) adr D"
proof -
  have "node_inv adr D bs (with_links h (adr (encode w)) ls ! adr bs)" if bs: "bs \<in> tree_nodes D" for bs
    using node_at [OF assms(1) bs] adr_less [OF assms(1) bs] adr_inj [OF assms(1) bs state_in_nodes [OF assms(1,2)]]
      assms(3) nonzero_valid [OF state_valid [OF assms(1,2)]]
    by (cases "bs = encode w") (simp_all add: node_inv_def with_links_def)
  with assms(1) show ?thesis by (simp add: trie_inv_def with_links_def)
qed

lemma set_links:
  assumes "trie_inv h adr D" "w \<in> stts D"
  shows "setSuffixLink h (node_of adr w) q =
      Some (with_links h (adr (encode w)) ((links (h ! adr (encode w)))[0 := q]))"
    "setOutputLink h (node_of adr w) q =
      Some (with_links h (adr (encode w)) ((links (h ! adr (encode w)))[1 := q]))"
proof -
  have "length (links (h ! adr (encode w))) = 2"
    using node_at [OF assms(1) state_in_nodes [OF assms]] nonzero_valid [OF state_valid [OF assms]]
    by (simp add: node_inv_def)
  then show "setSuffixLink h (node_of adr w) q =
      Some (with_links h (adr (encode w)) ((links (h ! adr (encode w)))[0 := q]))"
    "setOutputLink h (node_of adr w) q =
      Some (with_links h (adr (encode w)) ((links (h ! adr (encode w)))[1 := q]))"
    using deref_node [OF assms(1) state_in_nodes [OF assms]] adr_less [OF assms(1) state_in_nodes [OF assms]]
    by (simp_all add: setSuffixLink_def setOutputLink_def set_link_def assign_def with_links_def)
qed

lemma links_at_insert:
  assumes "trie_inv h adr D" "links_at h adr D seen" "w \<in> stts D"
  shows "links_at (with_links h (adr (encode w)) [suffix_link adr D w, output_link adr D w]) adr D (insert (encode w) seen)"
  unfolding links_at_def
proof
  fix v assume v: "v \<in> stts D"
  have "adr (encode v) = adr (encode w) \<longleftrightarrow> v = w" "encode v = encode w \<longleftrightarrow> v = w"
    using node_of_inj [OF assms(1) v assms(3)] encode_inj state_valid [OF assms(1)] v assms(3) nonzero_valid
    by simp_all
  with assms v adr_less [OF assms(1) state_in_nodes [OF assms(1,3)]]
  show "links (with_links h (adr (encode w)) [suffix_link adr D w, output_link adr D w] ! adr (encode v)) =
      (if encode v \<in> insert (encode w) seen then [suffix_link adr D v, output_link adr D v] else [Null, Null])"
    by (auto simp: links_at_def)
qed

definition seen_below :: "literals \<Rightarrow> nat \<Rightarrow> bytes set \<Rightarrow> bool" where
  "seen_below D n seen \<longleftrightarrow> (\<forall>w \<in> stts D. length (encode w) \<le> n \<longrightarrow> encode w \<in> seen)"

lemma encode_suffix_length: "suffix v w \<Longrightarrow> length (encode v) \<le> length (encode w)"
  by (auto simp: suffix_def)

lemma encode_tl_less: "valid_cps w \<Longrightarrow> w \<noteq> [] \<Longrightarrow> length (encode (tl w)) < length (encode w)"
  using writeCodePoint_nonempty by (cases w) auto

lemma find_suffix_eq:
  assumes inv: "trie_inv h adr D" and links: "links_at h adr D seen"
    and c: "bs @ [b] = writeCodePointUnchecked c" "c \<le> 0x7FFFFFFF" "c \<noteq> 0"
    and s: "s \<in> stts D" "seen_below D (length (encode s)) seen"
  shows "find_suffix h bs b (node_of adr s) = Some (if longest_in (stts D) (s @ [c]) = [] then Null else node_of adr (longest_in (stts D) (s @ [c])))"
  using s
proof (induction "length s" arbitrary: s rule: less_induct)
  case less
  have nz: "0 \<notin> set bs" using zero_free [OF c(2,3)] c(1) by (metis UnCI set_append)
  have walk: "follow_bytes h bs (node_of adr s) =
      Some (if encode s @ bs \<in> tree_nodes D then Val (NodePtr (adr (encode s @ bs))) else nullopt)"
    by (rule follow_bytes_eq [OF inv state_in_nodes [OF inv less.prems(1)] nz])
  have "encode s @ bs \<in> tree_nodes D" if "s @ [c] \<in> stts D"
    using state_in_nodes [OF inv that] c(1) [symmetric] tree_nodes_snoc [of "encode s @ bs" b D] by simp
  then have target: "(case (if encode s @ bs \<in> tree_nodes D then Val (NodePtr (adr (encode s @ bs))) else nullopt) of
        nullopt \<Rightarrow> Some Null | Val p \<Rightarrow> getChild h p b) =
      Some (if s @ [c] \<in> stts D then node_of adr (s @ [c]) else Null)"
    using node_queries(1) [OF inv] snoc_child [OF inv _ c less.prems(1)] by auto
  have seen: "encode s \<in> seen" using less.prems by (simp add: seen_below_def)
  note link = links_read(1) [OF inv links less.prems(1) seen]
  show ?case
  proof (cases "s @ [c] \<in> stts D")
    case True
    then show ?thesis
      by (subst find_suffix.simps)
        (simp add: state_queries(1) [OF inv less.prems(1)] state_queries(1) [OF inv True, simplified] walk target)
  next
    case False
    show ?thesis
    proof (cases "s = []")
      case True
      then have "suffix_link adr D s = Null" "longest_in (stts D) (s @ [c]) = []"
        using False by (simp_all add: suffix_link_def)
      with False link show ?thesis
        by (subst find_suffix.simps)
          (simp add: state_queries(1) [OF inv less.prems(1)] walk target find_suffix.simps)
    next
      case ne: False
      let ?t = "longest_in (stts D) (tl s)"
      have "length ?t < length s" using longest_length [of "stts D" "tl s"] ne by (cases s) auto
      moreover have "length (encode ?t) \<le> length (encode s)"
        using encode_suffix_length [OF longest_suffix [of "stts D" "tl s"]] encode_suffix_length [of "tl s" s] by simp
      then have "seen_below D (length (encode ?t)) seen" using less.prems(2) by (auto simp: seen_below_def)
      ultimately have "find_suffix h bs b (node_of adr ?t) =
          Some (if longest_in (stts D) (?t @ [c]) = [] then Null else node_of adr (longest_in (stts D) (?t @ [c])))"
        using less.hyps [OF _ longest_state] by blast
      then show ?thesis using False ne link longest_miss [OF prefix_closed_states ne False]
        by (subst find_suffix.simps)
          (simp add: state_queries(1) [OF inv less.prems(1)] walk target suffix_link_def)
    qed
  qed
qed

lemma output_of_suffix:
  assumes "s = longest_in (stts D) (tl w)"
  shows "output_link adr D w = (if s \<in> dom D \<and> s \<noteq> [] then node_of adr s else output_link adr D s)"
proof -
  have "hits (dom D) (tl w) = hits (dom D) s" using assms by (simp add: hits_longest)
  then show ?thesis by (cases s) (auto simp: output_link_def)
qed

text \<open>What the queue holds for the node of the bytes \<open>p\<close>.\<close>

definition item_ok :: "(bytes \<Rightarrow> nat) \<Rightarrow> literals \<Rightarrow> BFSNodeItem \<Rightarrow> bytes \<Rightarrow> bool" where
  "item_ok adr D item p \<longleftrightarrow> p \<in> tree_nodes D \<and> bfs_node item = NodePtr (adr p) \<and>
    (\<exists>w bs. w \<in> stts D \<and> p = encode w @ bs \<and> last_codepoint_node item = node_of adr w \<and>
       length (bytes_since_last_cp item) = 6 \<and> bfs_length item = length bs \<and>
       take (length bs) (bytes_since_last_cp item) = bs \<and>
       (bs = [] \<or> (\<exists>c. w @ [c] \<in> stts D \<and> strict_prefix bs (writeCodePointUnchecked c))))"

lemma plain_item_ok: "trie_inv h adr D \<Longrightarrow> w \<in> stts D \<Longrightarrow> item_ok adr D (plain_item (node_of adr w)) (encode w)"
  using state_in_nodes by (fastforce simp: item_ok_def plain_item_def)

text \<open>The next byte continues one code point.\<close>

lemma next_byte:
  assumes inv: "trie_inv h adr D" and w: "w \<in> stts D"
    and bs: "bs = [] \<or> (\<exists>c. w @ [c] \<in> stts D \<and> strict_prefix bs (writeCodePointUnchecked c))"
    and p: "encode w @ bs @ [b] \<in> tree_nodes D"
  obtains d where "w @ [d] \<in> stts D" "prefix (bs @ [b]) (writeCodePointUnchecked d)" "d \<le> 0x7FFFFFFF" "d \<noteq> 0"
proof -
  from p obtain k where k: "k \<in> dom D" "prefix (encode w @ bs @ [b]) (encode k)" by (auto simp: tree_nodes_def)
  from k(1) inv have kv: "nonzero_cps k" by (simp add: trie_inv_def)
  have wv: "valid_cps w" using state_valid [OF inv w] nonzero_valid by blast
  from k(2) have "prefix (encode w) (encode k)" by (rule append_prefixD)
  with wv kv nonzero_valid obtain zs where zs: "k = w @ zs" by (auto elim: prefixE)
  with k(2) have pz: "prefix (bs @ [b]) (encode zs)" by simp
  then obtain d ds where d: "zs = d # ds" by (cases zs) auto
  have dv: "d \<le> 0x7FFFFFFF" "d \<noteq> 0" using kv zs d by auto
  have state: "w @ [d] \<in> stts D" unfolding states_def using k(1) zs d by (auto intro!: bexI [of _ k])
  have "prefix (bs @ [b]) (writeCodePointUnchecked d)"
  proof (cases "bs = []")
    case True
    with pz d writeCodePoint_nonempty [OF dv(1)] show ?thesis by (cases "writeCodePointUnchecked d") auto
  next
    case False
    with bs obtain c where c: "w @ [c] \<in> stts D" "strict_prefix bs (writeCodePointUnchecked c)" by blast
    from pz d have "prefix bs (writeCodePointUnchecked d @ encode ds)" by (auto dest: append_prefixD)
    then have "prefix bs (writeCodePointUnchecked d) \<or> prefix (writeCodePointUnchecked d) bs"
      by (metis prefix_same_cases prefixI)
    moreover have "\<not> prefix (writeCodePointUnchecked d) bs"
    proof
      assume a: "prefix (writeCodePointUnchecked d) bs"
      then have "prefix (writeCodePointUnchecked d @ []) (writeCodePointUnchecked c @ [])"
        using c(2) by (auto simp: strict_prefix_def intro: prefix_order.trans)
      moreover have "c \<le> 0x7FFFFFFF" using state_valid [OF inv c(1)] by simp
      ultimately have "d = c" using cp_prefix_free dv(1) by blast
      with a c(2) show False by (auto simp: strict_prefix_def dest: prefix_order.antisym)
    qed
    ultimately have "strict_prefix bs (writeCodePointUnchecked d)" by (auto simp: strict_prefix_def)
    then show ?thesis using pz d by (auto elim!: strict_prefixE' simp: Cons_eq_append_conv)
  qed
  with state dv show thesis by (intro that)
qed

lemma link_child_eq:
  assumes inv: "trie_inv h adr D" and links: "links_at h adr D seen"
    and c: "bs @ [b] = writeCodePointUnchecked c" "c \<le> 0x7FFFFFFF" "c \<noteq> 0" and w: "w @ [c] \<in> stts D"
    and seen: "seen_below D n seen" "length (encode (w @ [c])) = Suc n"
    and item: "last_codepoint_node item = node_of adr w" "take (bfs_length item) (bytes_since_last_cp item) = bs"
  shows "link_child h item b (node_of adr (w @ [c])) =
    Some (with_links h (adr (encode (w @ [c]))) [suffix_link adr D (w @ [c]), output_link adr D (w @ [c])])"
proof -
  let ?v = "w @ [c]"
  let ?f = "longest_in (stts D) (tl ?v)"
  let ?a = "adr (encode ?v)"
  have ws: "w \<in> stts D" using w prefix_closed_states [of "dom D"] unfolding prefix_closed_def by blast
  have "length (encode w) \<le> n" using seen(2) writeCodePoint_nonempty [OF c(2)] by (cases "writeCodePointUnchecked c") auto
  then have wseen: "encode w \<in> seen" using seen(1) ws by (simp add: seen_below_def)
  have fs: "?f \<in> stts D" by (rule longest_state)
  have vv: "valid_cps ?v" using state_valid [OF inv w] nonzero_valid by blast
  have "length (encode ?f) \<le> length (encode (tl ?v))" using encode_suffix_length longest_suffix by blast
  also have "\<dots> < Suc n" using encode_tl_less [OF vv] seen(2) by simp
  finally have fn: "length (encode ?f) \<le> n" by simp
  then have fseen: "encode ?f \<in> seen" using seen(1) fs by (simp add: seen_below_def)
  have fv: "?f \<noteq> ?v" using fn seen(2) by auto
  have found: "(do { s \<leftarrow> getSuffixLink h (node_of adr w); find_suffix h bs b s }) =
      Some (if ?f = [] then Null else node_of adr ?f)"
  proof (cases "w = []")
    case True
    then show ?thesis using links_read(1) [OF inv links ws wseen]
      by (simp add: suffix_link_def find_suffix.simps)
  next
    case False
    let ?s = "longest_in (stts D) (tl w)"
    have "length (encode ?s) \<le> n"
      using encode_suffix_length [OF longest_suffix [of "stts D" "tl w"]] encode_suffix_length [of "tl w" w]
        \<open>length (encode w) \<le> n\<close> by simp
    then have "seen_below D (length (encode ?s)) seen" using seen(1) by (auto simp: seen_below_def)
    from find_suffix_eq [OF inv links c longest_state this]
    have "find_suffix h bs b (node_of adr ?s) = Some (if ?f = [] then Null else node_of adr ?f)"
      using False longest_snoc [OF prefix_closed_states, of "dom D" "tl w" c] by simp
    with False show ?thesis using links_read(1) [OF inv links ws wseen] by (simp add: suffix_link_def)
  qed
  have node: "(if (if ?f = [] then Null else node_of adr ?f) = Null then root
      else if ?f = [] then Null else node_of adr ?f) = node_of adr ?f"
    using adr_root [OF inv] by auto
  have len: "?a < length h" by (rule adr_less [OF inv state_in_nodes [OF inv w]])
  have "links (h ! ?a) = (if encode ?v \<in> seen then [suffix_link adr D ?v, output_link adr D ?v] else [Null, Null])"
    using links w unfolding links_at_def by blast
  then obtain x y where xy: "links (h ! ?a) = [x, y]" by (cases "encode ?v \<in> seen") simp_all
  let ?h1 = "with_links h ?a [node_of adr ?f, y]"
  let ?out = "output_link adr D ?v"
  have inv1: "trie_inv ?h1 adr D" by (rule with_links_inv [OF inv w]) simp
  have "adr (encode ?f) \<noteq> ?a" using node_of_inj [OF inv fs w] fv by auto
  then have "getOutputLink ?h1 (node_of adr ?f) = getOutputLink h (node_of adr ?f)"
    using adr_less [OF inv state_in_nodes [OF inv fs]]
    by (simp add: getOutputLink_def get_link_def with_links_def deref_def)
  with links_read(2) [OF inv links fs fseen] have fout: "getOutputLink ?h1 (node_of adr ?f) = Some (output_link adr D ?f)"
    by simp
  have nokey: "[] \<notin> dom D" using inv by (auto simp: trie_inv_def)
  have out: "(if ?f \<in> dom D then Some (node_of adr ?f) else getOutputLink ?h1 (node_of adr ?f)) = Some ?out"
    using output_of_suffix [OF refl, of adr D ?v] nokey fout by auto
  let ?h2 = "with_links h ?a [node_of adr ?f, ?out]"
  have inv2: "trie_inv ?h2 adr D" by (rule with_links_inv [OF inv w]) simp
  have ok: "(if ?out = Null then Some True else isTerminalNode ?h2 ?out) = Some True"
  proof (cases "hits (dom D) (tl ?v)")
    case (Cons k ks)
    then have "k \<in> dom D" using hits_next by blast
    then show ?thesis using Cons state_queries(2) [OF inv2 keys_states] by (simp add: output_link_def)
  qed (simp add: output_link_def)
  have "setOutputLink ?h1 (node_of adr ?v) ?out = Some ?h2"
    using set_links(2) [OF inv1 w] len by simp
  moreover obtain s1 where "getSuffixLink h (node_of adr w) = Some s1"
      "find_suffix h bs b s1 = Some (if ?f = [] then Null else node_of adr ?f)"
    using found by (auto simp: bind_eq_Some_conv)
  moreover have "setSuffixLink h (node_of adr ?v) (node_of adr ?f) = Some ?h1"
    using set_links(1) [OF inv w, of "node_of adr ?f"] by (simp only: xy list_update_code)
  ultimately show ?thesis
    unfolding link_child_def item
    by (simp only: Option.bind.simps Let_def node state_queries(1) [OF inv fs] state_queries(2) [OF inv1 fs]
        assert_opt_simps out ok) (simp add: suffix_link_def)
qed

definition kid_bytes :: "(bytes \<Rightarrow> nat) \<Rightarrow> literals \<Rightarrow> bytes \<Rightarrow> byte list" where
  "kid_bytes adr D p = filter (\<lambda>b. child_of adr D p b \<noteq> Null) (map word_of_nat [0..<256])"

definition kids :: "bytes \<Rightarrow> byte list \<Rightarrow> bytes list" where
  "kids p bl = map (\<lambda>b. p @ [b]) (filter (\<lambda>b. b \<noteq> 0) bl)"

lemma getChildren_eq:
  assumes "trie_inv h adr D" "p \<in> tree_nodes D"
  shows "getChildren h (NodePtr (adr p)) 0 255 = Some (map (\<lambda>b. (b, child_of adr D p b)) (kid_bytes adr D p))"
proof -
  have "children (h ! adr p) = child_of adr D p" using node_at [OF assms] by (simp add: node_inv_def)
  then show ?thesis using deref_node [OF assms] step_reads [OF assms]
    by (simp add: getChildren_def kid_bytes_def filter_map comp_def del: upt_Suc)
qed

lemma kid_bytes_distinct: "distinct (kid_bytes adr D p)"
proof -
  have "inj_on (word_of_nat :: nat \<Rightarrow> byte) {0..<256}"
    by (rule inj_on_inverseI [where g = unat]) (simp add: unsigned_of_nat take_bit_nat_eq_self)
  then show ?thesis by (simp add: kid_bytes_def distinct_map)
qed

lemma kid_bytes_set: "set (kid_bytes adr D p) = {b. child_of adr D p b \<noteq> Null}"
proof -
  have "b \<in> word_of_nat ` {0..<256}" for b :: byte
    by (rule byte_all) (simp add: list_all_iff)
  then show ?thesis by (auto simp: kid_bytes_def)
qed

lemma kids_set:
  assumes "trie_inv h adr D"
  shows "set (kids p (kid_bytes adr D p)) = {q \<in> tree_nodes D. \<exists>b. q = p @ [b]}"
proof -
  have "b \<noteq> 0" if "p @ [b] \<in> tree_nodes D" for b using node_bytes [OF assms that] by auto
  then show ?thesis by (auto simp: kids_def kid_bytes_set child_of_def NULL_TERMINATOR_def split: if_splits)
qed

text \<open>The children of a node other than the root.\<close>

lemma bfs_children_step:
  assumes inv: "trie_inv h adr D" and links: "links_at h adr D seen"
    and item: "item_ok adr D item p" and below: "seen_below D (length p) seen" and b: "b \<noteq> 0" "p @ [b] \<in> tree_nodes D"
  shows "\<exists>h' i. bfs_children item ((b, child_of adr D p b) # cs) h q = bfs_children item cs h' (q @ [i]) \<and>
    trie_inv h' adr D \<and> links_at h' adr D (insert (p @ [b]) seen) \<and> item_ok adr D i (p @ [b])"
proof -
  from item obtain w bs where w: "w \<in> stts D" "p = encode w @ bs" "last_codepoint_node item = node_of adr w"
      "length (bytes_since_last_cp item) = 6" "bfs_length item = length bs"
      "take (length bs) (bytes_since_last_cp item) = bs"
      "bs = [] \<or> (\<exists>c. w @ [c] \<in> stts D \<and> strict_prefix bs (writeCodePointUnchecked c))"
    unfolding item_ok_def by blast
  obtain d where d: "w @ [d] \<in> stts D" "prefix (bs @ [b]) (writeCodePointUnchecked d)" "d \<le> 0x7FFFFFFF" "d \<noteq> 0"
    using next_byte [OF inv w(1,7), of b] b(2) w(2) by auto
  have child: "child_of adr D p b = NodePtr (adr (p @ [b]))"
    using b by (simp add: child_of_def NULL_TERMINATOR_def)
  note last = node_queries(2) [OF inv b(2)]
  show ?thesis
  proof (cases "bs @ [b] = writeCodePointUnchecked d")
    case True
    then have pb: "p @ [b] = encode (w @ [d])" using w(2) by simp
    have "length (encode (w @ [d])) = Suc (length p)" unfolding pb [symmetric] by simp
    from link_child_eq [OF inv links True d(3,4,1) below this w(3)] w(5,6)
    have "link_child h item b (node_of adr (w @ [d])) = Some (with_links h (adr (encode (w @ [d])))
        [suffix_link adr D (w @ [d]), output_link adr D (w @ [d])])" by simp
    moreover have "boundary (p @ [b])" unfolding pb by (intro boundary_encode nonzero_valid state_valid [OF inv d(1)])
    ultimately show ?thesis
      using b(1) last links_at_insert [OF inv links d(1)] plain_item_ok [OF inv d(1)]
        with_links_inv [OF inv d(1), of "[suffix_link adr D (w @ [d]), output_link adr D (w @ [d])]"]
      unfolding child pb by (auto simp: NULL_TERMINATOR_def simp del: encode_simps)
  next
    case False
    with d(2) have strict: "strict_prefix (bs @ [b]) (writeCodePointUnchecked d)" by (simp add: strict_prefix_def)
    have nb: "\<not> boundary (p @ [b])"
      using not_boundary [of w d "bs @ [b]"] strict d(3) state_valid [OF inv w(1)] nonzero_valid w(2) by auto
    have len: "length bs < 5" using prefix_length_less [OF strict] cp_length [OF d(3)] by simp
    let ?i = "\<lparr>bfs_node = NodePtr (adr (p @ [b])), last_codepoint_node = node_of adr w,
      bytes_since_last_cp = (bytes_since_last_cp item)[length bs := b], bfs_length = length bs + 1\<rparr>"
    have "take (length bs + 1) ((bytes_since_last_cp item)[length bs := b]) = bs @ [b]"
      using w(4,6) len by (simp add: take_Suc_conv_app_nth)
    then have "item_ok adr D ?i (p @ [b])"
      unfolding item_ok_def using b(2) w(1,2,4) d(1) strict by (intro conjI exI [of _ w] exI [of _ "bs @ [b]"]) auto
    moreover have "links_at h adr D (insert (p @ [b]) seen)"
      using links nb state_valid [OF inv] nonzero_valid unfolding links_at_def by (metis boundary_encode insert_iff)
    ultimately show ?thesis
      using b(1) last nb len inv w(3,5) unfolding child
      by (intro exI [of _ h] exI [of _ ?i]) (simp add: NULL_TERMINATOR_def)
  qed
qed

lemma bfs_children_eq:
  assumes "trie_inv h adr D" "links_at h adr D seen" "item_ok adr D item p" "seen_below D (length p) seen"
    "\<forall>b \<in> set bl. child_of adr D p b \<noteq> Null"
  shows "\<exists>h' q'. bfs_children item (map (\<lambda>b. (b, child_of adr D p b)) bl) h q = Some (h', q @ q') \<and>
    trie_inv h' adr D \<and> links_at h' adr D (seen \<union> set (kids p bl)) \<and> list_all2 (item_ok adr D) q' (kids p bl)"
  using assms
proof (induction bl arbitrary: h q seen)
  case Nil
  then show ?case by (simp add: kids_def)
next
  case (Cons b bl)
  show ?case
  proof (cases "b = 0")
    case True
    with Cons.prems(5) have "isLeaf (child_of adr D p b)"
      by (auto simp: child_of_def NULL_TERMINATOR_def leaf_of_def isLeaf_def split: option.splits if_splits)
    moreover have "kids p (b # bl) = kids p bl" using True by (simp add: kids_def)
    ultimately show ?thesis using True Cons by (simp add: NULL_TERMINATOR_def)
  next
    case False
    with Cons.prems(5) have mem: "p @ [b] \<in> tree_nodes D"
      by (auto simp: child_of_def NULL_TERMINATOR_def split: if_splits)
    from bfs_children_step [OF Cons.prems(1-4) False mem, of "map (\<lambda>b. (b, child_of adr D p b)) bl" q]
    obtain h1 i where s: "bfs_children item (map (\<lambda>b. (b, child_of adr D p b)) (b # bl)) h q =
        bfs_children item (map (\<lambda>b. (b, child_of adr D p b)) bl) h1 (q @ [i])"
      "trie_inv h1 adr D" "links_at h1 adr D (insert (p @ [b]) seen)" "item_ok adr D i (p @ [b])"
      unfolding list.map by blast
    have "seen_below D (length p) (insert (p @ [b]) seen)" using Cons.prems(4) by (auto simp: seen_below_def)
    from Cons.IH [OF s(2,3) Cons.prems(3) this, of "q @ [i]"] Cons.prems(5) obtain h' q' where
      r: "bfs_children item (map (\<lambda>b. (b, child_of adr D p b)) bl) h1 (q @ [i]) = Some (h', (q @ [i]) @ q')"
      "trie_inv h' adr D" "links_at h' adr D (insert (p @ [b]) seen \<union> set (kids p bl))"
      "list_all2 (item_ok adr D) q' (kids p bl)"
      by auto
    have "kids p (b # bl) = (p @ [b]) # kids p bl" using False by (simp add: kids_def)
    with r s(1,4) show ?thesis by (intro exI [of _ h'] exI [of _ "i # q'"]) simp
  qed
qed

text \<open>The children of the root: only the suffix link is set, the output link stays null.\<close>

lemma bfs_root_step:
  assumes inv: "trie_inv h adr D" and links: "links_at h adr D seen" and b: "[b] \<in> tree_nodes D" "[b] \<notin> seen"
  shows "\<exists>h' i. bfs_root root ((b, child_of adr D [] b) # cs) h q = bfs_root root cs h' (q @ [i]) \<and>
    trie_inv h' adr D \<and> links_at h' adr D (insert [b] seen) \<and> item_ok adr D i [b]"
proof -
  have nz: "b \<noteq> 0" using node_bytes [OF inv b(1)] by simp
  have child: "child_of adr D [] b = NodePtr (adr [b])" using b nz by (simp add: child_of_def NULL_TERMINATOR_def)
  have noleaf: "\<not> isLeaf (NodePtr (adr [b]))" by (simp add: isLeaf_def)
  obtain d where d: "[d] \<in> stts D" "prefix [b] (writeCodePointUnchecked d)" "d \<le> 0x7FFFFFFF" "d \<noteq> 0"
    using next_byte [OF inv states_nil, of "[]" b] b by auto
  note last = node_queries(2) [OF inv b(1)]
  show ?thesis
  proof (cases "[b] = writeCodePointUnchecked d")
    case True
    then have pb: "[b] = encode [d]" by simp
    have "links (h ! adr (encode [d])) = [Null, Null]"
      using links d(1) b(2) unfolding pb links_at_def by (metis (full_types))
    then have "setSuffixLink h (node_of adr [d]) root =
        Some (with_links h (adr (encode [d])) [suffix_link adr D [d], output_link adr D [d]])"
      using set_links(1) [OF inv d(1), of root] adr_root [OF inv]
      by (simp add: suffix_link_def output_link_def del: encode_simps(2))
    moreover have "boundary [b]" unfolding pb using d(3) by (intro boundary_encode) simp
    ultimately show ?thesis
      using last links_at_insert [OF inv links d(1)] plain_item_ok [OF inv d(1)] noleaf
        with_links_inv [OF inv d(1), of "[suffix_link adr D [d], output_link adr D [d]]"]
      unfolding child pb by (auto simp del: encode_simps)
  next
    case False
    with d(2) have strict: "strict_prefix [b] (writeCodePointUnchecked d)" by (simp add: strict_prefix_def)
    have nb: "\<not> boundary [b]" using not_boundary [of "[]" d "[b]"] strict d(3) by simp
    let ?i = "\<lparr>bfs_node = NodePtr (adr [b]), last_codepoint_node = root,
      bytes_since_last_cp = (replicate 6 0)[0 := b], bfs_length = 1\<rparr>"
    have "take 1 ((replicate 6 0)[0 := b]) = [b]" by (simp add: take_Suc_conv_app_nth)
    then have "item_ok adr D ?i [b]"
      unfolding item_ok_def using b(1) d(1) strict adr_root [OF inv]
      by (intro conjI exI [of _ "[]"] exI [of _ "[b]"]) auto
    moreover have "links_at h adr D (insert [b] seen)"
      using links nb state_valid [OF inv] nonzero_valid unfolding links_at_def by (metis boundary_encode insert_iff)
    ultimately show ?thesis
      using last nb inv noleaf unfolding child by (intro exI [of _ h] exI [of _ ?i]) simp
  qed
qed

lemma bfs_root_eq:
  assumes "trie_inv h adr D" "links_at h adr D seen" "\<forall>b \<in> set bl. [b] \<in> tree_nodes D \<and> [b] \<notin> seen"
    "distinct bl"
  shows "\<exists>h' q'. bfs_root root (map (\<lambda>b. (b, child_of adr D [] b)) bl) h q = Some (h', q @ q') \<and>
    trie_inv h' adr D \<and> links_at h' adr D (seen \<union> set (kids [] bl)) \<and> list_all2 (item_ok adr D) q' (kids [] bl)"
  using assms
proof (induction bl arbitrary: h q seen)
  case Nil
  then show ?case by (simp add: kids_def)
next
  case (Cons b bl)
  from Cons.prems(3) have b: "[b] \<in> tree_nodes D" "[b] \<notin> seen" by auto
  from bfs_root_step [OF Cons.prems(1,2) b, of "map (\<lambda>b. (b, child_of adr D [] b)) bl" q]
  obtain h1 i where s: "bfs_root root (map (\<lambda>b. (b, child_of adr D [] b)) (b # bl)) h q =
      bfs_root root (map (\<lambda>b. (b, child_of adr D [] b)) bl) h1 (q @ [i])"
    "trie_inv h1 adr D" "links_at h1 adr D (insert [b] seen)" "item_ok adr D i [b]"
    unfolding list.map by blast
  have "\<forall>b' \<in> set bl. [b'] \<in> tree_nodes D \<and> [b'] \<notin> insert [b] seen" using Cons.prems(3,4) by auto
  from Cons.IH [OF s(2,3) this, of "q @ [i]"] Cons.prems(4) obtain h' q' where
    r: "bfs_root root (map (\<lambda>b. (b, child_of adr D [] b)) bl) h1 (q @ [i]) = Some (h', (q @ [i]) @ q')"
    "trie_inv h' adr D" "links_at h' adr D (insert [b] seen \<union> set (kids [] bl))"
    "list_all2 (item_ok adr D) q' (kids [] bl)"
    by auto
  have "b \<noteq> 0" using node_bytes [OF Cons.prems(1) b(1)] by simp
  then have "kids [] (b # bl) = [b] # kids [] bl" by (simp add: kids_def)
  with r s(1,4) show ?case by (intro exI [of _ h'] exI [of _ "i # q'"]) simp
qed

text \<open>One step of the search, at the root and elsewhere.\<close>

lemma bfs_step_eq:
  assumes inv: "trie_inv h adr D" and links: "links_at h adr D seen" and item: "item_ok adr D item p"
    and below: "seen_below D (length p) seen" and fresh: "\<forall>b. p @ [b] \<notin> seen"
  shows "\<exists>h' q'. bfs_step h item q = Some (h', q @ q') \<and> trie_inv h' adr D \<and>
    links_at h' adr D (seen \<union> set (kids p (kid_bytes adr D p))) \<and>
    list_all2 (item_ok adr D) q' (kids p (kid_bytes adr D p))"
proof -
  have mem: "p \<in> tree_nodes D" and node: "bfs_node item = NodePtr (adr p)" using item by (simp_all add: item_ok_def)
  note kids = getChildren_eq [OF inv mem]
  show ?thesis
  proof (cases "p = []")
    case True
    have "D [] = None" using inv by (auto simp: trie_inv_def)
    then have "[b] \<in> tree_nodes D" if "child_of adr D [] b \<noteq> Null" for b
      using that leaf_of_encode [of "[]" D] by (auto simp: child_of_def split: if_splits)
    with fresh True have "\<forall>b \<in> set (kid_bytes adr D []). [b] \<in> tree_nodes D \<and> [b] \<notin> seen"
      by (auto simp: kid_bytes_set)
    from bfs_root_eq [OF inv links this kid_bytes_distinct, of q] obtain h' q' where
      "bfs_root root (map (\<lambda>b. (b, child_of adr D [] b)) (kid_bytes adr D [])) h q = Some (h', q @ q')"
      "trie_inv h' adr D" "links_at h' adr D (seen \<union> set (kids [] (kid_bytes adr D [])))"
      "list_all2 (item_ok adr D) q' (kids [] (kid_bytes adr D []))" by blast
    moreover have "bfs_node item = root" using node True adr_root [OF inv] by simp
    moreover have "isLastByteOfCodePoint h root = Some True"
      using node_queries(2) [OF inv tree_nodes_Nil] adr_root [OF inv] by simp
    ultimately show ?thesis using kids node True by (simp add: bfs_step_def)
  next
    case False
    have "\<forall>b \<in> set (kid_bytes adr D p). child_of adr D p b \<noteq> Null" by (simp add: kid_bytes_set)
    from bfs_children_eq [OF inv links item below this, of q] obtain h' q' where
      "bfs_children item (map (\<lambda>b. (b, child_of adr D p b)) (kid_bytes adr D p)) h q = Some (h', q @ q')"
      "trie_inv h' adr D" "links_at h' adr D (seen \<union> set (kids p (kid_bytes adr D p)))"
      "list_all2 (item_ok adr D) q' (kids p (kid_bytes adr D p))" by blast
    moreover have "bfs_node item \<noteq> root" using node False root_iff [OF inv mem] by simp
    ultimately show ?thesis using kids node by (simp add: bfs_step_def)
  qed
qed

subsection \<open>The search\<close>

text \<open>The nodes that are still to be found, below the queue.\<close>

definition below :: "literals \<Rightarrow> bytes list \<Rightarrow> bytes set" where
  "below D ps = {bs \<in> tree_nodes D. \<exists>p \<in> set ps. strict_prefix p bs}"

definition queue_ok :: "literals \<Rightarrow> bytes list \<Rightarrow> bool" where
  "queue_ok D ps \<longleftrightarrow> set ps \<subseteq> tree_nodes D \<and> distinct ps \<and> sorted (map length ps) \<and>
    (\<forall>p \<in> set ps. length p \<le> length (hd ps) + 1) \<and> (\<forall>p \<in> set ps. \<forall>q \<in> set ps. \<not> strict_prefix p q)"

lemma kids_length: "q \<in> set (kids p bl) \<Longrightarrow> length q = length p + 1"
  by (auto simp: kids_def)

lemma below_step:
  assumes inv: "trie_inv h adr D" and ok: "queue_ok D (p # ps)"
  shows "below D (p # ps) = below D (ps @ kids p (kid_bytes adr D p)) \<union> set (kids p (kid_bytes adr D p))"
    and "below D (ps @ kids p (kid_bytes adr D p)) \<inter> set (kids p (kid_bytes adr D p)) = {}"
    and "queue_ok D (ps @ kids p (kid_bytes adr D p))"
proof -
  let ?ks = "kids p (kid_bytes adr D p)"
  note ks = kids_set [OF inv, of p]
  have long: "length p \<le> length q" if "q \<in> set ps" for q using ok that by (auto simp: queue_ok_def)
  have "bs \<in> below D (ps @ ?ks) \<union> set ?ks" if "bs \<in> tree_nodes D" and sp: "strict_prefix p bs" for bs
  proof -
    obtain b z where z: "bs = p @ b # z" using strict_prefixE' [OF sp] by blast
    then have k: "p @ [b] \<in> set ?ks" using that(1) tree_nodes_prefix [of bs D "p @ [b]"] ks by auto
    show ?thesis
    proof (cases "z = []")
      case False
      with z have "strict_prefix (p @ [b]) bs" by (auto simp: strict_prefix_def)
      with k that(1) show ?thesis by (auto simp: below_def)
    qed (use z k in simp)
  qed
  moreover have "strict_prefix p bs" if "k \<in> set ?ks" "prefix k bs" for k bs
    using that ks by (auto simp: strict_prefix_def dest: append_prefixD)
  ultimately show "below D (p # ps) = below D (ps @ ?ks) \<union> set ?ks"
    using ks unfolding below_def by (auto simp: strict_prefix_def)
  have apart: "\<not> strict_prefix q k" if q: "q \<in> set ps" and k: "k \<in> set ?ks" for q k
  proof
    assume s: "strict_prefix q k"
    from k ks obtain b where b: "k = p @ [b]" by auto
    with s have "prefix q p" by (auto simp: strict_prefix_def prefix_snoc)
    with long [OF q] have "q = p" by (auto simp: prefix_def)
    with q ok show False by (simp add: queue_ok_def)
  qed
  moreover have apart2: "\<not> strict_prefix q k" if "q \<in> set ?ks" "k \<in> set ?ks" for q k
    using kids_length [OF that(1)] kids_length [OF that(2)] prefix_length_less [of q k] by auto
  ultimately show "below D (ps @ ?ks) \<inter> set ?ks = {}" by (auto simp: below_def)
  have "distinct ?ks"
    using kid_bytes_distinct [of adr D p] by (simp add: kids_def distinct_map inj_on_def)
  moreover have "set ps \<inter> set ?ks = {}"
    using ok ks by (auto simp: queue_ok_def strict_prefix_def)
  moreover have "\<not> strict_prefix k q" if "k \<in> set ?ks" "q \<in> set ps" for k q
    using kids_length [OF that(1)] prefix_length_less [of k q] ok that(2) by (auto simp: queue_ok_def)
  moreover have "sorted (map length (ps @ ?ks))"
    using ok kids_length [of _ p "kid_bytes adr D p"]
    by (auto simp: queue_ok_def sorted_append) (auto simp: kids_def sorted_map sorted_wrt_iff_nth_less)
  moreover have "\<forall>q \<in> set (ps @ ?ks). length q \<le> length (hd (ps @ ?ks)) + 1"
  proof (cases ps)
    case Nil
    then show ?thesis using kids_length [of _ p "kid_bytes adr D p"] hd_in_set [of ?ks] by fastforce
  next
    case (Cons a as)
    then have "length p \<le> length a" using long by simp
    then show ?thesis using ok kids_length [of _ p "kid_bytes adr D p"] Cons
      by (fastforce simp: queue_ok_def)
  qed
  ultimately show "queue_ok D (ps @ ?ks)"
    using ok ks apart apart2 unfolding queue_ok_def by (simp only: distinct_append set_append) auto
qed

lemma bfs_loop_eq:
  assumes "trie_inv h adr D" "list_all2 (item_ok adr D) q ps" "queue_ok D ps"
    "links_at h adr D (tree_nodes D - below D ps)"
  shows "\<exists>h'. bfs_loop h q = Some h' \<and> trie_inv h' adr D \<and> links_at h' adr D (tree_nodes D)"
  using assms
proof (induction "card (below D ps) + length ps" arbitrary: h q ps rule: less_induct)
  case less
  show ?case
  proof (cases ps)
    case Nil
    with less.prems show ?thesis by (subst bfs_loop.simps) (auto simp: below_def)
  next
    case (Cons p ps')
    let ?seen = "tree_nodes D - below D ps" and ?ks = "kids p (kid_bytes adr D p)"
    from less.prems(2) Cons obtain item q' where q: "q = item # q'" "item_ok adr D item p"
        "list_all2 (item_ok adr D) q' ps'"
      by (auto simp: list_all2_Cons2)
    note ok = less.prems(3) [unfolded Cons]
    have "length p \<le> length r" if "r \<in> set (p # ps')" for r using ok that by (auto simp: queue_ok_def)
    then have "seen_below D (length p) ?seen"
      using state_in_nodes [OF less.prems(1)] Cons
      by (force simp: seen_below_def below_def dest: prefix_length_less)
    moreover have "\<forall>b. p @ [b] \<notin> ?seen" using Cons by (auto simp: below_def strict_prefix_def)
    ultimately obtain h1 q1 where s: "bfs_step h item q' = Some (h1, q' @ q1)" "trie_inv h1 adr D"
        "links_at h1 adr D (?seen \<union> set ?ks)" "list_all2 (item_ok adr D) q1 ?ks"
      using bfs_step_eq [OF less.prems(1,4) q(2), of q'] by blast
    note step = below_step [OF less.prems(1) ok]
    have fin: "finite (tree_nodes D)"
      using less.prems(1) bij_betw_finite unfolding trie_inv_def by blast
    then have "finite (below D (ps' @ ?ks))" by (rule finite_subset [rotated]) (auto simp: below_def)
    then have card: "card (below D ps) = card (below D (ps' @ ?ks)) + card (set ?ks)"
      unfolding Cons step(1) using step(2) by (intro card_Un_disjoint) auto
    moreover have "card (set ?ks) = length ?ks"
      by (rule distinct_card) (use step(3) in \<open>simp add: queue_ok_def\<close>)
    ultimately have "card (below D (ps' @ ?ks)) + length (ps' @ ?ks) < card (below D ps) + length ps"
      using Cons by simp
    moreover have "list_all2 (item_ok adr D) (q' @ q1) (ps' @ ?ks)" using q(3) s(4) by (rule list_all2_appendI)
    moreover have "?seen \<union> set ?ks = tree_nodes D - below D (ps' @ ?ks)"
      using step(1,2) Cons kids_set [OF less.prems(1), of p] by auto
    ultimately obtain h' where "bfs_loop h1 (q' @ q1) = Some h'" "trie_inv h' adr D" "links_at h' adr D (tree_nodes D)"
      using less.hyps [of "ps' @ ?ks" h1 "q' @ q1"] s(2,3) step(3) by auto
    then show ?thesis unfolding q(1) by (subst bfs_loop.simps) (simp add: s(1))
  qed
qed

definition ready :: "('b, 'm) containers \<Rightarrow> 'm automaton \<Rightarrow> (bytes \<Rightarrow> nat) \<Rightarrow> literals \<Rightarrow> occurrences \<Rightarrow> bool" where
  "ready L ac adr D occ \<longleftrightarrow> trie_inv (trie ac) adr D \<and> links_at (trie ac) adr D (tree_nodes D) \<and>
     entries_ok L (literal_map ac) (unique_literal_cnt ac) D occ"

lemma BuildSuffixLink_ready:
  assumes "built L ac occ"
  shows "\<exists>ac' adr D. BuildSuffixLink ac = Some ac' \<and> ready L ac' adr D occ"
proof -
  obtain adr D where ac: "trie_inv (trie ac) adr D" "unlinked (trie ac)"
      "entries_ok L (literal_map ac) (unique_literal_cnt ac) D occ"
    using assms by (auto simp: built_def)
  have "links (trie ac ! adr (encode w)) = [Null, Null]" if w: "w \<in> stts D" for w
  proof -
    note mem = state_in_nodes [OF ac(1) w]
    have "length (links (trie ac ! adr (encode w))) = 2"
      using node_at [OF ac(1) mem] nonzero_valid [OF state_valid [OF ac(1) w]] by (simp add: node_inv_def)
    moreover have "set (links (trie ac ! adr (encode w))) \<subseteq> {Null}"
      using ac(2) adr_less [OF ac(1) mem] by (simp add: unlinked_def)
    ultimately show ?thesis by (auto simp: length_Suc_conv numeral_2_eq_2)
  qed
  moreover have "tree_nodes D - below D [[]] = {[]}" by (auto simp: below_def strict_prefix_def)
  moreover have "encode w = [] \<longleftrightarrow> w = []" if "w \<in> stts D" for w
    using state_valid [OF ac(1) that] nonzero_valid by simp
  ultimately have links: "links_at (trie ac) adr D (tree_nodes D - below D [[]])"
    by (auto simp: links_at_def suffix_link_def output_link_def)
  have "item_ok adr D (plain_item root) []"
    using plain_item_ok [OF ac(1) states_nil] adr_root [OF ac(1)] by simp
  then have "list_all2 (item_ok adr D) [plain_item root] [[]]" by simp
  moreover have "queue_ok D [[]]" by (simp add: queue_ok_def)
  ultimately obtain h' where h': "bfs_loop (trie ac) [plain_item root] = Some h'" "trie_inv h' adr D"
      "links_at h' adr D (tree_nodes D)"
    using bfs_loop_eq [OF ac(1) _ _ links] by blast
  have "BuildSuffixLink ac = Some (ac\<lparr>trie := h'\<rparr>)" by (simp add: BuildSuffixLink_def h'(1))
  moreover have "ready L (ac\<lparr>trie := h'\<rparr>) adr D occ" using h'(2,3) ac(3) by (simp add: ready_def)
  ultimately show ?thesis by blast
qed

end
