(* ===== verification/TrieDestroy.thy ===== *)
theory TrieDestroy
  imports LiteralLaws
begin

text \<open>
  The destructor of the trie: \<open>deleteChildren\<close> reaches every node and every leaf, and hands each to
  \<open>deleteNode\<close> once.
\<close>

text \<open>Nodes and leaves by their paths; a leaf has the path of its literal and the terminator.\<close>

definition spots :: "literals \<Rightarrow> bytes set" where
  "spots D = tree_nodes D \<union> (\<lambda>k. encode k @ [0]) ` dom D"

definition ptr_at :: "(bytes \<Rightarrow> nat) \<Rightarrow> literals \<Rightarrow> bytes \<Rightarrow> ptr" where
  "ptr_at adr D s = (if s \<in> tree_nodes D then NodePtr (adr s) else LeafPtr (the (D (decode (butlast s)))))"

definition spots_from :: "literals \<Rightarrow> bytes \<Rightarrow> nat \<Rightarrow> bytes set" where
  "spots_from D p i = {s \<in> spots D. \<exists>b z. s = p @ b # z \<and> i \<le> unat b}"

lemma node_zero: "trie_inv h adr D \<Longrightarrow> s @ [0] \<notin> tree_nodes D"
proof
  assume inv: "trie_inv h adr D" and "s @ [0] \<in> tree_nodes D"
  then obtain k where "k \<in> dom D" "prefix (s @ [0]) (encode k)" by (auto simp: tree_nodes_def)
  moreover from this inv have "0 \<notin> set (encode k)" by (auto simp: trie_inv_def nonzero_bytes)
  ultimately show False by (auto simp: prefix_def)
qed

lemma spots_prefix: "trie_inv h adr D \<Longrightarrow> s \<in> spots D \<Longrightarrow> s = p @ b # z \<Longrightarrow> p @ [b] \<in> spots D"
proof -
  assume inv: "trie_inv h adr D" and s: "s \<in> spots D" "s = p @ b # z"
  show "p @ [b] \<in> spots D"
  proof (cases "s \<in> tree_nodes D")
    case True
    then have "p @ [b] \<in> tree_nodes D" by (rule tree_nodes_prefix) (simp add: s(2))
    then show ?thesis by (simp add: spots_def)
  next
    case False
    with s(1) obtain k where k: "k \<in> dom D" "s = encode k @ [0]" by (auto simp: spots_def)
    show ?thesis
    proof (cases "z = []")
      case True
      with s k show ?thesis by simp
    next
      case False
      with s(2) k(2) have "prefix (p @ [b]) (encode k)"
        by (cases z rule: rev_cases) (auto simp: prefix_def)
      with k(1) have "p @ [b] \<in> tree_nodes D" by (rule key_nodes)
      then show ?thesis by (simp add: spots_def)
    qed
  qed
qed

lemma child_at:
  assumes inv: "trie_inv h adr D" and p: "p \<in> tree_nodes D"
  shows "child_of adr D p b = (if p @ [b] \<in> spots D then ptr_at adr D (p @ [b]) else Null)"
proof (cases "b = 0")
  case True
  have valid: "valid_cps k" if "k \<in> dom D" for k using inv that by (auto simp: trie_inv_def nonzero_valid)
  show ?thesis
  proof (cases "boundary p")
    case bd: True
    then obtain w where w: "valid_cps w" "p = encode w" by (auto simp: boundary_def)
    have "encode w @ [0] \<in> spots D \<longleftrightarrow> w \<in> dom D"
    proof -
      have "encode w = encode k \<longleftrightarrow> w = k" if "k \<in> dom D" for k by (rule encode_inj [OF w(1) valid [OF that]])
      then show ?thesis using node_zero [OF inv] by (auto simp: spots_def)
    qed
    then show ?thesis using True w node_zero [OF inv, of p]
      by (auto simp: child_of_def NULL_TERMINATOR_def ptr_at_def split: option.splits)
  next
    case False
    moreover have "boundary (encode k)" if "k \<in> dom D" for k by (rule boundary_encode [OF valid [OF that]])
    ultimately have "p @ [0] \<notin> spots D" using node_zero [OF inv] by (auto simp: spots_def)
    with True False show ?thesis by (simp add: child_of_def NULL_TERMINATOR_def leaf_of_def)
  qed
next
  case False
  then have "p @ [b] \<in> spots D \<longleftrightarrow> p @ [b] \<in> tree_nodes D" by (auto simp: spots_def)
  with False show ?thesis by (auto simp: child_of_def NULL_TERMINATOR_def ptr_at_def)
qed

lemma ptr_at_inj:
  assumes inv: "trie_inv h adr D" and D: "inj_on D (dom D)"
  shows "inj_on (ptr_at adr D) (spots D)"
proof (rule inj_onI)
  fix s s' assume s: "s \<in> spots D" "s' \<in> spots D" "ptr_at adr D s = ptr_at adr D s'"
  have valid: "valid_cps k" if "k \<in> dom D" for k using inv that by (auto simp: trie_inv_def nonzero_valid)
  show "s = s'"
  proof (cases "s \<in> tree_nodes D")
    case True
    with s(3) have s': "s' \<in> tree_nodes D" "adr s = adr s'" by (auto simp: ptr_at_def split: if_splits)
    with adr_inj [OF inv True s'(1)] show ?thesis by simp
  next
    case False
    with s(3) have "s' \<notin> tree_nodes D" by (auto simp: ptr_at_def split: if_splits)
    with False s(1,2) obtain k k' where k: "k \<in> dom D" "s = encode k @ [0]" "k' \<in> dom D" "s' = encode k' @ [0]"
      by (auto simp: spots_def)
    with s(3) False \<open>s' \<notin> tree_nodes D\<close> valid have "D k = D k'" by (auto simp: ptr_at_def)
    with k D show ?thesis by (auto dest: inj_onD)
  qed
qed

lemma spots_from_split:
  assumes inv: "trie_inv h adr D" and "i < 256"
  shows "spots_from D p i = (if p @ [word_of_nat i] \<in> spots D
      then insert (p @ [word_of_nat i]) (spots_from D (p @ [word_of_nat i]) 0) else {}) \<union> spots_from D p (i + 1)"
proof -
  have i: "unat (word_of_nat i :: byte) = i" using assms(2) by (simp add: unsigned_of_nat take_bit_nat_eq_self)
  have "i \<le> unat b \<longleftrightarrow> b = word_of_nat i \<or> i + 1 \<le> unat b" for b :: byte
  proof -
    have "word_of_nat (unat b) = b" by simp
    then have "unat b = i \<longleftrightarrow> b = word_of_nat i" using i by auto
    then show ?thesis by auto
  qed
  then show ?thesis
    using spots_prefix [OF inv] unfolding spots_from_def by (auto simp: neq_Nil_conv)
qed

lemma deleteChildren_eq:
  assumes inv: "trie_inv h adr D" and bound: "\<forall>s \<in> spots D. length s \<le> m"
    and p: "p \<in> tree_nodes D" "i \<le> 256"
  shows "\<exists>ss. deleteChildren h (NodePtr (adr p)) i = Some (map (ptr_at adr D) ss) \<and> distinct ss \<and> set ss = spots_from D p i"
  using p
proof (induction "(m - length p) * 257 + (256 - i)" arbitrary: p i rule: less_induct)
  case less
  show ?case
  proof (cases "i = 256")
    case True
    have "unat b < 2 ^ LENGTH(8)" for b :: byte by (rule unsigned_less)
    then have "\<not> 256 \<le> unat b" for b :: byte by (simp add: not_le)
    then have "spots_from D p 256 = {}" by (auto simp: spots_from_def)
    with True deref_node [OF inv less.prems(1)] show ?thesis
      by (subst deleteChildren.simps) (simp add: isLeaf_def)
  next
    case False
    with less.prems(2) have i: "i < 256" by simp
    let ?b = "word_of_nat i :: byte"
    let ?q = "p @ [?b]"
    note split = spots_from_split [OF inv i, of p]
    have child: "children (h ! adr p) ?b = (if ?q \<in> spots D then ptr_at adr D ?q else Null)"
      using node_at [OF inv less.prems(1)] child_at [OF inv less.prems(1)] by (simp add: node_inv_def)
    have "(m - length p) * 257 + (256 - (i + 1)) < (m - length p) * 257 + (256 - i)" using i by simp
    then obtain ys where ys: "deleteChildren h (NodePtr (adr p)) (i + 1) = Some (map (ptr_at adr D) ys)"
        "distinct ys" "set ys = spots_from D p (i + 1)"
      using less.hyps [of p "i + 1"] less.prems(1) i by auto
    note unfold = deleteChildren.simps [of h "NodePtr (adr p)" i]
    show ?thesis
    proof (cases "?q \<in> spots D")
      case no: False
      then have "deleteChildren h (NodePtr (adr p)) i = Some (map (ptr_at adr D) ys)"
        unfolding unfold using deref_node [OF inv less.prems(1)] child i ys(1) by (simp add: isLeaf_def)
      moreover have "set ys = spots_from D p i" using ys(3) split no by simp
      ultimately show ?thesis using ys(2) by blast
    next
      case yes: True
      have nn: "ptr_at adr D ?q \<noteq> Null" by (simp add: ptr_at_def)
      have apart: "?q \<notin> spots_from D p (i + 1)" "spots_from D ?q 0 \<inter> spots_from D p (i + 1) = {}"
          "?q \<notin> spots_from D ?q 0"
      proof -
        have "unat ?b = i" using i by (simp add: unsigned_of_nat take_bit_nat_eq_self)
        then show "?q \<notin> spots_from D p (i + 1)" "spots_from D ?q 0 \<inter> spots_from D p (i + 1) = {}"
          by (auto simp: spots_from_def)
        show "?q \<notin> spots_from D ?q 0" by (auto simp: spots_from_def)
      qed
      obtain xs where xs: "deleteChildren h (ptr_at adr D ?q) 0 = Some (map (ptr_at adr D) xs)"
          "distinct xs" "set xs = spots_from D ?q 0"
      proof (cases "?q \<in> tree_nodes D")
        case True
        have "length ?q \<le> m" using bound yes by blast
        then have "(m - length ?q) * 257 + (256 - 0) < (m - length p) * 257 + (256 - i)" using i by simp
        with less.hyps [of ?q 0] True that show ?thesis by (auto simp: ptr_at_def)
      next
        case False
        have "spots_from D ?q 0 = {}"
        proof -
          have "s \<notin> spots D" if "s = ?q @ b # z" for s b z
          proof
            assume s: "s \<in> spots D"
            have "prefix ?q (encode k)" if "s = encode k @ [0]" for k
            proof (rule prefixI)
              show "encode k = ?q @ butlast (b # z)"
                using that \<open>s = ?q @ b # z\<close> by (metis butlast_append butlast_snoc list.distinct(1))
            qed
            with s False tree_nodes_prefix [of s D ?q] \<open>s = ?q @ b # z\<close> key_nodes [of _ D ?q]
            show False by (auto simp: spots_def)
          qed
          then show ?thesis by (auto simp: spots_from_def)
        qed
        moreover have "deleteChildren h (ptr_at adr D ?q) 0 = Some []"
          using False by (subst deleteChildren.simps) (simp add: ptr_at_def isLeaf_def)
        ultimately show ?thesis using that [of "[]"] by simp
      qed
      have "deleteChildren h (NodePtr (adr p)) i = Some (map (ptr_at adr D) (xs @ [?q] @ ys))"
        unfolding unfold using deref_node [OF inv less.prems(1)] child i yes nn xs(1) ys(1) by (simp add: isLeaf_def)
      moreover have "distinct (xs @ [?q] @ ys)" "set (xs @ [?q] @ ys) = spots_from D p i"
        using xs ys apart split yes by auto
      ultimately show ?thesis by blast
    qed
  qed
qed

lemma destroy_tree_eq:
  assumes inv: "trie_inv h adr D" and D: "inj_on D (dom D)" "finite (dom D)"
  shows "\<exists>ps. destroy_tree h = Some ps \<and> distinct ps \<and> set ps = NodePtr ` {..<length h} \<union> LeafPtr ` ran D"
proof -
  have "finite (spots D)"
    using inv D(2) bij_betw_finite unfolding trie_inv_def spots_def by blast
  then have "\<forall>s \<in> spots D. length s \<le> Max (length ` spots D)" by simp
  from deleteChildren_eq [OF inv this tree_nodes_Nil, of 0] obtain ss where
    ss: "deleteChildren h root 0 = Some (map (ptr_at adr D) ss)" "distinct ss" "set ss = spots_from D [] 0"
    using adr_root [OF inv] by auto
  have set: "insert [] (set ss) = spots D" and out: "[] \<notin> set ss"
  proof -
    have "spots_from D [] 0 = spots D - {[]}"
      unfolding spots_from_def by (auto simp: neq_Nil_conv)
    moreover have "[] \<in> spots D" by (simp add: spots_def)
    ultimately show "insert [] (set ss) = spots D" "[] \<notin> set ss" using ss(3) by auto
  qed
  have root: "ptr_at adr D [] = root" using adr_root [OF inv] by (simp add: ptr_at_def)
  then have "destroy_tree h = Some (map (ptr_at adr D) (ss @ [[]]))" by (simp add: destroy_tree_def ss(1))
  moreover have "distinct (map (ptr_at adr D) (ss @ [[]]))"
  proof -
    have "distinct (ss @ [[]])" using ss(2) out by simp
    moreover have "inj_on (ptr_at adr D) (set (ss @ [[]]))"
      using ptr_at_inj [OF inv D(1)] set by simp
    ultimately show ?thesis by (simp only: distinct_map)
  qed
  moreover have "set (map (ptr_at adr D) (ss @ [[]])) = ptr_at adr D ` spots D" by (simp flip: set)
  moreover have "ptr_at adr D ` spots D = NodePtr ` {..<length h} \<union> LeafPtr ` ran D"
  proof -
    have "ptr_at adr D ` tree_nodes D = NodePtr ` {..<length h}"
    proof -
      have "ptr_at adr D ` tree_nodes D = NodePtr ` adr ` tree_nodes D"
        unfolding image_image by (rule image_cong) (simp_all add: ptr_at_def)
      moreover have "adr ` tree_nodes D = {..<length h}" using inv by (simp add: trie_inv_def bij_betw_def)
      ultimately show ?thesis by simp
    qed
    moreover have "ptr_at adr D (encode k @ [0]) = LeafPtr (the (D k))" if "k \<in> dom D" for k
      using node_zero [OF inv] inv that by (auto simp: ptr_at_def trie_inv_def nonzero_valid)
    then have "ptr_at adr D ` (\<lambda>k. encode k @ [0]) ` dom D = LeafPtr ` ran D"
      by (force simp: ran_def image_iff)
    ultimately show ?thesis by (simp add: spots_def image_Un)
  qed
  ultimately show ?thesis by metis
qed

end
