(* ===== verification/Occurrences.thy ===== *)
theory Occurrences
  imports SuffixLinks TrieDestroy Parser
begin

text \<open>
  The automaton on a text: stepping over a code point moves to the longest suffix of the text read that
  is a prefix of a literal, and the matches emitted there are the literals that end there, longest
  first, each with all its occurrences in patterns.
\<close>

subsection \<open>Stepping over a code point\<close>

lemma visit_bytes_eq:
  assumes inv: "trie_inv h adr D" and w: "w \<in> stts D" and c: "c \<le> 0x7FFFFFFF" "c \<noteq> 0"
    and "as @ bs = writeCodePointUnchecked c" "encode w @ as \<in> tree_nodes D"
  shows "visit_bytes h (length as) bs (NodePtr (adr (encode w @ as))) =
    Some (if w @ [c] \<in> stts D then node_of adr (w @ [c]) else Null)"
  using assms(5,6)
proof (induction bs arbitrary: as)
  case Nil
  moreover have "valid_cps (w @ [c])" using c state_valid [OF inv w] nonzero_valid by simp
  ultimately show ?case using state_node [OF inv, of "w @ [c]"] by simp
next
  case (Cons b bs)
  have nb: "\<not> boundary (encode w @ as)" if "as \<noteq> []"
    using that c(1) nonzero_valid [OF state_valid [OF inv w]]
    by (intro not_boundary [of w c as]) (auto simp flip: Cons.prems(1) simp: strict_prefix_def)
  have b: "b \<noteq> 0" using zero_free [OF c] Cons.prems(1) by (metis in_set_conv_decomp)
  have child: "child_of adr D (encode w @ as) b =
      (if (encode w @ as) @ [b] \<in> tree_nodes D then NodePtr (adr ((encode w @ as) @ [b])) else Null)"
    using b by (simp add: child_of_def NULL_TERMINATOR_def)
  show ?case
  proof (cases "(encode w @ as) @ [b] \<in> tree_nodes D")
    case True
    then have "visit_bytes h (length (as @ [b])) bs (NodePtr (adr (encode w @ as @ [b]))) =
        Some (if w @ [c] \<in> stts D then node_of adr (w @ [c]) else Null)"
      using Cons.prems(1) by (intro Cons.IH) simp_all
    with True nb child node_queries(1) [OF inv Cons.prems(2), of b] node_queries(2) [OF inv Cons.prems(2)]
    show ?thesis by (cases "as = []") simp_all
  next
    case False
    have "w @ [c] \<notin> stts D"
    proof
      assume "w @ [c] \<in> stts D"
      from state_in_nodes [OF inv this] have "((encode w @ as) @ [b]) @ bs \<in> tree_nodes D"
        using Cons.prems(1) by simp
      then have "(encode w @ as) @ [b] \<in> tree_nodes D"
        by (rule tree_nodes_prefix) (rule prefixI [OF refl])
      with False show False ..
    qed
    with False show ?thesis by (simp add: node_queries [OF inv Cons.prems(2)] child)
  qed
qed

lemma VisitCodePoint_eq:
  assumes "trie_inv h adr D" "w \<in> stts D" "c \<le> 0x7FFFFFFF" "c \<noteq> 0"
  shows "VisitCodePoint h (node_of adr w) (writeCodePointUnchecked c) =
    Some (if w @ [c] \<in> stts D then node_of adr (w @ [c]) else Null)"
  using visit_bytes_eq [OF assms, of "[]" "writeCodePointUnchecked c"] state_in_nodes [OF assms(1,2)]
    state_queries(1) [OF assms(1,2)] by (simp add: VisitCodePoint_def)

lemma fall_back_eq:
  assumes inv: "trie_inv h adr D" and links: "links_at h adr D (tree_nodes D)"
    and w: "w \<in> stts D" and c: "c \<le> 0x7FFFFFFF" "c \<noteq> 0"
  shows "\<exists>p. fall_back h (writeCodePointUnchecked c) (node_of adr w)
      (if w @ [c] \<in> stts D then node_of adr (w @ [c]) else Null) =
    Some (p, if longest_in (stts D) (w @ [c]) = [] then Null else node_of adr (longest_in (stts D) (w @ [c]))) \<and>
    (longest_in (stts D) (w @ [c]) = [] \<longrightarrow> p = root)"
  using w
proof (induction "length w" arbitrary: w rule: less_induct)
  case less
  note root = root_iff [OF inv state_in_nodes [OF inv less.prems]]
  have Nil: "encode w = [] \<longleftrightarrow> w = []" using state_valid [OF inv less.prems] nonzero_valid by simp
  show ?case
  proof (cases "w @ [c] \<in> stts D")
    case True
    then show ?thesis by (subst fall_back.simps) simp
  next
    case miss: False
    show ?thesis
    proof (cases "w = []")
      case True
      with miss root show ?thesis by (subst fall_back.simps) simp
    next
      case False
      let ?t = "longest_in (stts D) (tl w)"
      have "length ?t < length w" using longest_length [of "stts D" "tl w"] False by (cases w) auto
      then obtain p where p: "fall_back h (writeCodePointUnchecked c) (node_of adr ?t)
          (if ?t @ [c] \<in> stts D then node_of adr (?t @ [c]) else Null) =
        Some (p, if longest_in (stts D) (?t @ [c]) = [] then Null else node_of adr (longest_in (stts D) (?t @ [c])))"
        "longest_in (stts D) (?t @ [c]) = [] \<longrightarrow> p = root"
        using less.hyps [OF _ longest_state] by blast
      have "getSuffixLink h (node_of adr w) = Some (node_of adr ?t)"
        using links_read(1) [OF inv links less.prems state_in_nodes [OF inv less.prems]] False
        by (simp add: suffix_link_def)
      moreover have "VisitCodePoint h (node_of adr ?t) (writeCodePointUnchecked c) =
          Some (if ?t @ [c] \<in> stts D then node_of adr (?t @ [c]) else Null)"
        by (rule VisitCodePoint_eq [OF inv longest_state c])
      moreover have "longest_in (stts D) (w @ [c]) = longest_in (stts D) (?t @ [c])"
        by (rule longest_miss [OF prefix_closed_states False miss])
      ultimately show ?thesis
        using p miss root Nil False by (subst fall_back.simps) (simp del: encode_simps)
    qed
  qed
qed

subsection \<open>The matches at one position\<close>

definition matches_of :: "occurrences \<Rightarrow> 32 word list \<Rightarrow> nat \<Rightarrow> MatchingOutputType list" where
  "matches_of occ k pos = map (\<lambda>v. \<lparr>pattern_index = FromUint v, literal_len = length (encode k), text_start_pos = pos\<rparr>)
     (sorted_list_of_set (occ k))"

definition found_at :: "occurrences \<Rightarrow> 32 word list \<Rightarrow> MatchingOutputType list" where
  "found_at occ t = concat (map (\<lambda>k. matches_of occ k (length (encode t) - length (encode k)))
     (hits {k. occ k \<noteq> {}} t))"

definition occurrences_ok :: "occurrences \<Rightarrow> bool" where
  "occurrences_ok occ \<longleftrightarrow> (\<forall>k. occ k \<noteq> {} \<longrightarrow> length (encode k) < 2 ^ 32) \<and> (\<forall>k. \<forall>v \<in> occ k. v < 2 ^ 64)"

lemma ready_keys: "ready L ac adr D occ \<Longrightarrow> {k. occ k \<noteq> {}} = dom D"
  by (auto simp: ready_def entries_ok_iff)

lemma end_pos:
  assumes "m \<le> off + n" "off + n < 2 ^ 64"
  shows "(sub64 off m + n) mod 2 ^ 64 = off + n - m"
proof -
  have "(sub64 off m + n) mod 2 ^ 64 = (off + 2 ^ 64 - m + n) mod 2 ^ 64"
    using assms by (simp add: sub64_def mod_simps)
  also have "off + 2 ^ 64 - m + n = (off + n - m) + 2 ^ 64" using assms by simp
  finally have "(sub64 off m + n) mod 2 ^ 64 = (off + n - m) mod 2 ^ 64" by (simp only: mod_add_self2)
  also have "\<dots> = off + n - m" using assms by (intro mod_less) linarith
  finally show ?thesis .
qed

lemma append_terminal_eq:
  assumes ok: "containers_ok L" "ready L ac adr D occ" "occurrences_ok occ" and w: "w \<in> stts D"
    and pos: "length (encode w) \<le> off + n" "off + n < 2 ^ 64"
  shows "append_terminal L ac off (node_of adr w) n out =
    Some (out @ (if w \<in> dom D then matches_of occ w (off + n - length (encode w)) else []))"
proof (cases "D w")
  case None
  then show ?thesis using state_queries(2) [OF _ w] ok(2) by (auto simp: append_terminal_def ready_def)
next
  case (Some t)
  then have "has_entry L (literal_map ac) t w (occ w)" and ne: "occ w \<noteq> {}"
    using ok(2) unfolding ready_def entries_ok_iff by (auto simp: domIff)
  then obtain entry where e: "cmap_find L (literal_map ac) t = Some entry"
      "entry_literal_len entry = u32 (length (encode w))" "set (bitmap_elems L (bitmap entry)) = occ w"
    by (auto simp: has_entry_def)
  have "bitmap_elems L (bitmap entry) = sorted_list_of_set (occ w)"
    using ok(1) e(3) unfolding containers_ok_def by (metis sorted_list_of_set.idem_if_sorted_distinct)
  moreover have "entry_literal_len entry = length (encode w)"
    using e(2) ok(3) ne by (simp add: occurrences_ok_def)
  ultimately show ?thesis
    using state_queries(2,3) [OF _ w] ok(2) Some e(1) end_pos [OF pos]
    by (auto simp: append_terminal_def AppendResult_def ready_def isLeaf_def getLeaf_def matches_of_def Let_def)
qed

lemma output_chain_eq:
  assumes ok: "containers_ok L" "ready L ac adr D occ" "occurrences_ok occ"
    and pos: "\<And>k. k \<in> set (hits (dom D) w) \<Longrightarrow> length (encode k) \<le> off + n" "off + n < 2 ^ 64"
  shows "output_chain L ac off (case hits (dom D) w of [] \<Rightarrow> Null | k # _ \<Rightarrow> node_of adr k) n out =
    Some (out @ concat (map (\<lambda>k. matches_of occ k (off + n - length (encode k))) (hits (dom D) w)))"
  using pos(1)
proof (induction "length (hits (dom D) w)" arbitrary: w out)
  case 0
  then show ?case by (simp add: output_chain.simps)
next
  case (Suc m)
  then obtain k ks where ks: "hits (dom D) w = k # ks" by (cases "hits (dom D) w") auto
  then have k: "ks = hits (dom D) (tl k)" "k \<in> dom D" using hits_next by blast+
  have inv: "trie_inv (trie ac) adr D" "links_at (trie ac) adr D (tree_nodes D)" using ok(2) by (auto simp: ready_def)
  have ks2: "k \<in> stts D" using k(2) by (rule keys_states)
  let ?out = "out @ matches_of occ k (off + n - length (encode k))"
  have "append_terminal L ac off (node_of adr k) n out = Some ?out"
    using append_terminal_eq [OF ok ks2 _ pos(2)] Suc.prems ks k(2) by simp
  moreover have "getOutputLink (trie ac) (node_of adr k) = Some (case hits (dom D) (tl k) of [] \<Rightarrow> Null | k # _ \<Rightarrow> node_of adr k)"
    using links_read(2) [OF inv ks2 state_in_nodes [OF inv(1) ks2]] by (simp add: output_link_def)
  moreover have "output_chain L ac off (case hits (dom D) (tl k) of [] \<Rightarrow> Null | k # _ \<Rightarrow> node_of adr k) n ?out =
      Some (?out @ concat (map (\<lambda>k. matches_of occ k (off + n - length (encode k))) (hits (dom D) (tl k))))"
    using Suc.hyps(2) Suc.prems ks k(1) by (intro Suc.hyps(1)) auto
  ultimately show ?case using ks k(1) by (subst output_chain.simps) simp
qed

lemma FromUint_div: "v < 2 ^ 64 \<Longrightarrow> FromUint v = \<lparr>pi_pattern_id = v div 2 ^ 32, pi_start_pos = v mod 2 ^ 32\<rparr>"
proof -
  assume v: "v < 2 ^ 64"
  have mask: "(0xFFFFFFFF :: nat) = mask 32" by (simp add: mask_eq_exp_minus_1)
  have "v AND 0xFFFFFFFF = v mod 2 ^ 32" unfolding mask take_bit_eq_mask [symmetric] take_bit_eq_mod ..
  moreover have "v div 2 ^ 32 < 2 ^ 32" using v by (simp add: less_mult_imp_div_less)
  ultimately show ?thesis by (simp add: FromUint_def drop_bit_eq_div u32_def)
qed

lemma ToUint_sum: "pi_start_pos x < 2 ^ 32 \<Longrightarrow> ToUint x = pi_pattern_id x * 2 ^ 32 + pi_start_pos x"
proof -
  assume s: "pi_start_pos x < 2 ^ 32"
  have "push_bit 32 (pi_pattern_id x) OR take_bit 32 (pi_start_pos x) = push_bit 32 (pi_pattern_id x) + take_bit 32 (pi_start_pos x)"
    by (rule disjunctive_add [symmetric]) (auto simp: bit_push_bit_iff bit_take_bit_iff)
  moreover have "take_bit 32 (pi_start_pos x) = pi_start_pos x" using s by (simp add: take_bit_nat_eq_self_iff)
  ultimately show ?thesis by (simp add: ToUint_def push_bit_eq_mult)
qed

lemma Uint_roundtrip:
  assumes "pi_pattern_id x < 2 ^ 32" "pi_start_pos x < 2 ^ 32"
  shows "FromUint (ToUint x) = x" "ToUint x < 2 ^ 64"
proof -
  have "ToUint x = pi_pattern_id x * 2 ^ 32 + pi_start_pos x" using assms(2) by (rule ToUint_sum)
  moreover from this show less: "ToUint x < 2 ^ 64" using assms by simp
  ultimately show "FromUint (ToUint x) = x" using assms FromUint_div [OF less] by simp
qed

lemma FromUint_inj: "v < 2 ^ 64 \<Longrightarrow> v' < 2 ^ 64 \<Longrightarrow> FromUint v = FromUint v' \<Longrightarrow> v = v'"
  by (simp add: FromUint_div) (metis div_mult_mod_eq)

lemma no_duplicates_distinct:
  assumes "distinct (map (\<lambda>m. (pattern_index m, text_start_pos m)) ms)"
  shows "no_duplicates ms"
  unfolding no_duplicates_def
proof (intro ballI)
  fix i j assume "j \<in> set [0..<length ms]" "i \<in> set [0..<j]"
  then have ij: "i < j" "j < length ms" by auto
  then have "(pattern_index (ms ! i), text_start_pos (ms ! i)) \<noteq> (pattern_index (ms ! j), text_start_pos (ms ! j))"
    using assms nth_eq_iff_index_eq [OF assms, of i j] by simp
  then show "\<not> same_match (ms ! i) (ms ! j)" by (auto simp: same_match_def)
qed

lemma valid_suffix: "valid_cps t \<Longrightarrow> suffix k t \<Longrightarrow> valid_cps k"
  by (auto simp: suffix_def)

lemma found_at_distinct:
  assumes "occurrences_ok occ" "valid_cps t"
  shows "no_duplicates (found_at occ t)"
proof (rule no_duplicates_distinct)
  let ?K = "{k. occ k \<noteq> {}}"
  have one: "distinct (map (\<lambda>m. (pattern_index m, text_start_pos m)) (matches_of occ k p))" for k p
  proof -
    have "distinct (map FromUint (sorted_list_of_set (occ k)))"
    proof (cases "finite (occ k)")
      case True
      then show ?thesis using assms FromUint_inj by (auto simp: distinct_map inj_on_def occurrences_ok_def)
    qed simp
    then show ?thesis by (auto simp: matches_of_def comp_def distinct_map inj_on_def)
  qed
  have "distinct (map (\<lambda>m. (pattern_index m, text_start_pos m))
      (concat (map (\<lambda>k. matches_of occ k (length (encode t) - length (encode k))) ks)))"
    if "distinct (map length ks)" "\<forall>k \<in> set ks. suffix k t" for ks
    using that
  proof (induction ks)
    case (Cons k ks)
    have "length (encode t) - length (encode k') \<noteq> length (encode t) - length (encode k)" if k': "k' \<in> set ks" for k'
    proof -
      have sfx: "suffix k t" "suffix k' t" and ne: "length k' \<noteq> length k"
        using Cons.prems k' by auto (metis image_eqI)
      have strict: "length (encode x) < length (encode y)" if "suffix x y" "length x \<noteq> length y" "valid_cps y" for x y
        using that enc_len_pos encode_eq_Nil by (fastforce simp: suffix_def)
      have "valid_cps k" "valid_cps k'" using sfx assms(2) valid_suffix by blast+
      moreover have "suffix k k' \<or> suffix k' k" using suffix_same_cases [OF sfx] .
      ultimately have "length (encode k) \<noteq> length (encode k')" using strict [of k k'] strict [of k' k] ne by force
      moreover have "length (encode k) \<le> length (encode t)" "length (encode k') \<le> length (encode t)"
        using encode_suffix_length sfx by blast+
      ultimately show ?thesis by linarith
    qed
    then have "set (map (\<lambda>m. (pattern_index m, text_start_pos m)) (matches_of occ k (length (encode t) - length (encode k)))) \<inter>
        set (map (\<lambda>m. (pattern_index m, text_start_pos m))
          (concat (map (\<lambda>k. matches_of occ k (length (encode t) - length (encode k))) ks))) = {}"
      by (auto simp: matches_of_def) metis
    moreover have "distinct (map (\<lambda>m. (pattern_index m, text_start_pos m))
        (concat (map (\<lambda>k. matches_of occ k (length (encode t) - length (encode k))) ks)))"
      using Cons by simp
    ultimately show ?case using one [of k] by (simp only: list.map concat.simps map_append distinct_append)
  qed simp
  moreover have "distinct (map length (hits ?K t))" by (rule hits_distinct)
  moreover have "\<forall>k \<in> set (hits ?K t). suffix k t" by (simp add: hits_set)
  ultimately show "distinct (map (\<lambda>m. (pattern_index m, text_start_pos m)) (found_at occ t))"
    unfolding found_at_def by blast
qed

subsection \<open>One code point\<close>

lemma ContinueParseText_nonzero:
  assumes ok: "containers_ok L" "ready L ac adr D occ" "occurrences_ok occ"
    and tx: "valid_cps (t1 @ c # t2)" "length (encode (t1 @ c # t2)) < 2 ^ 64"
    and it: "it_text it = encode (t1 @ c # t2) @ post" "it_text_len it = length (encode (t1 @ c # t2))"
      "text_offset it = length (encode t1)" "it_ptr it = node_of adr (longest_in (stts D) t1)"
    and nonzero: "c \<noteq> 0"
  shows "ContinueParseText L ac it = Some (it\<lparr>it_ptr := node_of adr (longest_in (stts D) (t1 @ [c])),
      text_offset := length (encode (t1 @ [c])), codepoint_idx := codepoint_idx it + 1\<rparr>, found_at occ (t1 @ [c]))"
proof -
  note inv = ok(2) [unfolded ready_def, THEN conjunct1] and links = ok(2) [unfolded ready_def, THEN conjunct2, THEN conjunct1]
  let ?s = "longest_in (stts D) t1" and ?l = "longest_in (stts D) (t1 @ [c])" and ?n = "length (writeCodePointUnchecked c)"
  let ?off = "length (encode t1)"
  have c: "c \<le> 0x7FFFFFFF" "c \<noteq> 0" using tx(1) nonzero by auto
  have keys: "{k. occ k \<noteq> {}} = dom D" by (rule ready_keys [OF ok(2)])
  have read: "readCodePoint (it_text it) (text_offset it) (it_text_len it) =
      Some \<lparr>next_pos = ?off + ?n, codePoint = c\<rparr>"
    unfolding it using read_written [OF c(1), of "encode t1" "encode t2 @ post" "length (encode t2)"]
    by (simp add: add.assoc)
  have cp: "take ?n (drop ?off (it_text it)) = writeCodePointUnchecked c" by (simp add: it)
  have l: "?l = longest_in (stts D) (?s @ [c])" by (rule longest_snoc [OF prefix_closed_states])
  obtain p where p: "fall_back (trie ac) (writeCodePointUnchecked c) (it_ptr it)
      (if ?s @ [c] \<in> stts D then node_of adr (?s @ [c]) else Null) =
    Some (p, if ?l = [] then Null else node_of adr ?l)" "?l = [] \<longrightarrow> p = root"
    using fall_back_eq [OF inv links longest_state c, of t1] unfolding l it(4) by blast
  have visit: "VisitCodePoint (trie ac) (it_ptr it) (writeCodePointUnchecked c) =
      Some (if ?s @ [c] \<in> stts D then node_of adr (?s @ [c]) else Null)"
    unfolding it(4) by (rule VisitCodePoint_eq [OF inv longest_state c])
  have lim: "?off + ?n < 2 ^ 64" using tx(2) by simp
  have short: "length (encode v) \<le> ?off + ?n" if "suffix v (t1 @ [c])" for v
    using encode_suffix_length [OF that] by simp
  have sl: "suffix ?l (t1 @ [c])" by (rule longest_suffix)
  let ?m = "\<lambda>k. matches_of occ k (?off + ?n - length (encode k))"
  have chain: "(do { q \<leftarrow> getOutputLink (trie ac) (node_of adr ?l); output_chain L ac ?off q ?n out }) =
      Some (out @ concat (map ?m (hits (dom D) (tl ?l))))" for out
  proof -
    have "length (encode k) \<le> ?off + ?n" if "k \<in> set (hits (dom D) (tl ?l))" for k
    proof -
      have "suffix k (tl ?l)" using that by (simp add: hits_set)
      then show ?thesis by (rule short [OF suffix_order.trans [OF _ suffix_order.trans [OF suffix_tl sl]]])
    qed
    from output_chain_eq [OF ok this lim] show ?thesis
      using links_read(2) [OF inv links longest_state state_in_nodes [OF inv longest_state]]
      by (simp add: output_link_def)
  qed
  have found: "found_at occ (t1 @ [c]) = concat (map ?m (hits (dom D) ?l))"
    unfolding found_at_def keys by (simp add: hits_longest)
  have nodup: "no_duplicates (found_at occ (t1 @ [c]))"
    by (rule found_at_distinct [OF ok(3)]) (use tx(1) in simp)
  have keep: "(target \<noteq> Null \<or> p = GetRoot ac) = True" if "target = (if ?l = [] then Null else node_of adr ?l)" for target
    using that p(2) by (auto simp: GetRoot_def)
  show ?thesis
  proof (cases "?l = []")
    case True
    with p(2) adr_root [OF inv] have "p = node_of adr ?l" by simp
    with True chain [of "[]"] found nodup visit p(1) keep show ?thesis
      unfolding ContinueParseText_def read
      by (auto simp: cp bind_eq_Some_conv it(3) Let_def)
  next
    case False
    have "append_terminal L ac ?off (node_of adr ?l) ?n [] = Some (if ?l \<in> dom D then ?m ?l else [])"
      using append_terminal_eq [OF ok longest_state short [OF sl] lim] by simp
    moreover have "concat (map ?m (hits (dom D) ?l)) =
        (if ?l \<in> dom D then ?m ?l else []) @ concat (map ?m (hits (dom D) (tl ?l)))"
      using hits_self [OF False, of "dom D"] by simp
    ultimately show ?thesis
      using False chain [of "if ?l \<in> dom D then ?m ?l else []"] found nodup visit p(1) keep
      unfolding ContinueParseText_def read
      by (auto simp: cp bind_eq_Some_conv it(3) Let_def)
  qed
qed

lemma ContinueParseText_eq:
  assumes "containers_ok L" "ready L ac adr D occ" "occurrences_ok occ"
    and "nonzero_cps (t1 @ c # t2)" "length (encode (t1 @ c # t2)) < 2 ^ 64"
    and "it_text it = encode (t1 @ c # t2) @ post" "it_text_len it = length (encode (t1 @ c # t2))"
      "text_offset it = length (encode t1)" "it_ptr it = node_of adr (longest_in (stts D) t1)"
  shows "ContinueParseText L ac it = Some (it\<lparr>it_ptr := node_of adr (longest_in (stts D) (t1 @ [c])),
      text_offset := length (encode (t1 @ [c])), codepoint_idx := codepoint_idx it + 1\<rparr>, found_at occ (t1 @ [c]))"
  using assms by (intro ContinueParseText_nonzero) (auto simp: nonzero_cps_def)

subsection \<open>The code point 0\<close>

text \<open>Its byte is the terminator under which a key keeps its tagged leaf.\<close>

lemma write_zero: "writeCodePointUnchecked 0 = [0]"
  by (simp add: writeCodePointUnchecked_def)

lemma VisitCodePoint_zero:
  assumes "trie_inv h adr D" "w \<in> stts D"
  shows "VisitCodePoint h (node_of adr w) [0] = Some (case D w of None \<Rightarrow> Null | Some t \<Rightarrow> LeafPtr t)"
  using state_queries [OF assms] by (simp add: VisitCodePoint_def NULL_TERMINATOR_def split: option.splits)

lemma fall_back_zero:
  assumes inv: "trie_inv h adr D" and links: "links_at h adr D (tree_nodes D)" and w: "w \<in> stts D"
  shows "\<exists>p. fall_back h [0] (node_of adr w) (case D w of None \<Rightarrow> Null | Some t \<Rightarrow> LeafPtr t) =
    Some (case hits (dom D) w of [] \<Rightarrow> (root, Null) | k # _ \<Rightarrow> (p, LeafPtr (the (D k))))"
  using w
proof (induction "length w" arbitrary: w rule: less_induct)
  case less
  note root = root_iff [OF inv state_in_nodes [OF inv less.prems]]
  have Nil: "encode w = [] \<longleftrightarrow> w = []" using state_valid [OF inv less.prems] nonzero_valid by simp
  have ne: "k \<noteq> []" if "k \<in> dom D" for k using inv that by (simp add: trie_inv_def)
  show ?case
  proof (cases "D w")
    case (Some t)
    then have "w \<in> dom D" by auto
    then have "hits (dom D) w = w # hits (dom D) (tl w)" using hits_self [OF ne, of w] by simp
    with Some \<open>w \<in> dom D\<close> show ?thesis by (subst fall_back.simps) auto
  next
    case None
    show ?thesis
    proof (cases "w = []")
      case True
      with None root show ?thesis by (subst fall_back.simps) auto
    next
      case False
      let ?t = "longest_in (stts D) (tl w)"
      have "length ?t < length w" using longest_length [of "stts D" "tl w"] False by (cases w) auto
      note IH = less.hyps [OF this longest_state]
      have h: "hits (dom D) w = hits (dom D) ?t"
        using hits_self [OF False, of "dom D"] None hits_longest [of "dom D" "tl w"] by (auto simp: domIff)
      have "getSuffixLink h (node_of adr w) = Some (node_of adr ?t)"
        using links_read(1) [OF inv links less.prems state_in_nodes [OF inv less.prems]] False by (simp add: suffix_link_def)
      then show ?thesis
        using IH None root Nil False h VisitCodePoint_zero [OF inv longest_state, of "tl w"]
        by (subst fall_back.simps) auto
    qed
  qed
qed

lemma longest_zero:
  assumes "trie_inv h adr D"
  shows "longest_in (stts D) (t @ [0]) = []"
proof -
  have "longest_in (stts D) (t @ [0]) \<noteq> v @ [0]" for v
    using state_valid [OF assms longest_state, of "t @ [0]"] by (metis nonzero_cps_def in_set_conv_decomp)
  then show ?thesis using longest_suffix [of "stts D" "t @ [0]"] by (auto simp: suffix_snoc)
qed

text \<open>
  After a literal the edge is a tagged pointer, which the test for a terminal dereferences; otherwise
  the automaton goes back to its root.
\<close>

lemma ContinueParseText_zero:
  assumes ok: "containers_ok L" "ready L ac adr D occ" "occurrences_ok occ"
    and it: "it_text it = encode (t1 @ 0 # t2) @ post" "it_text_len it = length (encode (t1 @ 0 # t2))"
      "text_offset it = length (encode t1)" "it_ptr it = node_of adr (longest_in (stts D) t1)"
  shows "ContinueParseText L ac it = (if hits (dom D) t1 = []
    then Some (it\<lparr>it_ptr := node_of adr (longest_in (stts D) (t1 @ [0])),
      text_offset := length (encode (t1 @ [0])), codepoint_idx := codepoint_idx it + 1\<rparr>, found_at occ (t1 @ [0]))
    else None)"
proof -
  note inv = ok(2) [unfolded ready_def, THEN conjunct1] and links = ok(2) [unfolded ready_def, THEN conjunct2, THEN conjunct1]
  let ?s = "longest_in (stts D) t1"
  have read: "readCodePoint (it_text it) (text_offset it) (it_text_len it) =
      Some \<lparr>next_pos = length (encode t1) + 1, codePoint = 0\<rparr>"
    using read_written [of 0 "encode t1" "encode t2 @ post" "length (encode t2)"] by (simp add: it write_zero)
  have cp: "take 1 (drop (length (encode t1)) (it_text it)) = [0]" by (simp add: it write_zero)
  note visit = VisitCodePoint_zero [OF inv longest_state, of t1, folded it(4)]
  note hs = hits_longest [of "dom D" t1]
  obtain p where p: "fall_back (trie ac) [0] (it_ptr it) (case D ?s of None \<Rightarrow> Null | Some t \<Rightarrow> LeafPtr t) =
      Some (case hits (dom D) t1 of [] \<Rightarrow> (root, Null) | k # _ \<Rightarrow> (p, LeafPtr (the (D k))))"
    using fall_back_zero [OF inv links longest_state, of t1] unfolding it(4) hs by blast
  show ?thesis
  proof (cases "hits (dom D) t1")
    case Nil
    have "{k. occ k \<noteq> {}} = dom D" by (rule ready_keys [OF ok(2)])
    then have "found_at occ (t1 @ [0]) = []"
      using hits_longest [of "dom D" "t1 @ [0]"] longest_zero [OF inv, of t1] by (simp add: found_at_def)
    moreover have "getOutputLink (trie ac) root = Some Null"
      using links_read(2) [OF inv links, of "[]"] state_in_nodes [OF inv, of "[]"] adr_root [OF inv] by (simp add: output_link_def)
    moreover have "output_chain L ac off Null n out = Some out" for off n out by (subst output_chain.simps) simp
    ultimately show ?thesis
      using p Nil adr_root [OF inv] longest_zero [OF inv, of t1]
      by (simp add: ContinueParseText_def read [unfolded it(3)] it(3) cp [unfolded One_nat_def] visit GetRoot_def no_duplicates_def write_zero)
  next
    case (Cons k ks)
    then show ?thesis
      using p by (simp add: ContinueParseText_def read [unfolded it(3)] it(3) cp [unfolded One_nat_def] visit append_terminal_def isTerminalNode_def deref_def)
  qed
qed

subsection \<open>A whole text\<close>

text \<open>A literal of \<open>K\<close> ends right before a code point 0 of \<open>t2\<close>, the text behind \<open>t1\<close>.\<close>

definition zero_after :: "32 word list set \<Rightarrow> 32 word list \<Rightarrow> 32 word list \<Rightarrow> bool" where
  "zero_after K t1 t2 \<longleftrightarrow> (\<exists>u w. t2 = u @ 0 # w \<and> hits K (t1 @ u) \<noteq> [])"

lemma zero_after_simps [simp]:
  "\<not> zero_after K t1 []"
  "zero_after K t1 (c # t2) \<longleftrightarrow> c = 0 \<and> hits K t1 \<noteq> [] \<or> zero_after K (t1 @ [c]) t2"
  by (auto simp: zero_after_def Cons_eq_append_conv)

fun found_from :: "occurrences \<Rightarrow> 32 word list \<Rightarrow> 32 word list \<Rightarrow> MatchingOutputType list" where
  "found_from occ t1 [] = []"
| "found_from occ t1 (c # t2) = found_at occ (t1 @ [c]) @ found_from occ (t1 @ [c]) t2"

lemma parse_text_loop_eq:
  assumes ok: "containers_ok L" "ready L ac adr D occ" "occurrences_ok occ"
  shows "valid_cps (t1 @ t2) \<Longrightarrow> length (encode (t1 @ t2)) < 2 ^ 64 \<Longrightarrow>
    it_text it = encode (t1 @ t2) @ post \<Longrightarrow> it_text_len it = length (encode (t1 @ t2)) \<Longrightarrow>
    text_offset it = length (encode t1) \<Longrightarrow> it_ptr it = node_of adr (longest_in (stts D) t1) \<Longrightarrow>
    parse_text_loop L ac it result = (if zero_after (dom D) t1 t2 then None
      else Some (it\<lparr>it_ptr := node_of adr (longest_in (stts D) (t1 @ t2)), text_offset := length (encode (t1 @ t2)),
        codepoint_idx := codepoint_idx it + length t2\<rparr>, result @ found_from occ t1 t2))"
proof (induction t2 arbitrary: t1 it result)
  case Nil
  then have "it\<lparr>it_ptr := it_ptr it, text_offset := text_offset it, codepoint_idx := codepoint_idx it\<rparr> = it" by simp
  with Nil show ?case by (subst parse_text_loop.simps) (simp add: CanAdvanceOneCodePoint_def)
next
  case (Cons c t2)
  let ?it = "it\<lparr>it_ptr := node_of adr (longest_in (stts D) (t1 @ [c])),
      text_offset := length (encode (t1 @ [c])), codepoint_idx := codepoint_idx it + 1\<rparr>"
  have "text_offset it < it_text_len it"
    using Cons.prems(1,4,5) writeCodePoint_nonempty [of c] by (cases "writeCodePointUnchecked c") auto
  moreover have "parse_text_loop L ac ?it (result @ found_at occ (t1 @ [c])) = (if zero_after (dom D) (t1 @ [c]) t2 then None
      else Some (?it\<lparr>it_ptr := node_of adr (longest_in (stts D) ((t1 @ [c]) @ t2)), text_offset := length (encode ((t1 @ [c]) @ t2)),
        codepoint_idx := codepoint_idx ?it + length t2\<rparr>, (result @ found_at occ (t1 @ [c])) @ found_from occ (t1 @ [c]) t2))"
    using Cons.prems by (intro Cons.IH) simp_all
  moreover have "ContinueParseText L ac it = (if c = 0 \<and> hits (dom D) t1 \<noteq> [] then None else Some (?it, found_at occ (t1 @ [c])))"
    using ContinueParseText_nonzero [OF ok Cons.prems] ContinueParseText_zero [OF ok, of it t1 t2 post] Cons.prems(3-)
    by (cases "c = 0") (simp_all del: encode_simps)
  ultimately show ?case
    by (subst parse_text_loop.simps) (auto simp: CanAdvanceOneCodePoint_def simp del: encode_simps)
qed

lemma found_at_elem:
  assumes "m \<in> set (found_at occ t)" "\<forall>k. finite (occ k)"
  obtains k v where "v \<in> occ k" "k \<noteq> []" "suffix k t" "m = \<lparr>pattern_index = FromUint v, literal_len = length (encode k),
    text_start_pos = length (encode t) - length (encode k)\<rparr>"
  using assms by (auto simp: found_at_def matches_of_def hits_set)

lemma found_from_set:
  assumes "\<forall>k. finite (occ k)"
  shows "set (found_from occ t1 t2) = {\<lparr>pattern_index = FromUint v, literal_len = length (encode k),
    text_start_pos = length (encode u)\<rparr> | k u w v. v \<in> occ k \<and> k \<noteq> [] \<and> t1 @ t2 = u @ k @ w \<and> length t1 < length (u @ k)}"
    (is "_ = ?R t1 t2")
proof (induction t2 arbitrary: t1)
  case Nil
  then show ?case by auto
next
  case (Cons c t2)
  have "set (found_at occ (t1 @ [c])) = {\<lparr>pattern_index = FromUint v, literal_len = length (encode k),
      text_start_pos = length (encode u)\<rparr> | k u v. v \<in> occ k \<and> k \<noteq> [] \<and> t1 @ [c] = u @ k}" (is "_ = ?S")
  proof (intro equalityI subsetI)
    fix m assume "m \<in> set (found_at occ (t1 @ [c]))"
    then obtain k v where "v \<in> occ k" "k \<noteq> []" "suffix k (t1 @ [c])" "m = \<lparr>pattern_index = FromUint v,
        literal_len = length (encode k), text_start_pos = length (encode (t1 @ [c])) - length (encode k)\<rparr>"
      by (rule found_at_elem [OF _ assms])
    moreover from this obtain u where u: "t1 @ [c] = u @ k" by (auto simp: suffix_def)
    moreover from u have "encode (t1 @ [c]) = encode u @ encode k" by (simp flip: encode_simps(3))
    then have "length (encode (t1 @ [c])) - length (encode k) = length (encode u)" by (simp only: length_append add_diff_cancel_right')
    ultimately show "m \<in> ?S" by auto
  next
    fix m assume "m \<in> ?S"
    then obtain k u v where m: "v \<in> occ k" "k \<noteq> []" "t1 @ [c] = u @ k" "m = \<lparr>pattern_index = FromUint v,
        literal_len = length (encode k), text_start_pos = length (encode u)\<rparr>" by blast
    from m(3) have "encode (t1 @ [c]) = encode u @ encode k" by (simp flip: encode_simps(3))
    then have "length (encode (t1 @ [c])) - length (encode k) = length (encode u)" by (simp only: length_append add_diff_cancel_right')
    moreover have "k \<in> set (hits {k. occ k \<noteq> {}} (t1 @ [c]))" using m by (auto simp: hits_set suffix_def)
    moreover have "m \<in> set (matches_of occ k (length (encode u)))" using m(1,4) assms by (simp add: matches_of_def)
    ultimately show "m \<in> set (found_at occ (t1 @ [c]))" by (auto simp: found_at_def simp del: encode_simps intro!: bexI [of _ k])
  qed
  moreover have "?R t1 (c # t2) = ?S \<union> ?R (t1 @ [c]) t2"
  proof (intro equalityI subsetI)
    fix m assume "m \<in> ?R t1 (c # t2)"
    then obtain k u w v where m: "v \<in> occ k" "k \<noteq> []" "t1 @ c # t2 = u @ k @ w" "length t1 < length (u @ k)"
      "m = \<lparr>pattern_index = FromUint v, literal_len = length (encode k), text_start_pos = length (encode u)\<rparr>" by blast
    show "m \<in> ?S \<union> ?R (t1 @ [c]) t2"
    proof (cases "length (u @ k) = length (t1 @ [c])")
      case True
      with m(3) have "t1 @ [c] = u @ k" using append_eq_append_conv [of "t1 @ [c]" "u @ k" t2 w] by simp
      with m show ?thesis by blast
    next
      case False
      with m(4) have "length (t1 @ [c]) < length (u @ k)" by simp
      with m have "m \<in> ?R (t1 @ [c]) t2" by auto
      then show ?thesis by blast
    qed
  next
    fix m assume "m \<in> ?S \<union> ?R (t1 @ [c]) t2"
    then show "m \<in> ?R t1 (c # t2)"
    proof
      assume "m \<in> ?S"
      then obtain k u v where m: "v \<in> occ k" "k \<noteq> []" "t1 @ [c] = u @ k" "m = \<lparr>pattern_index = FromUint v,
          literal_len = length (encode k), text_start_pos = length (encode u)\<rparr>" by blast
      then have "t1 @ c # t2 = u @ k @ t2" "length t1 < length (u @ k)"
        by (metis append_Cons append_Nil append_assoc) (metis length_append_singleton lessI m(3))
      with m show ?thesis by blast
    next
      assume "m \<in> ?R (t1 @ [c]) t2"
      then show ?thesis by fastforce
    qed
  qed
  ultimately show ?case using Cons.IH [of "t1 @ [c]"] by simp
qed

lemma found_from_sorted:
  assumes "\<forall>k. finite (occ k)" "occurrences_ok occ" "valid_cps (t1 @ t2)"
  shows "sorted (map (\<lambda>m. text_start_pos m + literal_len m) (found_from occ t1 t2)) \<and> distinct (found_from occ t1 t2)
    \<and> (\<forall>m \<in> set (found_from occ t1 t2). length (encode t1) < text_start_pos m + literal_len m)"
  using assms(3)
proof (induction t2 arbitrary: t1)
  case (Cons c t2)
  have e: "text_start_pos m + literal_len m = length (encode (t1 @ [c]))" if "m \<in> set (found_at occ (t1 @ [c]))" for m
    using found_at_elem [OF that assms(1)] encode_suffix_length by (metis MatchingOutputType.select_convs(2,3) le_add_diff_inverse2)
  have pos: "length (encode t1) < length (encode (t1 @ [c]))"
    using writeCodePoint_nonempty [of c] Cons.prems by (cases "writeCodePointUnchecked c") auto
  have "distinct (found_at occ (t1 @ [c]))"
  proof -
    have "no_duplicates (found_at occ (t1 @ [c]))" by (rule found_at_distinct [OF assms(2)]) (use Cons.prems in simp)
    then show ?thesis
      by (auto simp: no_duplicates_def same_match_def distinct_conv_nth) (metis atLeastLessThan_iff linorder_neqE_nat zero_le)
  qed
  moreover have "sorted (map (\<lambda>m. text_start_pos m + literal_len m) (found_at occ (t1 @ [c])))"
    using e by (simp add: sorted_iff_nth_mono)
  moreover have "valid_cps ((t1 @ [c]) @ t2)" using Cons.prems by simp
  note IH = Cons.IH [OF this]
  ultimately show ?case using IH e pos by (force simp: sorted_append)
qed simp

subsection \<open>From the literals to the matches\<close>

fun Insert_all :: "('b, 'm) containers \<Rightarrow> (32 word list \<times> PatternIndexType) list \<Rightarrow> 'm automaton \<Rightarrow> 'm automaton option" where
  "Insert_all L [] ac = Some ac"
| "Insert_all L ((k, x) # ks) ac = do {
     ac \<leftarrow> Insert L (c_string (encode k)) (length (encode k)) x ac;
     Insert_all L ks ac }"

lemma Insert_all_built:
  assumes "containers_ok L" "built L ac occ" "\<forall>(k, x) \<in> set ks. k \<noteq> [] \<and> nonzero_cps k \<and> length (encode k) < 2 ^ 32"
  shows "\<exists>ac'. Insert_all L ks ac = Some ac' \<and>
    built L ac' (\<lambda>k. occ k \<union> {ToUint x | x. (k, x) \<in> set ks})"
  using assms(2,3)
proof (induction ks arbitrary: ac occ)
  case (Cons kx ks)
  obtain k x where kx: "kx = (k, x)" by force
  obtain ac1 where ac1: "Insert L (encode k @ [0]) (length (encode k)) x ac = Some ac1"
      "built L ac1 (occ(k := insert (ToUint x) (occ k)))"
    using Insert_built [OF assms(1) Cons.prems(1), of k "[0]" x] Cons.prems(2) kx by auto
  have "(\<lambda>k'. (occ(k := insert (ToUint x) (occ k))) k' \<union> {ToUint x | x. (k', x) \<in> set ks}) =
      (\<lambda>k'. occ k' \<union> {ToUint x | x. (k', x) \<in> set (kx # ks)})"
    by (auto simp: kx fun_eq_iff)
  with Cons.IH [OF ac1(2)] Cons.prems(2) show ?case by (simp add: kx ac1(1) c_string_def)
qed simp

subsection \<open>All literals inserted\<close>

definition literals_ok :: "(32 word list \<times> PatternIndexType) list \<Rightarrow> bool" where
  "literals_ok ks \<longleftrightarrow> (\<forall>(k, x) \<in> set ks. k \<noteq> [] \<and> nonzero_cps k \<and> length (encode k) < 2 ^ 32 \<and>
     pi_pattern_id x < 2 ^ 32 \<and> pi_start_pos x < 2 ^ 32)"

lemma all_inserted:
  assumes "containers_ok L" "literals_ok ks"
  obtains ac where "Insert_all L ks (AhoCorasick L) = Some ac" "built L ac (\<lambda>k. {ToUint x | x. (k, x) \<in> set ks})"
  using Insert_all_built [OF assms(1) built_empty [OF assms(1)], of ks] assms(2)
  by (fastforce simp: literals_ok_def)

lemma literals_occurrences:
  assumes "literals_ok ks"
  shows "occurrences_ok (\<lambda>k. {ToUint x | x. (k, x) \<in> set ks})" "finite {ToUint x | x. (k, x) \<in> set ks}"
proof -
  show "occurrences_ok (\<lambda>k. {ToUint x | x. (k, x) \<in> set ks})"
    using assms Uint_roundtrip(2) by (fastforce simp: literals_ok_def occurrences_ok_def)
  have "{ToUint x | x. (k, x) \<in> set ks} \<subseteq> (\<lambda>(k, x). ToUint x) ` set ks" by force
  then show "finite {ToUint x | x. (k, x) \<in> set ks}" by (rule finite_subset) simp
qed

subsection \<open>Properties\<close>

text \<open>The automaton that \<open>Insert_all\<close> and \<open>BuildSuffixLink\<close> leave, at the start of a text.\<close>

lemma automaton_at_text:
  assumes "containers_ok L" "literals_ok ks"
  obtains ac ac' adr D it where
    "Insert_all L ks (AhoCorasick L) = Some ac" "BuildSuffixLink ac = Some ac'"
    "ready L ac' adr D (\<lambda>k. {ToUint x | x. (k, x) \<in> set ks})" "dom D = fst ` set ks"
    "make_text_iterator (c_string (encode t)) (length (encode t)) [] ac' = Some it"
    "it_text it = encode t @ [0]" "it_text_len it = length (encode t)" "text_offset it = 0"
    "it_ptr it = node_of adr (longest_in (stts D) [])"
proof -
  obtain ac where ac: "Insert_all L ks (AhoCorasick L) = Some ac" "built L ac (\<lambda>k. {ToUint x | x. (k, x) \<in> set ks})"
    using all_inserted [OF assms] .
  obtain ac' adr D where ac': "BuildSuffixLink ac = Some ac'" "ready L ac' adr D (\<lambda>k. {ToUint x | x. (k, x) \<in> set ks})"
    using BuildSuffixLink_ready [OF ac(2)] by blast
  have "dom D = fst ` set ks" using ready_keys [OF ac'(2)] by force
  moreover have "node_of adr [] = root" using ac'(2) adr_root [of "trie ac'"] by (auto simp: ready_def)
  moreover obtain it where "make_text_iterator (c_string (encode t)) (length (encode t)) [] ac' = Some it"
      "it_text it = encode t @ [0]" "it_text_len it = length (encode t)" "text_offset it = 0" "it_ptr it = root"
    by (simp add: make_text_iterator_def make_iterator_def c_string_def GetRoot_def)
  ultimately show thesis using that ac ac' by simp
qed

lemma zero_after_literal:
  assumes "literals_ok ks"
  shows "zero_after (fst ` set ks) [] t \<longleftrightarrow> (\<exists>k x u w. (k, x) \<in> set ks \<and> t = u @ k @ 0 # w)"
proof -
  have ne: "k \<noteq> []" if "(k, x) \<in> set ks" for k x using assms that by (auto simp: literals_ok_def)
  have "hits (fst ` set ks) u \<noteq> [] \<longleftrightarrow> (\<exists>k x v. (k, x) \<in> set ks \<and> u = v @ k)" for u
  proof
    assume "hits (fst ` set ks) u \<noteq> []"
    then obtain k x where "suffix k u" "(k, x) \<in> set ks" unfolding hits_Nil by force
    then show "\<exists>k x v. (k, x) \<in> set ks \<and> u = v @ k" unfolding suffix_def by blast
  next
    assume "\<exists>k x v. (k, x) \<in> set ks \<and> u = v @ k"
    then obtain k x v where k: "(k, x) \<in> set ks" "u = v @ k" by blast
    then have "suffix k u" "k \<in> fst ` set ks" by (force simp: suffix_def)+
    with ne [OF k(1)] show "hits (fst ` set ks) u \<noteq> []" unfolding hits_Nil by blast
  qed
  then have "zero_after (fst ` set ks) [] t \<longleftrightarrow> (\<exists>u w k x v. t = u @ 0 # w \<and> (k, x) \<in> set ks \<and> u = v @ k)"
    by (simp add: zero_after_def)
  then show ?thesis by (metis append_assoc)
qed

text \<open>Property C4: the automaton finds exactly the occurrences of its literals.  Insert any list of
  literals, nonempty, without the code point 0 and shorter than \<open>2^32\<close> bytes, with their places in
  patterns, build the links and parse any text shorter than \<open>2^64\<close> bytes.  If somewhere in the text a code
  point 0 stands right behind an occurrence of a literal, parsing faults; otherwise, and only then, it
  returns, for every literal and every place it was inserted with, one match per occurrence in the text with
  the byte offset at which it starts, no match twice, in the order in which the occurrences end.\<close>

theorem automaton_finds_occurrences:
  assumes "containers_ok L" "literals_ok ks" "valid_cps t" "length (encode t) < 2 ^ 64"
  shows "case do {
       ac \<leftarrow> Insert_all L ks (AhoCorasick L);
       ac \<leftarrow> BuildSuffixLink ac;
       it \<leftarrow> make_text_iterator (c_string (encode t)) (length (encode t)) [] ac;
       (it, ms) \<leftarrow> ParseText L ac it;
       Some ms } of
     None \<Rightarrow> \<exists>k x u w. (k, x) \<in> set ks \<and> t = u @ k @ 0 # w
   | Some ms \<Rightarrow> \<not> (\<exists>k x u w. (k, x) \<in> set ks \<and> t = u @ k @ 0 # w) \<and>
       set ms = {\<lparr>pattern_index = x, literal_len = length (encode k), text_start_pos = length (encode u)\<rparr>
         | k x u w. (k, x) \<in> set ks \<and> t = u @ k @ w} \<and>
       distinct ms \<and> sorted (map (\<lambda>m. text_start_pos m + literal_len m) ms)"
proof -
  let ?occ = "\<lambda>k. {ToUint x | x. (k, x) \<in> set ks}"
  obtain ac ac' adr D it where a: "Insert_all L ks (AhoCorasick L) = Some ac" "BuildSuffixLink ac = Some ac'"
      "ready L ac' adr D ?occ" "dom D = fst ` set ks"
      "make_text_iterator (c_string (encode t)) (length (encode t)) [] ac' = Some it"
      "it_text it = encode t @ [0]" "it_text_len it = length (encode t)" "text_offset it = 0"
      "it_ptr it = node_of adr (longest_in (stts D) [])"
    by (rule automaton_at_text [OF assms(1,2)])
  note occ = literals_occurrences [OF assms(2)]
  have parse: "ParseText L ac' it = (if \<exists>k x u w. (k, x) \<in> set ks \<and> t = u @ k @ 0 # w then None
      else Some (it\<lparr>it_ptr := node_of adr (longest_in (stts D) t), text_offset := length (encode t),
        codepoint_idx := codepoint_idx it + length t\<rparr>, found_from ?occ [] t))"
    using parse_text_loop_eq [OF assms(1) a(3) occ(1), of "[]" t it "[0]" "[]"] assms(3,4) a
    unfolding zero_after_literal [OF assms(2), symmetric] by (simp add: ParseText_def)
  have idx: "FromUint (ToUint x) = x" if "(k, x) \<in> set ks" for k x
    using assms(2) that by (intro Uint_roundtrip) (auto simp: literals_ok_def)
  have ne: "k \<noteq> []" if "(k, x) \<in> set ks" for k x using assms(2) that by (auto simp: literals_ok_def)
  have "set (found_from ?occ [] t) = {\<lparr>pattern_index = x, literal_len = length (encode k), text_start_pos = length (encode u)\<rparr>
       | k x u w. (k, x) \<in> set ks \<and> t = u @ k @ w}"
    (is "_ = ?R")
  proof -
    have "set (found_from ?occ [] t) = {\<lparr>pattern_index = FromUint v, literal_len = length (encode k),
        text_start_pos = length (encode u)\<rparr> | k u w v. v \<in> ?occ k \<and> k \<noteq> [] \<and> [] @ t = u @ k @ w \<and> length ([] :: 32 word list) < length (u @ k)}"
      (is "_ = ?M") by (rule found_from_set) (use occ(2) in simp)
    also have "?M = ?R"
    proof (intro equalityI subsetI)
      fix m assume "m \<in> ?R"
      then obtain k x u w where m: "(k, x) \<in> set ks" "t = u @ k @ w"
        "m = \<lparr>pattern_index = x, literal_len = length (encode k), text_start_pos = length (encode u)\<rparr>" by blast
      with idx [OF m(1)] ne [OF m(1)] show "m \<in> ?M"
        by (intro CollectI exI [of _ k] exI [of _ u] exI [of _ w] exI [of _ "ToUint x"] conjI) auto
    next
      fix m assume "m \<in> ?M"
      then obtain k u w x where m: "(k, x) \<in> set ks" "t = u @ k @ w"
        "m = \<lparr>pattern_index = FromUint (ToUint x), literal_len = length (encode k), text_start_pos = length (encode u)\<rparr>" by auto
      with idx [OF m(1)] show "m \<in> ?R" by auto
    qed
    finally show ?thesis .
  qed
  moreover have "sorted (map (\<lambda>m. text_start_pos m + literal_len m) (found_from ?occ [] t))"
      "distinct (found_from ?occ [] t)"
    using found_from_sorted [of ?occ "[]" t] occ assms(3) by simp_all
  ultimately show ?thesis by (simp add: a(1,2,5) parse)
qed

theorem automaton_finds_occurrences_witness:
  "\<exists>ms. do {
       ac \<leftarrow> Insert_all list_containers [([0x61, 0x62], \<lparr>pi_pattern_id = 0, pi_start_pos = 1\<rparr>),
         ([0x62], \<lparr>pi_pattern_id = 1, pi_start_pos = 0\<rparr>)] (AhoCorasick list_containers);
       ac \<leftarrow> BuildSuffixLink ac;
       it \<leftarrow> make_text_iterator (c_string (encode [0, 0x61, 0x62])) (length (encode [0, 0x61, 0x62])) [] ac;
       (it, ms) \<leftarrow> ParseText list_containers ac it;
       Some ms } = Some ms \<and> distinct ms"
proof -
  have "\<not> (\<exists>k x u w. (k, x) \<in> set [([0x61, 0x62 :: 32 word], \<lparr>pi_pattern_id = 0, pi_start_pos = 1\<rparr>),
         ([0x62], \<lparr>pi_pattern_id = 1, pi_start_pos = 0\<rparr>)] \<and> [0, 0x61, 0x62] = u @ k @ 0 # w)"
    by (auto simp: Cons_eq_append_conv split: if_splits)
  then show ?thesis
    using automaton_finds_occurrences [OF list_containers_ok, of "[([0x61, 0x62], \<lparr>pi_pattern_id = 0, pi_start_pos = 1\<rparr>),
         ([0x62], \<lparr>pi_pattern_id = 1, pi_start_pos = 0\<rparr>)]" "[0, 0x61, 0x62]"]
    by (auto simp: literals_ok_def writeCodePointUnchecked_def simp del: Insert_all.simps follow_bytes.simps split: option.splits)
qed

text \<open>Property C39: a byte 0 of the text reaches the trie's bookkeeping.  When the automaton of any
  nonempty literals without the code point 0 has read a text, itself without the code point 0, that ends
  with one of them, the step for a byte 0 ends at a tagged leaf, not at a node, and the test for a terminal
  node that follows dereferences it.\<close>

theorem zero_byte_reaches_leaf:
  assumes "containers_ok L" "literals_ok ks" "nonzero_cps t" "length (encode t) < 2 ^ 64" "(k, x) \<in> set ks" "suffix k t"
  shows "\<exists>ac it p n. do {
       ac \<leftarrow> Insert_all L ks (AhoCorasick L);
       ac \<leftarrow> BuildSuffixLink ac;
       it \<leftarrow> make_text_iterator (c_string (encode t)) (length (encode t)) [] ac;
       (it, ms) \<leftarrow> ParseText L ac it;
       Some (ac, it) } = Some (ac, it) \<and>
     do {
       target \<leftarrow> VisitCodePoint (trie ac) (it_ptr it) [0];
       fall_back (trie ac) [0] (it_ptr it) target } = Some (p, LeafPtr n) \<and>
     isTerminalNode (trie ac) (LeafPtr n) = None"
proof -
  let ?occ = "\<lambda>k. {ToUint x | x. (k, x) \<in> set ks}"
  obtain ac ac' adr D it where a: "Insert_all L ks (AhoCorasick L) = Some ac" "BuildSuffixLink ac = Some ac'"
      "ready L ac' adr D ?occ" "dom D = fst ` set ks"
      "make_text_iterator (c_string (encode t)) (length (encode t)) [] ac' = Some it"
      "it_text it = encode t @ [0]" "it_text_len it = length (encode t)" "text_offset it = 0"
      "it_ptr it = node_of adr (longest_in (stts D) [])"
    by (rule automaton_at_text [OF assms(1,2)])
  have inv: "trie_inv (trie ac') adr D" "links_at (trie ac') adr D (tree_nodes D)" using a(3) by (auto simp: ready_def)
  have "\<not> zero_after (dom D) [] t" using assms(3) by (auto simp: zero_after_def nonzero_cps_def)
  then obtain it' where parse: "ParseText L ac' it = Some (it', found_from ?occ [] t)"
      "it_ptr it' = node_of adr (longest_in (stts D) t)"
    using parse_text_loop_eq [OF assms(1) a(3) literals_occurrences(1) [OF assms(2)], of "[]" t it "[0]" "[]"]
      assms(3,4) nonzero_valid a by (simp add: ParseText_def)
  have "k \<in> set (hits (dom D) t)" using assms(2,5,6) a(4) by (force simp: hits_set literals_ok_def)
  then obtain k' ks' where hs: "hits (dom D) (longest_in (stts D) t) = k' # ks'"
    unfolding hits_longest by (cases "hits (dom D) t") auto
  from fall_back_zero [OF inv longest_state, of t] VisitCodePoint_zero [OF inv(1) longest_state, of t]
  show ?thesis using a(1,2,5) parse by (force simp: hs isTerminalNode_def deref_def)
qed

theorem zero_byte_reaches_leaf_witness:
  "\<exists>ac it p n. do {
       ac \<leftarrow> Insert_all list_containers [([0x61], \<lparr>pi_pattern_id = 0, pi_start_pos = 0\<rparr>)] (AhoCorasick list_containers);
       ac \<leftarrow> BuildSuffixLink ac;
       it \<leftarrow> make_text_iterator (c_string (encode [0x62, 0x61])) (length (encode [0x62, 0x61])) [] ac;
       (it, ms) \<leftarrow> ParseText list_containers ac it;
       Some (ac, it) } = Some (ac, it) \<and>
     do { target \<leftarrow> VisitCodePoint (trie ac) (it_ptr it) [0]; fall_back (trie ac) [0] (it_ptr it) target } = Some (p, LeafPtr n) \<and>
     isTerminalNode (trie ac) (LeafPtr n) = None"
  by (rule zero_byte_reaches_leaf [OF list_containers_ok, where k = "[0x61]" and x = "\<lparr>pi_pattern_id = 0, pi_start_pos = 0\<rparr>"])
    (simp_all add: literals_ok_def writeCodePointUnchecked_def suffix_def)

text \<open>Property C5: the links are those of the automaton of Aho and Corasick.  After \<open>BuildSuffixLink\<close> the
  walk along every prefix \<open>w\<close> of a literal ends in a node whose suffix link is the node of the longest
  proper suffix of \<open>w\<close> that is a prefix of a literal, null only at the root, and whose output link is the
  node of the longest proper suffix that is a literal, null if there is none.\<close>

theorem BuildSuffixLink_links:
  assumes "containers_ok L" "literals_ok ks" "w \<in> states (fst ` set ks)"
  shows "\<exists>ac node p q. do { ac \<leftarrow> Insert_all L ks (AhoCorasick L); BuildSuffixLink ac } = Some ac \<and>
     follow_bytes (trie ac) (encode w) root = Some (Val node) \<and>
     getSuffixLink (trie ac) node = Some p \<and> getOutputLink (trie ac) node = Some q \<and>
     (if w = [] then p = Null
      else follow_bytes (trie ac) (encode (longest_in (states (fst ` set ks)) (tl w))) root = Some (Val p)) \<and>
     (case hits (fst ` set ks) (tl w) of [] \<Rightarrow> q = Null
      | k # _ \<Rightarrow> follow_bytes (trie ac) (encode k) root = Some (Val q))"
proof -
  let ?occ = "\<lambda>k. {ToUint x | x. (k, x) \<in> set ks}"
  obtain ac0 where ac0: "Insert_all L ks (AhoCorasick L) = Some ac0" "built L ac0 ?occ"
    using all_inserted [OF assms(1,2)] .
  obtain ac adr D where ac: "BuildSuffixLink ac0 = Some ac" "ready L ac adr D ?occ"
    using BuildSuffixLink_ready [OF ac0(2)] by blast
  have K: "dom D = fst ` set ks" using ready_keys [OF ac(2)] by force
  have inv: "trie_inv (trie ac) adr D" "links_at (trie ac) adr D (tree_nodes D)" using ac(2) by (auto simp: ready_def)
  have walk: "follow_bytes (trie ac) (encode v) root = Some (Val (node_of adr v))" if "v \<in> stts D" for v
    using follow_bytes_eq [OF inv(1) tree_nodes_Nil, of "encode v"] state_in_nodes [OF inv(1) that]
      nonzero_bytes [OF state_valid [OF inv(1) that]] adr_root [OF inv(1)] by simp
  have w: "w \<in> stts D" using assms(3) K by simp
  have key: "k \<in> stts D" if "hits (dom D) (tl w) = k # more" for k more
    by (rule keys_states, rule hits_next [OF that, THEN conjunct2, THEN conjunct1])
  have "case hits (dom D) (tl w) of [] \<Rightarrow> output_link adr D w = Null
      | k # _ \<Rightarrow> follow_bytes (trie ac) (encode k) root = Some (Val (output_link adr D w))"
    using key walk by (simp add: output_link_def split: list.split)
  moreover have "if w = [] then suffix_link adr D w = Null
      else follow_bytes (trie ac) (encode (longest_in (stts D) (tl w))) root = Some (Val (suffix_link adr D w))"
    using walk [OF longest_state] by (simp add: suffix_link_def)
  ultimately show ?thesis
    using ac0(1) ac(1) walk [OF w] links_read [OF inv w state_in_nodes [OF inv(1) w]] unfolding K
    by (intro exI [of _ ac] exI [of _ "node_of adr w"] exI [of _ "suffix_link adr D w"] exI [of _ "output_link adr D w"])
      simp
qed

theorem BuildSuffixLink_links_witness:
  "\<exists>ac node p. do { ac \<leftarrow> Insert_all list_containers [([0x61, 0x62], \<lparr>pi_pattern_id = 0, pi_start_pos = 1\<rparr>),
         ([0x62, 0x63], \<lparr>pi_pattern_id = 1, pi_start_pos = 0\<rparr>)] (AhoCorasick list_containers);
       BuildSuffixLink ac } = Some ac \<and>
     follow_bytes (trie ac) (encode [0x61, 0x62]) root = Some (Val node) \<and>
     getSuffixLink (trie ac) node = Some p \<and> follow_bytes (trie ac) (encode [0x62]) root = Some (Val p)"
  using BuildSuffixLink_links [OF list_containers_ok, of "[([0x61, 0x62], \<lparr>pi_pattern_id = 0, pi_start_pos = 1\<rparr>),
         ([0x62, 0x63], \<lparr>pi_pattern_id = 1, pi_start_pos = 0\<rparr>)]" "[0x61, 0x62]"]
  by (auto simp: literals_ok_def writeCodePointUnchecked_def states_def simp del: Insert_all.simps follow_bytes.simps)

text \<open>Property C6: insertion refines a dictionary.  After any sequence of insertions the trie has a node
  for exactly the byte strings that begin an encoded literal, the number of literals is the number of
  distinct ones, and the walk along a literal followed by the terminator reaches a leaf whose entry in the
  literal map holds the literal's length and exactly the places it was inserted with.\<close>

theorem Insert_refines_dictionary:
  assumes "containers_ok L" "literals_ok ks"
  shows "\<exists>ac. Insert_all L ks (AhoCorasick L) = Some ac \<and>
     NumUniqueLiterals ac = card (fst ` set ks) \<and>
     (\<forall>bs. 0 \<notin> set bs \<longrightarrow> follow_bytes (trie ac) bs root \<noteq> None \<and>
        (follow_bytes (trie ac) bs root \<noteq> Some nullopt) = (bs = [] \<or> (\<exists>k \<in> fst ` set ks. prefix bs (encode k)))) \<and>
     (\<forall>k \<in> fst ` set ks. \<exists>node t entry. follow_bytes (trie ac) (encode k) root = Some (Val node) \<and>
        getChild (trie ac) node NULL_TERMINATOR = Some (LeafPtr t) \<and> t < NumUniqueLiterals ac \<and>
        cmap_find L (literal_map ac) t = Some entry \<and> entry_literal_len entry = length (encode k) \<and>
        bitmap_elems L (bitmap entry) = sorted_list_of_set (ToUint ` {x. (k, x) \<in> set ks}))"
proof -
  let ?occ = "\<lambda>k. {ToUint x | x. (k, x) \<in> set ks}"
  obtain ac where ac: "Insert_all L ks (AhoCorasick L) = Some ac" "built L ac ?occ"
    using all_inserted [OF assms] .
  obtain adr D where inv: "trie_inv (trie ac) adr D" and
      ent: "entries_ok L (literal_map ac) (unique_literal_cnt ac) D ?occ"
    using ac(2) by (auto simp: built_def)
  have occ: "?occ k = {} \<longleftrightarrow> D k = None" for k using ent unfolding entries_ok_iff by blast
  have K: "dom D = fst ` set ks"
  proof
    show "dom D \<subseteq> fst ` set ks" using occ by force
    show "fst ` set ks \<subseteq> dom D" using occ by force
  qed
  have walk: "follow_bytes (trie ac) bs root = Some (if bs \<in> tree_nodes D then Val (NodePtr (adr bs)) else nullopt)"
    if "0 \<notin> set bs" for bs
    using follow_bytes_eq [OF inv tree_nodes_Nil that] adr_root [OF inv] by simp
  have "\<exists>node t entry. follow_bytes (trie ac) (encode k) root = Some (Val node) \<and>
        getChild (trie ac) node NULL_TERMINATOR = Some (LeafPtr t) \<and> t < NumUniqueLiterals ac \<and>
        cmap_find L (literal_map ac) t = Some entry \<and> entry_literal_len entry = length (encode k) \<and>
        bitmap_elems L (bitmap entry) = sorted_list_of_set (ToUint ` {x. (k, x) \<in> set ks})"
    if "k \<in> fst ` set ks" for k
  proof -
    from that have kd: "k \<in> dom D" unfolding K .
    then have k: "k \<in> stts D" by (rule keys_states)
    obtain t where t: "D k = Some t" using kd by blast
    then have lt: "t < unique_literal_cnt ac" and he: "has_entry L (literal_map ac) t k (?occ k)"
      using ent unfolding entries_ok_iff by blast+
    from he obtain entry where e: "cmap_find L (literal_map ac) t = Some entry"
        "entry_literal_len entry = u32 (length (encode k))" "set (bitmap_elems L (bitmap entry)) = ?occ k"
      unfolding has_entry_def by blast
    have "length (encode k) < 2 ^ 32" using assms(2) that by (auto simp: literals_ok_def)
    moreover have "bitmap_elems L (bitmap entry) = sorted_list_of_set (?occ k)"
      using assms(1) e(3) unfolding containers_ok_def by (metis sorted_list_of_set.idem_if_sorted_distinct)
    moreover have "?occ k = ToUint ` {x. (k, x) \<in> set ks}" by blast
    ultimately show ?thesis
      using walk [OF nonzero_bytes [OF state_valid [OF inv k]]] state_in_nodes [OF inv k]
        state_queries(3) [OF inv k] t lt e(1,2) by (simp add: NumUniqueLiterals_def)
  qed
  moreover have "NumUniqueLiterals ac = card (fst ` set ks)"
    using ent K by (simp add: entries_ok_iff NumUniqueLiterals_def)
  moreover have "(follow_bytes (trie ac) bs root \<noteq> Some nullopt) = (bs = [] \<or> (\<exists>k \<in> fst ` set ks. prefix bs (encode k)))"
    if "0 \<notin> set bs" for bs
    using walk [OF that] K by (simp add: tree_nodes_def)
  ultimately show ?thesis using ac(1) walk by (intro exI [of _ ac]) simp
qed

theorem Insert_refines_dictionary_witness:
  "\<exists>ac. Insert_all list_containers [([0x61], \<lparr>pi_pattern_id = 0, pi_start_pos = 0\<rparr>),
       ([0x61], \<lparr>pi_pattern_id = 1, pi_start_pos = 2\<rparr>)] (AhoCorasick list_containers) = Some ac \<and>
     NumUniqueLiterals ac = 1 \<and> follow_bytes (trie ac) [0x62] root = Some nullopt"
proof -
  let ?ks = "[([0x61 :: 32 word], \<lparr>pi_pattern_id = 0, pi_start_pos = 0\<rparr>), ([0x61], \<lparr>pi_pattern_id = 1, pi_start_pos = 2\<rparr>)]"
  have ok: "literals_ok ?ks" by (simp add: literals_ok_def writeCodePointUnchecked_def)
  from Insert_refines_dictionary [OF list_containers_ok ok] obtain ac where
    ac: "Insert_all list_containers ?ks (AhoCorasick list_containers) = Some ac" "NumUniqueLiterals ac = card (fst ` set ?ks)"
      "\<And>bs. 0 \<notin> set bs \<Longrightarrow> (follow_bytes (trie ac) bs root \<noteq> Some nullopt) =
         (bs = [] \<or> (\<exists>k \<in> fst ` set ?ks. prefix bs (encode k)))"
    by blast
  have "follow_bytes (trie ac) [0x62] root = Some nullopt"
    using ac(3) [of "[0x62]"] by (simp add: writeCodePointUnchecked_def del: follow_bytes.simps)
  with ac(1,2) show ?thesis by (intro exI [of _ ac]) simp
qed

text \<open>Property C11: destroying the trie frees every node and every leaf exactly once: the sequence of
  pointers handed to \<open>deleteNode\<close> has no repetition and consists of all allocated nodes and of one leaf
  per distinct literal.\<close>

theorem destroy_frees_once:
  assumes "containers_ok L" "literals_ok ks"
  shows "\<exists>ac ps. Insert_all L ks (AhoCorasick L) = Some ac \<and> destroy_tree (trie ac) = Some ps \<and> distinct ps \<and>
    set ps = NodePtr ` {..<length (trie ac)} \<union> LeafPtr ` {..<card (fst ` set ks)}"
proof -
  let ?occ = "\<lambda>k. {ToUint x | x. (k, x) \<in> set ks}"
  obtain ac where ac: "Insert_all L ks (AhoCorasick L) = Some ac" "built L ac ?occ"
    using all_inserted [OF assms] .
  obtain adr D where inv: "trie_inv (trie ac) adr D" and
      ent: "entries_ok L (literal_map ac) (unique_literal_cnt ac) D ?occ"
    using ac(2) by (auto simp: built_def)
  have D: "inj_on D (dom D)" "finite (dom D)" "\<And>k. ?occ k = {} \<longleftrightarrow> D k = None"
      "\<And>k t. D k = Some t \<Longrightarrow> t < card (dom D)"
    using ent unfolding entries_ok_iff by auto
  have K: "dom D = fst ` set ks" using D(3) by (force simp: domIff)
  have "Some ` ran D = D ` dom D" by (force simp: ran_def dom_def)
  then have "card (ran D) = card (dom D)" using D(1) by (metis card_image inj_Some inj_on_subset subset_UNIV)
  moreover have "ran D \<subseteq> {..<card (dom D)}" using D(4) by (auto simp: ran_def)
  ultimately have "ran D = {..<card (fst ` set ks)}" unfolding K [symmetric] by (intro card_subset_eq) simp_all
  with destroy_tree_eq [OF inv D(1,2)] ac(1) show ?thesis by auto
qed

theorem destroy_frees_once_witness:
  "\<exists>ac ps. Insert_all list_containers [([0x61], \<lparr>pi_pattern_id = 0, pi_start_pos = 0\<rparr>),
       ([0x61, 0x62], \<lparr>pi_pattern_id = 1, pi_start_pos = 2\<rparr>)] (AhoCorasick list_containers) = Some ac \<and>
     destroy_tree (trie ac) = Some ps \<and> distinct ps"
  using destroy_frees_once [OF list_containers_ok, of "[([0x61], \<lparr>pi_pattern_id = 0, pi_start_pos = 0\<rparr>),
       ([0x61, 0x62], \<lparr>pi_pattern_id = 1, pi_start_pos = 2\<rparr>)]"]
  by (auto simp: literals_ok_def writeCodePointUnchecked_def simp del: Insert_all.simps follow_bytes.simps)

text \<open>Packing a pattern number and an offset of 32 bits each into one 64-bit number and
  unpacking it gives them back.\<close>

theorem PatternIndex_roundtrip:
  assumes "pi_pattern_id x < 2 ^ 32" "pi_start_pos x < 2 ^ 32"
  shows "ToUint x < 2 ^ 64 \<and> FromUint (ToUint x) = x"
  using Uint_roundtrip [OF assms] by simp

theorem PatternIndex_roundtrip_witness:
  "FromUint (ToUint \<lparr>pi_pattern_id = 7, pi_start_pos = 4294967295\<rparr>) = \<lparr>pi_pattern_id = 7, pi_start_pos = 4294967295\<rparr>"
  using PatternIndex_roundtrip [of "\<lparr>pi_pattern_id = 7, pi_start_pos = 4294967295\<rparr>"] by simp

end
