(* ===== verification/PatternLanguage.thy ===== *)
theory PatternLanguage
  imports Constructor Occurrences
begin

text \<open>
  What the constructor of \<open>Skeleton\<close> builds means what the pattern means: the segment of every piece has
  the language of the piece, folding keeps it, and the segments together have the language of LIKE.
\<close>

subsection \<open>The language of a pattern\<close>

definition lang :: "token list \<Rightarrow> 32 word list set" where
  "lang ts = {s. like ts s}"

lemma cat_Nil [simp]: "cat {[]} A = A" "cat A {[]} = A"
  by (auto simp: cat_def)

lemma lang_append: "lang (xs @ ys) = cat (lang xs) (lang ys)"
proof (induction xs)
  case Nil
  then show ?case by (auto simp: lang_def cat_def)
next
  case (Cons t xs)
  have t: "lang (t # ts) = cat (lang [t]) (lang ts)" for ts
  proof (cases t)
    case Any_seq
    then show ?thesis by (auto simp: lang_def cat_def like_seq_iff)
  next
    case (Chr d)
    have "like (Chr d # xs) s \<longleftrightarrow> (\<exists>u. s = d # u \<and> like xs u)" for xs s by (cases s) auto
    then have "lang (Chr d # xs) = (#) d ` lang xs" for xs by (auto simp: lang_def)
    moreover have "cat ((#) d ` lang []) A = (#) d ` A" for A by (auto simp: cat_def lang_def)
    ultimately show ?thesis by (simp add: Chr)
  next
    case Any_cp
    have "s \<in> lang (Any_cp # ts) \<longleftrightarrow> s \<in> cat (lang [Any_cp]) (lang ts)" for s
    proof
      assume "s \<in> lang (Any_cp # ts)"
      then show "s \<in> cat (lang [Any_cp]) (lang ts)" by (intro catI [of 1]) (cases s; simp add: lang_def)+
    next
      assume "s \<in> cat (lang [Any_cp]) (lang ts)"
      then obtain a b where "s = a @ b" "like [Any_cp] a" "like ts b" by (auto simp: cat_def lang_def)
      then show "s \<in> lang (Any_cp # ts)" by (cases a) (simp_all add: lang_def)
    qed
    then show ?thesis by (auto simp: Any_cp)
  next
    case Never
    then show ?thesis by (auto simp: lang_def cat_def)
  qed
  show ?case using Cons.IH by (simp add: t [of "xs @ ys"] t [of xs] cat_assoc)
qed

definition cp_lang :: "32 word list \<Rightarrow> 32 word list set" where
  "cp_lang x = lang (map tok1 x)"

lemma cp_lang_simps [simp]:
  "cp_lang [] = {[]}" "cp_lang (x @ y) = cat (cp_lang x) (cp_lang y)"
  by (simp_all add: cp_lang_def lang_append) (simp add: lang_def)

abbreviation plain :: "32 word \<Rightarrow> bool" where
  "plain c \<equiv> c \<noteq> PERCENT_CP \<and> c \<noteq> UNDERSCORE_CP"

lemma cp_lang_plain: "\<forall>c \<in> set k. plain c \<Longrightarrow> cp_lang k = {k}"
proof (induction k)
  case (Cons c k)
  have "like (tok1 c # ts) s \<longleftrightarrow> (\<exists>u. s = c # u \<and> like ts u)" for ts s
    using Cons.prems by (cases s) (auto simp: tok1_def)
  with Cons show ?case by (auto simp: cp_lang_def lang_def)
qed simp

lemma cp_lang_underscores: "\<forall>c \<in> set u. us c \<Longrightarrow> cp_lang u = anyn (length u)"
proof (induction u)
  case (Cons c k)
  have "like (tok1 c # ts) s \<longleftrightarrow> (\<exists>d u. s = d # u \<and> like ts u)" for ts s
    using Cons.prems by (cases s) (auto simp: tok1_def)
  with Cons show ?case by (auto simp: cp_lang_def lang_def anyn_def set_eq_iff length_Suc_conv)
qed (simp add: anyn_def)

lemma cp_lang_percents: "\<forall>c \<in> set u. pc c \<Longrightarrow> cp_lang u = (if u = [] then {[]} else UNIV)"
proof (induction u)
  case (Cons c k)
  then have "cp_lang [c] = UNIV" by (simp add: cp_lang_def lang_def like_seq_iff tok1_def PERCENT_CP_def UNDERSCORE_CP_def)
  then have "cp_lang (c # k) = cat UNIV (cp_lang k)" using cp_lang_simps(2) [of "[c]" k] by simp
  with Cons show ?case by (auto simp: cat_def)
qed simp

lemma enc_len_underscores: "\<forall>c \<in> set u. us c \<Longrightarrow> enc_len u = length u"
proof (induction u)
  case (Cons c u)
  then show ?case using enc_len_simps(2) [of "[c]" u]
    by (simp add: enc_len_def writeCodePointUnchecked_def UNDERSCORE_CP_def)
qed simp

lemma enc_len_inj:
  assumes "valid_cps (a @ b)" "a @ b = a' @ b'" "enc_len a = enc_len a'"
  shows "a = a'"
proof -
  have *: "x = y" if "x @ z = y" "valid_cps y" "enc_len x = enc_len y" for x y z
    using that enc_len_zero [of z] by auto
  from assms(2) consider us where "a = a' @ us" | us where "a @ us = a'"
    by (auto simp: append_eq_append_conv2)
  then show ?thesis
  proof cases
    case 1
    with assms * [of a' us a] show ?thesis by simp
  next
    case 2
    moreover have "valid_cps a'" using assms(1) unfolding assms(2) by simp
    ultimately show ?thesis using assms(3) * [of a us a'] by simp
  qed
qed

subsection \<open>The language of a segment\<close>

text \<open>The literal that stands at a byte offset, and what a list of offsets of one segment stands for: the
  literals with as many arbitrary code points between them as the offsets leave room for.\<close>

definition lit_at :: "32 word list \<Rightarrow> nat \<Rightarrow> 32 word list set" where
  "lit_at pat off = {takeWhile plain t2 | t1 t2. pat = t1 @ t2 \<and> enc_len t1 = off}"

fun lits_lang :: "32 word list \<Rightarrow> nat list \<Rightarrow> 32 word list set" where
  "lits_lang pat [] = {[]}"
| "lits_lang pat [off] = lit_at pat off"
| "lits_lang pat (off # off' # offs) =
    {k @ w | k w. k \<in> lit_at pat off \<and> w \<in> cat (anyn (off' - (off + enc_len k))) (lits_lang pat (off' # offs))}"

lemma lit_at_eq:
  assumes "valid_cps (t1 @ k @ t2)" "\<forall>c \<in> set k. plain c" "t2 = [] \<or> \<not> plain (hd t2)"
  shows "lit_at (t1 @ k @ t2) (enc_len t1) = {k}"
proof -
  have tw: "takeWhile plain (k @ t2) = k" using assms(2,3) by (cases t2) auto
  have uniq: "takeWhile plain u2 = k" if "t1 @ k @ t2 = u1 @ u2" "enc_len u1 = enc_len t1" for u1 u2
  proof -
    have "t1 = u1" using enc_len_inj [OF assms(1) that(1)] that(2) by simp
    with that(1) tw show ?thesis by simp
  qed
  show ?thesis unfolding lit_at_def
  proof (intro equalityI subsetI)
    fix w assume "w \<in> {takeWhile plain t2' | t1' t2'. t1 @ k @ t2 = t1' @ t2' \<and> enc_len t1' = enc_len t1}"
    then obtain u1 u2 where "w = takeWhile plain u2" "t1 @ k @ t2 = u1 @ u2" "enc_len u1 = enc_len t1" by blast
    with uniq show "w \<in> {k}" by blast
  next
    fix w assume "w \<in> {k}"
    with tw show "w \<in> {takeWhile plain t2' | t1' t2'. t1 @ k @ t2 = t1' @ t2' \<and> enc_len t1' = enc_len t1}"
      by (intro CollectI exI [of _ t1] exI [of _ "k @ t2"]) simp
  qed
qed

lemma places_end_bounds:
  "enc_len t1 \<le> places_end (enc_len t1) (lit_places t1 x) \<and> places_end (enc_len t1) (lit_places t1 x) \<le> enc_len (t1 @ x)"
proof (induction t1 x rule: lit_places_induct)
  case (literal t1 u k z)
  then show ?case by (simp add: add.assoc)
qed simp

lemma places_bounds:
  "(off, k) \<in> set (lit_places t1 x) \<Longrightarrow>
    enc_len t1 \<le> off \<and> off + enc_len k \<le> places_end (enc_len t1) (lit_places t1 x)"
proof (induction t1 x rule: lit_places_induct)
  case (literal t1 u k' z)
  then show ?case using places_end_bounds [of "t1 @ u @ k'" z] by (auto simp: add.assoc)
qed simp

lemma piece_lang:
  assumes "valid_cps pat"
  shows "pat = t1 @ x @ t2 \<Longrightarrow> PERCENT_CP \<notin> set x \<Longrightarrow> t2 = [] \<or> hd t2 = PERCENT_CP \<Longrightarrow>
    (case lit_places t1 x of [] \<Rightarrow> cp_lang x = anyn (enc_len x)
     | (off, k) # ls \<Rightarrow> cp_lang x = cat (anyn (off - enc_len t1)) (cat (lits_lang pat (map fst (lit_places t1 x)))
         (anyn (enc_len (t1 @ x) - places_end (enc_len t1) (lit_places t1 x)))))"
proof (induction t1 x rule: lit_places_induct)
  case (underscores t1 x)
  then show ?case using cp_lang_underscores enc_len_underscores by simp
next
  case (literal t1 u k z)
  let ?off = "enc_len (t1 @ u)" and ?ls = "lit_places (t1 @ u @ k) z"
  have k: "\<forall>c \<in> set k. plain c" using literal.prems(2) literal.hyps(3) by auto
  note langs = cp_lang_underscores [OF literal.hyps(1)] enc_len_underscores [OF literal.hyps(1)] cp_lang_plain [OF k]
  have "z @ t2 = [] \<or> \<not> plain (hd (z @ t2))" using literal.hyps(4) literal.prems(3) by (cases z) auto
  then have lit: "lit_at pat ?off = {k}"
    using lit_at_eq [of "t1 @ u" k "z @ t2"] k literal.prems(1) assms by simp
  have IH: "case ?ls of [] \<Rightarrow> cp_lang z = anyn (enc_len z)
     | (off, _) # ls \<Rightarrow> cp_lang z = cat (anyn (off - enc_len (t1 @ u @ k))) (cat (lits_lang pat (map fst ?ls))
         (anyn (enc_len ((t1 @ u @ k) @ z) - places_end (enc_len (t1 @ u @ k)) ?ls)))"
    by (rule literal.IH) (use literal.prems in auto)
  show ?case
  proof (cases ?ls)
    case Nil
    with IH show ?thesis unfolding literal.hyps(5) by (simp add: langs lit [unfolded enc_len_simps(2) langs(2)])
  next
    case (Cons l ls)
    obtain off' k' where l: "l = (off', k')" by force
    have "lits_lang pat (?off # off' # map fst ls) =
        cat {k} (cat (anyn (off' - (?off + enc_len k))) (lits_lang pat (off' # map fst ls)))"
      unfolding lits_lang.simps lit by (auto simp: cat_def)
    with IH show ?thesis unfolding literal.hyps(5)
      by (simp add: langs Cons l cat_assoc add.assoc)
  qed
qed

subsection \<open>The segment of a piece\<close>

definition small_places :: "(nat \<times> 32 word list) list \<Rightarrow> bool" where
  "small_places ls \<longleftrightarrow> (\<forall>(off, k) \<in> set ls. off < 65536)"

lemma sub32_zero [simp]: "off < 65536 \<Longrightarrow> sub32 off 0 = off"
  by (simp add: sub32_eq)

lemma add_literal_fields:
  fixes off n prev :: nat and g :: Segment
  assumes "off < 65536"
  defines "h \<equiv> add_literal \<lparr>start = off, len = n, escape_prefix_before_start = 0\<rparr> prev g"
  shows "literal_offset h = literal_offset g @ [off]" "lit_off_p h = lit_off_p (Segment_Insert off g)"
    "has_prefix_percent h = has_prefix_percent g" "has_suffix_percent h = has_suffix_percent g" "HasLiteral h"
    "prefix_underscore_cnt h = (if HasLiteral g then prefix_underscore_cnt g else sub32 off prev)"
  using assms(1) by (auto simp: h_def add_literal_def Segment_Insert_def Let_def HasLiteral_def)

lemma add_places_fields:
  "small_places ls \<Longrightarrow> literal_offset (add_places prev ls g) = literal_offset g @ map fst ls \<and>
    has_prefix_percent (add_places prev ls g) = has_prefix_percent g \<and>
    has_suffix_percent (add_places prev ls g) = has_suffix_percent g"
  by (induction prev ls g rule: add_places.induct) (simp_all add: small_places_def add_literal_fields)

lemma add_places_prefix:
  "small_places ls \<Longrightarrow> (\<And>off k ls'. ls = (off, k) # ls' \<Longrightarrow> prev \<le> off) \<Longrightarrow>
   prefix_underscore_cnt (add_places prev ls g) =
    (if HasLiteral g \<or> ls = [] then prefix_underscore_cnt g else fst (hd ls) - prev)"
proof (induction prev ls g rule: add_places.induct)
  case (2 prev off k ls g)
  have keep: "HasLiteral g \<Longrightarrow> small_places ls \<Longrightarrow> prefix_underscore_cnt (add_places p ls g) = prefix_underscore_cnt g" for p ls g
    by (induction p ls g rule: add_places.induct) (simp_all add: small_places_def add_literal_fields)
  show ?case using "2.prems" by (simp add: keep small_places_def add_literal_fields sub32_eq)
qed simp

text \<open>The offsets and the index of them are what inserting the offsets one after the other gives.\<close>

lemma add_places_index:
  "small_places ls \<Longrightarrow> literal_offset g = literal_offset h \<Longrightarrow> lit_off_p g = lit_off_p h \<Longrightarrow>
   lit_off_p (add_places prev ls g) = lit_off_p (fold Segment_Insert (map fst ls) h)"
proof (induction prev ls g arbitrary: h rule: add_places.induct)
  case (2 prev off k ls g)
  have "literal_offset (Segment_Insert off h) = literal_offset h @ [off]"
      "lit_off_p (Segment_Insert off g) = lit_off_p (Segment_Insert off h)"
    using "2.prems" by (simp_all add: Segment_Insert_def Let_def small_places_def)
  with 2 show ?case by (simp add: small_places_def add_literal_fields)
qed simp

lemma piece_segment_fields:
  assumes "enc_len (t1 @ q) < 65536"
  shows "literal_offset (piece_segment (t1, q)) = map fst (lit_places t1 q)"
    "lit_off_p (piece_segment (t1, q)) = lit_off_p (segment_of (map fst (lit_places t1 q)))"
    "has_prefix_percent (piece_segment (t1, q)) \<longleftrightarrow> t1 \<noteq> []"
    "\<not> has_suffix_percent (piece_segment (t1, q))"
    "prefix_underscore_cnt (piece_segment (t1, q)) = (case lit_places t1 q of [] \<Rightarrow> 0 | (off, _) # _ \<Rightarrow> off - enc_len t1)"
    "suffix_underscore_cnt (piece_segment (t1, q)) = enc_len (t1 @ q) - places_end (enc_len t1) (lit_places t1 q)"
    "HasLiteral (piece_segment (t1, q)) \<longleftrightarrow> lit_places t1 q \<noteq> []"
proof -
  let ?ls = "lit_places t1 q" and ?g = "empty_segment\<lparr>has_prefix_percent := t1 \<noteq> []\<rparr>"
  have le: "off < 65536 \<and> enc_len t1 \<le> off" if "(off, k) \<in> set ?ls" for off k
    using places_bounds [OF that] places_end_bounds [of t1 q] assms by simp
  then have small: "small_places ?ls" by (auto simp: small_places_def)
  note f = piece_segment_def close_segment_def Let_def
  show lo: "literal_offset (piece_segment (t1, q)) = map fst ?ls"
    using add_places_fields [OF small] by (simp add: f empty_segment_def)
  show "lit_off_p (piece_segment (t1, q)) = lit_off_p (segment_of (map fst ?ls))"
    using add_places_index [OF small, of ?g empty_segment] by (simp add: f segment_of_def)
  show "has_prefix_percent (piece_segment (t1, q)) \<longleftrightarrow> t1 \<noteq> []" "\<not> has_suffix_percent (piece_segment (t1, q))"
    by (simp_all add: f add_places_fields [OF small]) (simp add: empty_segment_def)
  show "prefix_underscore_cnt (piece_segment (t1, q)) = (case ?ls of [] \<Rightarrow> 0 | (off, _) # _ \<Rightarrow> off - enc_len t1)"
  proof -
    have "prefix_underscore_cnt (add_places (enc_len t1) ?ls ?g) = (if ?ls = [] then 0 else fst (hd ?ls) - enc_len t1)"
    proof -
      have "enc_len t1 \<le> off" if "?ls = (off, k) # ls'" for off k ls' using le [of off k] that by simp
      from add_places_prefix [OF small this, where g = ?g] show ?thesis by (simp add: HasLiteral_def empty_segment_def)
    qed
    then show ?thesis by (cases ?ls) (auto simp: f)
  qed
  show "suffix_underscore_cnt (piece_segment (t1, q)) = enc_len (t1 @ q) - places_end (enc_len t1) ?ls"
    using assms places_end_bounds [of t1 q] by (simp add: f sub32_eq)
  show "HasLiteral (piece_segment (t1, q)) \<longleftrightarrow> ?ls \<noteq> []" by (simp add: HasLiteral_def lo)
qed

lemma piece_underscores: "enc_len (t1 @ q) < 65536 \<Longrightarrow> underscores (piece_segment (t1, q)) \<le> enc_len q"
  using places_end_bounds [of t1 q] places_bounds [of _ _ t1 q]
  by (fastforce simp: underscores_def piece_segment_fields split: list.splits)

lemma piece_segment_lang:
  assumes "valid_cps pat" "pat = t1 @ q @ t2" "PERCENT_CP \<notin> set q" "t2 = [] \<or> hd t2 = PERCENT_CP" "enc_len pat < 65536"
  shows "seg_lang (lits_lang pat) (piece_segment (t1, q)) = cp_lang q"
proof -
  have "enc_len (t1 @ q) < 65536" using assms(2,5) by simp
  note f = piece_segment_fields [OF this]
  show ?thesis
  proof (cases "lit_places t1 q")
    case Nil
    with piece_lang [OF assms(1-4)] show ?thesis by (simp add: seg_lang_def f)
  next
    case (Cons l ls)
    obtain off k where "l = (off, k)" by force
    with Cons piece_lang [OF assms(1-4)] show ?thesis by (simp add: seg_lang_def f del: enc_len_simps)
  qed
qed

subsection \<open>The segments of a pattern\<close>

lemma chunks_eq_Nil: "chunks D t1 x = [] \<longleftrightarrow> (\<forall>c \<in> set x. D c)"
  by (subst chunks.simps) (auto simp: Let_def dropWhile_eq_Nil_conv)

lemma chunks_Nil [simp]: "chunks D t1 [] = []"
  by (simp add: chunks_eq_Nil)

definition skeleton_segments :: "32 word list \<Rightarrow> Segment list" where
  "skeleton_segments pat = fill_suffix_percent (pat \<noteq> [] \<and> last pat = PERCENT_CP) (map piece_segment (pieces [] pat))"

lemma fill_Cons: "gs \<noteq> [] \<Longrightarrow> fill_suffix_percent b (g # gs) =
    g\<lparr>has_suffix_percent := has_prefix_percent (hd gs)\<rparr> # fill_suffix_percent b gs"
  by (cases gs) auto

lemma fill_eq_Nil [simp]: "fill_suffix_percent b gs = [] \<longleftrightarrow> gs = []"
  by (induction b gs rule: fill_suffix_percent.induct) auto

lemma fill_hd: "gs \<noteq> [] \<Longrightarrow> has_prefix_percent (hd (fill_suffix_percent b gs)) = has_prefix_percent (hd gs)"
  by (induction b gs rule: fill_suffix_percent.induct) auto

lemma fill_percents_ok:
  "(\<forall>g \<in> set (tl gs). has_prefix_percent g) \<Longrightarrow> percents_ok (fill_suffix_percent b gs)"
proof (induction b gs rule: fill_suffix_percent.induct)
  case (3 b g g' gs)
  then show ?case by (cases gs) auto
qed auto

lemma seg_lang_suffix_percent [simp]: "seg_lang M (g\<lparr>has_suffix_percent := b\<rparr>) = seg_lang M g"
  by (simp add: seg_lang_def HasLiteral_def)

lemma fill_underscores: "map underscores (fill_suffix_percent b gs) = map underscores gs"
  by (induction b gs rule: fill_suffix_percent.induct) (simp_all add: underscores_def)

lemma segments_lang:
  assumes "valid_cps pat" "enc_len pat < 65536"
  shows "pat = t1 @ x \<Longrightarrow> pieces t1 x \<noteq> [] \<Longrightarrow>
    cp_lang x = (if pc (hd x) then cat UNIV else id)
      (segs_lang (lits_lang pat) (fill_suffix_percent (last x = PERCENT_CP) (map piece_segment (pieces t1 x))))"
proof (induction t1 x rule: chunks_induct [where D = pc])
  case (chunk t1 u q z)
  have q: "q \<noteq> []" "PERCENT_CP \<notin> set q" using chunk.hyps(2,3) by auto
  have g: "seg_lang (lits_lang pat) (piece_segment (t1 @ u, q)) = cp_lang q"
    using piece_segment_lang [OF assms(1), of "t1 @ u" q z] chunk.prems(1) chunk.hyps(4) q(2) assms(2) by simp
  have sfx: "\<not> has_suffix_percent (piece_segment (t1 @ u, q))"
    using piece_segment_fields(4) [of "t1 @ u" q] chunk.prems(1) assms(2) by simp
  have u: "pc (hd (u @ q @ z)) \<longleftrightarrow> u \<noteq> []" using chunk.hyps(1,2,3) by (cases u; cases q) auto
  have "cp_lang (q @ z) = segs_lang (lits_lang pat)
     (fill_suffix_percent (last (u @ q @ z) = PERCENT_CP) (map piece_segment (pieces t1 (u @ q @ z))))"
  proof (cases "pieces (t1 @ u @ q) z")
    case Nil
    then have z: "\<forall>c \<in> set z. pc c" by (simp add: chunks_eq_Nil)
    have "(last (u @ q @ z) = PERCENT_CP) = (z \<noteq> [])"
    proof (cases "z = []")
      case True
      with q last_in_set [of q] show ?thesis by (metis append_Nil2 last_appendR)
    qed (use z in simp)
    then show ?thesis unfolding chunk.hyps(5) Nil using cp_lang_percents [OF z] g
sfx
      by (cases "z = []") (simp_all add: cat_def)
  next
    case (Cons p ps)
    then have ne: "z \<noteq> []" by auto
    have "cp_lang z = cat UNIV (segs_lang (lits_lang pat)
        (fill_suffix_percent (last z = PERCENT_CP) (map piece_segment (pieces (t1 @ u @ q) z))))"
      using chunk.IH chunk.prems(1) chunk.hyps(4) Cons ne by simp
    moreover have "last (u @ q @ z) = last z" using ne by simp
    ultimately show ?thesis unfolding chunk.hyps(5) using g Cons
      by (simp add: fill_Cons segs_lang_Cons)
  qed
  moreover have "cp_lang u = (if u = [] then {[]} else UNIV)" by (rule cp_lang_percents [OF chunk.hyps(1)])
  ultimately show ?case using u by (simp del: cp_lang_simps(2) add: cp_lang_simps(2) [of u])
qed simp

lemma pieces_valid: "(t, q) \<in> set (pieces t1 x) \<Longrightarrow> \<exists>u z. x = u @ q @ z \<and> t = t1 @ u \<and> q \<noteq> [] \<and> PERCENT_CP \<notin> set q"
  using chunks_valid [of t q pc t1 x] by blast

lemma pieces_later: "(t, q) \<in> set (tl (pieces t1 x)) \<Longrightarrow> t \<noteq> []"
proof (induction t1 x rule: chunks_induct [where D = pc])
  case (chunk t1 u k z)
  then show ?case using pieces_valid [of t q "t1 @ u @ k" z] by auto
qed simp

lemma sum_underscores:
  "valid_cps (t1 @ x) \<Longrightarrow> enc_len (t1 @ x) < 65536 \<Longrightarrow>
   sum_list (map underscores (map piece_segment (pieces t1 x))) \<le> enc_len x"
proof (induction t1 x rule: chunks_induct [where D = pc])
  case (chunk t1 u k z)
  then show ?case using piece_underscores [of "t1 @ u" k] by simp
qed simp

lemma segments_flags:
  assumes "valid_cps pat" "enc_len pat < 65536"
  shows "percents_ok (skeleton_segments pat)" "sum_list (map underscores (skeleton_segments pat)) < 2 ^ 32"
proof -
  have "has_prefix_percent g" if "g \<in> set (tl (map piece_segment (pieces [] pat)))" for g
  proof -
    obtain t q where g: "(t, q) \<in> set (tl (pieces [] pat))" "g = piece_segment (t, q)"
      using \<open>g \<in> _\<close> by (auto simp flip: map_tl)
    then have "(t, q) \<in> set (pieces [] pat)" by (metis list.set_sel(2) list.sel(2))
    then obtain u z where "pat = u @ q @ z" "t = [] @ u" using pieces_valid by blast
    then have "enc_len (t @ q) < 65536" using assms(2) by simp
    from piece_segment_fields(3) [OF this] pieces_later [OF g(1)] g(2) show ?thesis by simp
  qed
  then show "percents_ok (skeleton_segments pat)"
    unfolding skeleton_segments_def by (intro fill_percents_ok) blast
  show "sum_list (map underscores (skeleton_segments pat)) < 2 ^ 32"
    using sum_underscores [of "[]" pat] assms by (simp add: skeleton_segments_def fill_underscores)
qed

lemma skeleton_segments_lang:
  assumes "valid_cps pat" "enc_len pat < 65536" "skeleton_segments pat \<noteq> []"
  shows "skeleton_lang (lits_lang pat) (skeleton_segments pat) = {s. like (tokens 0 pat) s}"
proof -
  let ?gs = "map piece_segment (pieces [] pat)"
  have ne: "pieces [] pat \<noteq> []" using assms(3) by (simp add: skeleton_segments_def)
  then have pat: "pat \<noteq> []" by auto
  have "has_prefix_percent (hd ?gs) \<longleftrightarrow> pc (hd pat)"
    using ne assms(1,2)
  proof (induction "[] :: 32 word list" pat rule: chunks_induct [where D = pc])
    case (chunk u k z)
    then have "has_prefix_percent (piece_segment (u, k)) \<longleftrightarrow> u \<noteq> []" using piece_segment_fields(3) [of u k] by simp
    with chunk.hyps show ?case by (cases u; cases k) auto
  qed simp
  then have "has_prefix_percent (hd (skeleton_segments pat)) \<longleftrightarrow> pc (hd pat)"
    using ne by (simp add: skeleton_segments_def fill_hd)
  moreover have "cp_lang pat = {s. like (tokens 0 pat) s}" by (simp add: cp_lang_def lang_def tokens_plain)
  ultimately show ?thesis
    using segments_lang [OF assms(1,2), of "[]" pat] ne pat assms(3)
    by (auto simp: skeleton_lang_def skeleton_segments_def)
qed

lemma make_Skeleton_eq:
  assumes "callback_ok pat [0] fn I" "valid_cps pat" "enc_len pat < 65536" "I [] s"
  shows "\<exists>s'. make_Skeleton (c_string (encode pat)) (enc_len pat) [] fn s =
      Some (\<lparr>only_wildcard = (places pat = []), segs = FoldLiteralFreeSegments (skeleton_segments pat)\<rparr>, s') \<and>
    I (places pat) s'"
proof -
  let ?t = "Tokenizer (c_string (encode pat)) (enc_len pat) []"
  have "plain_tokenizer ?t (encode pat @ [0])" "tok_wf ?t"
    using assms(3) by (simp_all add: plain_tokenizer_def c_string_def tok_wf_def enc_len_def)
  from segment_loop_eq [OF assms(1,2) this, of "[]" pat "[]" "[]" s True] assms(4)
  obtain tok' s' where "segment_loop fn ?t [] True s = Some (tok', map piece_segment (pieces [] pat), places pat = [], s')"
      "I (places pat) s'" "tok_pos tok' \<noteq> enc_len pat \<longleftrightarrow> pat \<noteq> [] \<and> last pat = PERCENT_CP"
    by (auto simp: places_def)
  then show ?thesis by (simp add: make_Skeleton_def Pos_def skeleton_segments_def)
qed

text \<open>Folding keeps the segments that have literals, with their offsets.\<close>

lemma fold_front_literals:
  "map (\<lambda>g. (literal_offset g, lit_off_p g)) (filter HasLiteral (fold_front gs)) =
   map (\<lambda>g. (literal_offset g, lit_off_p g)) (filter HasLiteral gs)"
  by (induction gs rule: fold_front.induct) (auto simp: HasLiteral_def)

lemma fold_back_literals_kept:
  "map (\<lambda>g. (literal_offset g, lit_off_p g)) (filter HasLiteral (fold_back g hs)) =
   map (\<lambda>g. (literal_offset g, lit_off_p g)) (filter HasLiteral (g # hs))"
  by (induction g hs rule: fold_back.induct) (auto simp: HasLiteral_def)

lemma cover_max_literals:
  "map (\<lambda>g. (literal_offset g, lit_off_p g)) (filter HasLiteral (map cover_max gs)) =
   map (\<lambda>g. (literal_offset g, lit_off_p g)) (filter HasLiteral gs)"
  by (induction gs) (auto simp: HasLiteral_def cover_max_def)

lemma Fold_literals:
  "map (\<lambda>g. (literal_offset g, lit_off_p g)) (filter HasLiteral (FoldLiteralFreeSegments gs)) =
   map (\<lambda>g. (literal_offset g, lit_off_p g)) (filter HasLiteral gs)"
  using fold_front_literals [of gs]
  by (auto simp: FoldLiteralFreeSegments_def cover_max_literals fold_back_literals_kept simp del: filter.simps list.map split: list.splits)

lemma places_eq_Nil: "places pat = [] \<longleftrightarrow> set pat \<subseteq> {PERCENT_CP, UNDERSCORE_CP}"
proof -
  have "concat (map (\<lambda>(t, q). lit_places t q) (pieces t1 x)) = [] \<longleftrightarrow> set x \<subseteq> {PERCENT_CP, UNDERSCORE_CP}" for t1 x
  proof (induction t1 x rule: chunks_induct [where D = pc])
    case (chunk t1 u k z)
    then have "lit_places (t1 @ u) k = [] \<longleftrightarrow> set k \<subseteq> {PERCENT_CP, UNDERSCORE_CP}"
      by (auto simp: lit_places_def chunks_eq_Nil)
    with chunk show ?case unfolding chunk.hyps(5) by auto
  qed auto
  then show ?thesis by (simp add: places_def)
qed

subsection \<open>Properties\<close>

text \<open>Property C14: the compiled form of a pattern means the pattern.  For every pattern of at most 65535
  bytes without escape the constructor returns, hands every literal to its callback once, from left to
  right, and leaves segments whose language, literals with arbitrary code points between them and the
  counted underscores around them, is exactly the set of texts LIKE matches; the flag for patterns of
  wildcards only is set exactly when there is no literal, and the skeleton is empty exactly when
  there is nothing but percent signs.\<close>

theorem make_Skeleton_is_like:
  assumes "valid_cps pat" "length (encode pat) < 65536"
  shows "\<exists>sket. make_Skeleton (c_string (encode pat)) (length (encode pat)) [] (\<lambda>tok lit out. Some (out @ [lit])) [] =
      Some (sket, map (\<lambda>(off, k). \<lparr>start = off, len = length (encode k), escape_prefix_before_start = 0\<rparr>) (places pat)) \<and>
    (OnlyWildcard sket \<longleftrightarrow> set pat \<subseteq> {PERCENT_CP, UNDERSCORE_CP}) \<and> (IsEmpty sket \<longleftrightarrow> set pat \<subseteq> {PERCENT_CP}) \<and>
    (\<not> IsEmpty sket \<longrightarrow> skeleton_lang (lits_lang pat) (segs sket) = {t. like (tokens 0 pat) t})"
proof -
  let ?I = "\<lambda>ps out. out = map (\<lambda>(off, k). \<lparr>start = off, len = enc_len k, escape_prefix_before_start = 0\<rparr>) ps"
  have "callback_ok pat [0] (\<lambda>tok lit out. Some (out @ [lit])) ?I" by (simp add: callback_ok_def)
  from make_Skeleton_eq [OF this assms(1)] assms(2)
  have made: "make_Skeleton (c_string (encode pat)) (enc_len pat) [] (\<lambda>tok lit out. Some (out @ [lit])) [] =
      Some (\<lparr>only_wildcard = (places pat = []), segs = FoldLiteralFreeSegments (skeleton_segments pat)\<rparr>,
        map (\<lambda>(off, k). \<lparr>start = off, len = enc_len k, escape_prefix_before_start = 0\<rparr>) (places pat))"
    by (auto simp: enc_len_def)
  have e: "enc_len pat < 65536" using assms(2) by (simp add: enc_len_def)
  note fold = Fold_lang [OF segments_flags [OF assms(1) e], of "lits_lang pat"]
  have "skeleton_segments pat = [] \<longleftrightarrow> set pat \<subseteq> {PERCENT_CP}"
    by (auto simp: skeleton_segments_def chunks_eq_Nil)
  with made fold skeleton_segments_lang [OF assms(1) e] places_eq_Nil [of pat] show ?thesis
    by (auto simp: OnlyWildcard_def IsEmpty_def enc_len_def)
qed

theorem make_Skeleton_is_like_witness:
  "\<exists>sket. make_Skeleton (c_string (encode [0x25, 0x61, 0x5F])) (length (encode [0x25, 0x61, 0x5F])) []
      (\<lambda>tok lit out. Some (out @ [lit])) [] =
    Some (sket, map (\<lambda>(off, k). \<lparr>start = off, len = length (encode k), escape_prefix_before_start = 0\<rparr>) (places [0x25, 0x61, 0x5F]))"
  using make_Skeleton_is_like [of "[0x25, 0x61, 0x5F]"] by (auto simp: writeCodePointUnchecked_def)

end
