(* ===== verification/Alignment.thy ===== *)
theory Alignment
  imports PatternLanguage
begin

text \<open>
  Matching the segments of a skeleton one after the other, each at its first fitting hit.  Positions are
  counted in code points and a segment comes with its only literal; \<open>fit_from\<close> says that the remaining
  segments fit, \<open>take_hit\<close> and \<open>skip_hit\<close> that taking the first hit that fits loses nothing, and
  \<open>fit_from_lang\<close> that fitting from the start is membership in the language of the skeleton.
\<close>

definition fits_at :: "Segment \<Rightarrow> 32 word list \<Rightarrow> nat \<Rightarrow> 32 word list \<Rightarrow> nat \<Rightarrow> bool" where
  "fits_at g k m T s \<longleftrightarrow>
    (if has_prefix_percent g then m + prefix_underscore_cnt g \<le> s else s = m + prefix_underscore_cnt g) \<and>
    take (length k) (drop s T) = k \<and> s + length k + suffix_underscore_cnt g \<le> length T"

definition last_ok :: "Segment \<Rightarrow> 32 word list \<Rightarrow> 32 word list \<Rightarrow> nat \<Rightarrow> bool" where
  "last_ok g k T s \<longleftrightarrow> has_suffix_percent g \<or> s + length k + suffix_underscore_cnt g = length T"

text \<open>The remaining segments fit from position \<open>m\<close> on; \<open>A\<close> restricts where the first literal may end.\<close>

fun fit_from :: "(nat \<Rightarrow> bool) \<Rightarrow> (Segment \<times> 32 word list) list \<Rightarrow> nat \<Rightarrow> 32 word list \<Rightarrow> bool" where
  "fit_from A [] m T \<longleftrightarrow> True"
| "fit_from A ((g, k) # gs) m T \<longleftrightarrow>
    (\<exists>s. A (s + length k) \<and> fits_at g k m T s \<and> (if gs = [] then last_ok g k T s
       else fit_from (\<lambda>_. True) gs (s + length k + suffix_underscore_cnt g) T))"

lemma fit_fromI: "A (s + length k) \<Longrightarrow> fits_at g k m T s \<Longrightarrow> (if gs = [] then last_ok g k T s
    else fit_from (\<lambda>_. True) gs (s + length k + suffix_underscore_cnt g) T) \<Longrightarrow> fit_from A ((g, k) # gs) m T"
  unfolding fit_from.simps by blast

lemma fit_fromE:
  assumes "fit_from A ((g, k) # gs) m T"
  obtains s where "A (s + length k)" "fits_at g k m T s" "if gs = [] then last_ok g k T s
    else fit_from (\<lambda>_. True) gs (s + length k + suffix_underscore_cnt g) T"
  using assms unfolding fit_from.simps by blast

declare fit_from.simps(2) [simp del]

lemma fits_at_mono: "has_prefix_percent g \<Longrightarrow> m \<le> m' \<Longrightarrow> fits_at g k m' T s \<Longrightarrow> fits_at g k m T s"
  by (simp add: fits_at_def)

lemma fit_from_mono:
  "(\<And>e. A e \<Longrightarrow> A' e) \<Longrightarrow> m \<le> m' \<Longrightarrow> (gs \<noteq> [] \<Longrightarrow> has_prefix_percent (fst (hd gs))) \<Longrightarrow>
   fit_from A gs m' T \<Longrightarrow> fit_from A' gs m T"
proof (induction gs)
  case (Cons gk gs)
  obtain g k where gk: "gk = (g, k)" by force
  with Cons.prems(4) obtain s where s: "A (s + length k)" "fits_at g k m' T s" "if gs = [] then last_ok g k T s
       else fit_from (\<lambda>_. True) gs (s + length k + suffix_underscore_cnt g) T" by (auto elim: fit_fromE)
  have "fits_at g k m T s" using fits_at_mono s(2) Cons.prems(2,3) gk by simp
  with s Cons.prems(1) show ?case unfolding gk by (intro fit_fromI)
qed simp

text \<open>A hit that does not fit may be forgotten.\<close>

lemma skip_hit:
  assumes "\<not> (fits_at g k m T s \<and> (gs = [] \<longrightarrow> last_ok g k T s))" "s + length k = e" "k \<noteq> []"
    "\<And>e'. e' \<noteq> e \<Longrightarrow> A' e' = A e'" "\<And>e'. A' e' \<Longrightarrow> A e'"
  shows "fit_from A ((g, k) # gs) m T \<longleftrightarrow> fit_from A' ((g, k) # gs) m T"
proof
  assume "fit_from A ((g, k) # gs) m T"
  then obtain s' where s': "A (s' + length k)" "fits_at g k m T s'" "if gs = [] then last_ok g k T s'
       else fit_from (\<lambda>_. True) gs (s' + length k + suffix_underscore_cnt g) T" by (rule fit_fromE)
  have "s' \<noteq> s" using assms(1) s'(2,3) by auto
  then have "A' (s' + length k)" using assms(2,4) s'(1) by simp
  with s'(2,3) show "fit_from A' ((g, k) # gs) m T" by (intro fit_fromI)
next
  assume "fit_from A' ((g, k) # gs) m T"
  then show "fit_from A ((g, k) # gs) m T" using assms(5) by (auto elim!: fit_fromE intro!: fit_fromI)
qed

text \<open>A hit that fits is taken: no later one does better.\<close>

lemma take_hit:
  assumes "fits_at g k m T s" "gs = [] \<longrightarrow> last_ok g k T s" "A (s + length k)" "\<And>e. A e \<Longrightarrow> s + length k \<le> e"
    "\<And>e. s + length k < e \<Longrightarrow> A' e" "\<forall>(g', k') \<in> set gs. has_prefix_percent g' \<and> k' \<noteq> []"
  shows "fit_from A ((g, k) # gs) m T \<longleftrightarrow> fit_from A' gs (s + length k + suffix_underscore_cnt g) T"
proof (cases gs)
  case Nil
  with assms fit_fromI [of A s k g m T "[]"] show ?thesis by simp
next
  case (Cons gk gs')
  obtain g' k' where gk: "gk = (g', k')" by force
  let ?m = "s + length k + suffix_underscore_cnt g"
  have g': "has_prefix_percent g'" "k' \<noteq> []" using assms(6) Cons gk by auto
  show ?thesis
  proof
    assume "fit_from A ((g, k) # gs) m T"
    then obtain s1 where s1: "A (s1 + length k)" "fit_from (\<lambda>_. True) gs (s1 + length k + suffix_underscore_cnt g) T"
      using Cons by (auto elim: fit_fromE)
    from assms(4) [OF s1(1)] have "?m \<le> s1 + length k + suffix_underscore_cnt g" by simp
    then have "fit_from (\<lambda>_. True) gs ?m T" using fit_from_mono [OF _ _ _ s1(2)] g' Cons gk by simp
    then obtain s2 where s2: "fits_at g' k' ?m T s2" "if gs' = [] then last_ok g' k' T s2
       else fit_from (\<lambda>_. True) gs' (s2 + length k' + suffix_underscore_cnt g') T"
      unfolding Cons gk by (rule fit_fromE)
    have "?m \<le> s2" using s2(1) g' by (simp add: fits_at_def)
    moreover have "0 < length k'" using g' by simp
    ultimately have "s + length k < s2 + length k'" by linarith
    from fit_fromI [of A', OF assms(5) [OF this] s2] show "fit_from A' gs ?m T" by (simp add: Cons gk)
  next
    assume "fit_from A' gs ?m T"
    then have "fit_from (\<lambda>_. True) gs ?m T" using fit_from_mono [of A' "\<lambda>_. True" ?m ?m gs T] g' Cons gk by simp
    with fit_fromI [of A s k g m T gs] assms(1,3) show "fit_from A ((g, k) # gs) m T" using Cons by simp
  qed
qed

subsection \<open>The language of the segments\<close>

lemma in_cat_anyn: "w \<in> cat (anyn n) R \<longleftrightarrow> n \<le> length w \<and> drop n w \<in> R"
proof
  assume "w \<in> cat (anyn n) R"
  then show "n \<le> length w \<and> drop n w \<in> R" by (auto simp: anyn_def cat_def)
qed (intro catI [of n]; simp add: anyn_def)

lemma in_cat_single: "w \<in> cat {k} R \<longleftrightarrow> take (length k) w = k \<and> drop (length k) w \<in> R"
proof
  assume "w \<in> cat {k} R"
  then show "take (length k) w = k \<and> drop (length k) w \<in> R" by (auto simp: cat_def)
qed (intro catI [of "length k"]; simp)

lemma in_cat_UNIV: "w \<in> cat UNIV R \<longleftrightarrow> (\<exists>n \<le> length w. drop n w \<in> R)"
proof
  assume "w \<in> cat UNIV R"
  then obtain a b where "w = a @ b" "b \<in> R" by (auto simp: cat_def)
  then show "\<exists>n \<le> length w. drop n w \<in> R" by (intro exI [of _ "length a"]) simp
qed (auto intro: catI)

lemma in_segment:
  "w \<in> cat (cat (anyn a) (cat {k} (anyn b))) R \<longleftrightarrow>
    a + length k + b \<le> length w \<and> take (length k) (drop a w) = k \<and> drop (a + length k + b) w \<in> R"
proof -
  have "length k \<le> length w - a" if "take (length k) (drop a w) = k"
    using arg_cong [OF that, of length] by simp
  then show ?thesis by (auto simp: cat_assoc in_cat_anyn in_cat_single add.assoc add.commute)
qed

lemma skeleton_lang_Cons:
  assumes "percents_ok (g # gs)"
  shows "skeleton_lang M (g # gs) = (if has_prefix_percent g then cat UNIV else id) (cat (seg_lang M g)
    (if gs = [] then (if has_suffix_percent g then UNIV else {[]}) else skeleton_lang M gs))"
  using assms by (cases gs) (simp_all add: skeleton_lang_def)

lemma fit_from_lang:
  assumes "\<And>g k. (g, k) \<in> set gks \<Longrightarrow> HasLiteral g \<and> M (literal_offset g) = {k}"
    "percents_ok (map fst gks)" "gks \<noteq> []" "m \<le> length T"
  shows "fit_from (\<lambda>_. True) gks m T \<longleftrightarrow> drop m T \<in> skeleton_lang M (map fst gks)"
  using assms
proof (induction gks arbitrary: m)
  case (Cons gk gs)
  obtain g k where gk: "gk = (g, k)" by force
  let ?a = "prefix_underscore_cnt g" and ?b = "suffix_underscore_cnt g"
  let ?R = "if gs = [] then (if has_suffix_percent g then UNIV else {[]}) else skeleton_lang M (map fst gs)"
  have g: "seg_lang M g = cat (anyn ?a) (cat {k} (anyn ?b))" using Cons.prems(1) [of g k] gk by (simp add: seg_lang_def)
  have R: "drop e T \<in> ?R \<longleftrightarrow> (if gs = [] then has_suffix_percent g \<or> e = length T else fit_from (\<lambda>_. True) gs e T)"
    if "e \<le> length T" for e
    using Cons.IH [of e] Cons.prems(1,2) that by (cases gs) (auto simp: percents_ok_Cons)
  have seg: "drop n T \<in> cat (seg_lang M g) ?R \<longleftrightarrow>
      n + ?a + length k + ?b \<le> length T \<and> take (length k) (drop (n + ?a) T) = k \<and>
      (if gs = [] then last_ok g k T (n + ?a) else fit_from (\<lambda>_. True) gs (n + ?a + length k + ?b) T)" if "n \<le> length T" for n
    unfolding g in_segment using that R [of "n + ?a + length k + ?b"]
    by (auto simp: last_ok_def ac_simps le_diff_conv2)
  have "fit_from (\<lambda>_. True) ((g, k) # gs) m T \<longleftrightarrow> (\<exists>n. (if has_prefix_percent g then m \<le> n else n = m) \<and>
      n \<le> length T \<and> drop n T \<in> cat (seg_lang M g) ?R)"
  proof
    assume "fit_from (\<lambda>_. True) ((g, k) # gs) m T"
    then obtain s where s: "fits_at g k m T s" "if gs = [] then last_ok g k T s
       else fit_from (\<lambda>_. True) gs (s + length k + ?b) T" by (rule fit_fromE)
    then have "s - ?a \<le> length T" "s = s - ?a + ?a" by (auto simp: fits_at_def split: if_splits)
    with s seg [of "s - ?a"] show "\<exists>n. (if has_prefix_percent g then m \<le> n else n = m) \<and>
      n \<le> length T \<and> drop n T \<in> cat (seg_lang M g) ?R"
      by (intro exI [of _ "s - ?a"]) (auto simp: fits_at_def split: if_splits)
  next
    assume "\<exists>n. (if has_prefix_percent g then m \<le> n else n = m) \<and>
      n \<le> length T \<and> drop n T \<in> cat (seg_lang M g) ?R"
    then obtain n where n: "if has_prefix_percent g then m \<le> n else n = m" "n \<le> length T"
      "drop n T \<in> cat (seg_lang M g) ?R" by blast
    with seg [OF n(2)] show "fit_from (\<lambda>_. True) ((g, k) # gs) m T"
      by (intro fit_fromI [of _ "n + ?a"]) (auto simp: fits_at_def split: if_splits)
  qed
  also have "\<dots> \<longleftrightarrow> drop m T \<in> skeleton_lang M (map fst (gk # gs))"
  proof -
    have "(\<exists>n \<ge> m. n \<le> length T \<and> drop n T \<in> X) \<longleftrightarrow> drop m T \<in> cat UNIV X" for X
      using Cons.prems(4) unfolding in_cat_UNIV
      by (auto simp: le_iff_add) (metis add_le_cancel_left le_add_diff_inverse add.commute le_iff_add drop_drop)+
    moreover have "skeleton_lang M (map fst (gk # gs)) = (if has_prefix_percent g then cat UNIV else id) (cat (seg_lang M g) ?R)"
      using skeleton_lang_Cons [of g "map fst gs" M] Cons.prems(2) gk by simp
    ultimately show ?thesis using Cons.prems(4) by auto
  qed
  finally show ?case by (simp add: gk)
qed simp

end
