(* ===== verification/MatcherSteps.thy ===== *)
theory MatcherSteps
  imports Alignment Parser
begin

text \<open>
  The matcher of one pattern on one hit of the automaton, for skeletons whose segments hold one literal
  each: \<open>handle_match_single\<close> reads the byte offsets of the code back as code point positions.
\<close>

subsection \<open>The matcher on one hit\<close>

lemma enc_len_take_less:
  assumes "valid_cps T" "m \<le> length T"
  shows "enc_len (take s T) < enc_len (take m T) \<longleftrightarrow> s < m"
proof -
  have less: "enc_len (take i T) < enc_len (take j T)" if "i < j" "j \<le> length T" for i j
  proof -
    have T: "take i T @ drop i (take j T) = take j T"
      using append_take_drop_id [of i "take j T"] that by (simp add: take_take min_def)
    have "valid_cps (drop i (take j T))" using assms(1) by (auto simp: valid_cps_def dest!: in_set_dropD in_set_takeD)
    moreover have "drop i (take j T) \<noteq> []" using that by simp
    ultimately show ?thesis using enc_len_zero [of "drop i (take j T)"] enc_len_simps(2) [of "take i T" "drop i (take j T)"]
      unfolding T by linarith
  qed
  show ?thesis
  proof (cases "s < m")
    case True
    then show ?thesis using less [of s m] assms(2) by simp
  next
    case False
    then have "enc_len (take m T) \<le> enc_len (take s T)"
      using less [of m s] less [of m "length T"] assms(2) by (cases "s \<le> length T"; cases "s = m"; cases "m = length T") auto
    with False show ?thesis by simp
  qed
qed

lemma enc_len_take_eq:
  assumes "valid_cps T" "m \<le> length T" "s \<le> length T"
  shows "enc_len (take s T) = enc_len (take m T) \<longleftrightarrow> s = m"
  using enc_len_take_less [OF assms(1,2), of s] enc_len_take_less [OF assms(1,3), of m] by (metis less_irrefl linorder_neqE_nat)

lemma advance_take:
  assumes "valid_cps T" "m \<le> length T"
  shows "Utf8Advance (encode T @ r) (enc_len T) (enc_len (take m T)) n =
    Some (if m + n \<le> length T then Val (enc_len (take (m + n) T)) else nullopt)"
  using Utf8Advance_eq [of "take m T" "drop m T" r n] assms
  by (auto simp: take_add simp del: enc_len_simps)

text \<open>A segment with the one literal that stands at \<open>off\<close>.\<close>

definition single :: "Segment \<Rightarrow> nat \<Rightarrow> bool" where
  "single g off \<longleftrightarrow> off < 65536 \<and> literal_offset g = [off] \<and> lit_off_p g = [(off, 0)]"

lemma single_queries:
  assumes "single g off"
  shows "off' < 65536 \<Longrightarrow> Segment_Contain g off' \<longleftrightarrow> off' = off"
    "IsFirstLiteral g off = Some True" "IsLastLiteral g off = Some True"
  using assms by (auto simp: single_def Segment_Contain_def IsFirstLiteral_def IsLastLiteral_def sub64_eq)

definition matcher_at :: "32 word list \<Rightarrow> Matcher \<Rightarrow> nat \<Rightarrow> nat \<Rightarrow> bool" where
  "matcher_at T mt i m \<longleftrightarrow> segment_idx mt = i \<and> m \<le> length T \<and> min_text_start_pos mt = enc_len (take m T)"

definition hit_of :: "nat \<Rightarrow> nat \<Rightarrow> 32 word list \<Rightarrow> 32 word list \<Rightarrow> nat \<Rightarrow> MatchingOutputType" where
  "hit_of pid off k T s = \<lparr>pattern_index = \<lparr>pi_pattern_id = pid, pi_start_pos = off\<rparr>,
     literal_len = enc_len k, text_start_pos = enc_len (take s T)\<rparr>"

lemma hit_of_fields [simp]:
  "pattern_index (hit_of pid off k T s) = \<lparr>pi_pattern_id = pid, pi_start_pos = off\<rparr>"
  "literal_len (hit_of pid off k T s) = enc_len k" "text_start_pos (hit_of pid off k T s) = enc_len (take s T)"
  by (simp_all add: hit_of_def)

definition starts_ok :: "Segment \<Rightarrow> nat \<Rightarrow> nat \<Rightarrow> bool" where
  "starts_ok g m s \<longleftrightarrow> (if has_prefix_percent g then m + prefix_underscore_cnt g \<le> s else s = m + prefix_underscore_cnt g)"

lemma TryMatchingLiteral_single:
  assumes T: "valid_cps T" and i: "i < length (segs sket)" "single (segs sket ! i) off\<^sub>i" "0 < i \<Longrightarrow> has_prefix_percent (segs sket ! i)"
    and mt: "matcher_at T mt i m" and s: "s \<le> length T" "off < 65536"
  shows "TryMatchingLiteral sket (hit_of pid off k T s) cpi q (encode T @ r) (enc_len T) mt =
    Some (off = off\<^sub>i \<and> starts_ok (segs sket ! i) m s, mt, q)"
proof -
  let ?g = "segs sket ! i"
  note M = mt [unfolded matcher_at_def]
  have off: "off\<^sub>i < 65536" using i(2) by (simp add: single_def)
  note eq = enc_len_take_less [OF T, of m s] enc_len_take_eq [OF T _ s(1)] enc_len_take_less [OF T]
  show ?thesis
  proof (cases "off = off\<^sub>i \<and> m \<le> s")
    case False
    then have "starts_ok ?g m s \<Longrightarrow> off \<noteq> off\<^sub>i" by (auto simp: starts_ok_def split: if_splits)
    with False show ?thesis
      using M i(1) single_queries(1) [OF i(2) s(2)] enc_len_take_less [OF T, of m s]
      by (auto simp: TryMatchingLiteral_def)
  next
    case True
    have "positional_fit ?g (hit_of pid off k T s) (encode T @ r) (enc_len T) mt = Some (starts_ok ?g m s, mt)"
      using True M single_queries(2) [OF i(2)] i(3) s(1) enc_len_take_less [OF T, of "m + prefix_underscore_cnt ?g" s]
        enc_len_take_eq [OF T _ s(1), of "m + prefix_underscore_cnt ?g"]
      by (auto simp: positional_fit_def advance_take [OF T] starts_ok_def)
    with True show ?thesis
      using M i(1) single_queries [OF i(2)] off enc_len_take_less [OF T, of m s]
      by (auto simp: TryMatchingLiteral_def)
  qed
qed

definition hit_ok :: "Segment list \<Rightarrow> nat \<Rightarrow> nat \<Rightarrow> 32 word list \<Rightarrow> 32 word list \<Rightarrow> nat \<Rightarrow> bool" where
  "hit_ok gs i m k T s \<longleftrightarrow> fits_at (gs ! i) k m T s \<and> (i + 1 = length gs \<longrightarrow> last_ok (gs ! i) k T s)"

lemma AdvanceNextSegment_at:
  assumes "matcher_at T mt i m" "e \<le> length T"
  shows "matcher_at T (snd (AdvanceNextSegment sket (enc_len (take e T)) mt)) (i + 1) e"
    "fst (AdvanceNextSegment sket (enc_len (take e T)) mt) \<longleftrightarrow> i + 1 < length (segs sket)"
  using assms by (auto simp: matcher_at_def AdvanceNextSegment_def Let_def)

lemma handle_match_single:
  assumes T: "valid_cps T" and i: "i < length (segs sket)" "single (segs sket ! i) off\<^sub>i" "0 < i \<Longrightarrow> has_prefix_percent (segs sket ! i)"
    and mt: "matcher_at T (instances it ! pid) i m" and s: "off < 65536" "s + length k \<le> length T"
      "take (length k) (drop s T) = k"
    and it: "it_text it = encode T @ r" "it_text_len it = enc_len T" "pid < length (instances it)" "pid < length (dirty it)"
      "length (instances it) = length build" "build ! pid = sket"
    and res: "length res = length build" "\<not> res ! pid"
  shows "\<exists>it1 it2 mt'. MarkDirty pid it = Some it1 \<and> it2 = it1\<lparr>instances := (instances it)[pid := mt']\<rparr> \<and>
    handle_match build (hit_of pid off k T s) (it, res) =
      Some (it2, if off = off\<^sub>i \<and> hit_ok (segs sket) i m k T s \<and> i + 1 = length (segs sket) then res[pid := True] else res) \<and>
    (if off = off\<^sub>i \<and> hit_ok (segs sket) i m k T s
     then matcher_at T mt' (i + 1) (s + length k + suffix_underscore_cnt (segs sket ! i))
     else mt' = instances it ! pid)"
proof -
  let ?g = "segs sket ! i" and ?x = "hit_of pid off k T s" and ?mt = "instances it ! pid"
  let ?e = "s + length k + suffix_underscore_cnt ?g"
  obtain it1 where it1: "MarkDirty pid it = Some it1" "it_text it1 = it_text it" "it_text_len it1 = it_text_len it"
      "instances it1 = instances it" "codepoint_idx it1 = codepoint_idx it" "it_queue it1 = it_queue it"
    using it(4) by (simp add: MarkDirty_def)
  have idx: "segment_idx ?mt = i" using mt by (simp add: matcher_at_def)
  have attempt: "TryMatchingLiteral sket ?x (codepoint_idx it1) (it_queue it1) (it_text it1) (it_text_len it1) ?mt =
      Some (off = off\<^sub>i \<and> starts_ok ?g m s, ?mt, it_queue it1)"
    using TryMatchingLiteral_single [OF T i mt _ s(1), of s] s(2) it(1,2) it1(2,3) by simp
  have len: "length (instances it) = length res" "pid < length res" "pid < length build" using it res by simp_all
  show ?thesis
  proof (cases "off = off\<^sub>i \<and> starts_ok ?g m s")
    case False
    then have "\<not> (off = off\<^sub>i \<and> hit_ok (segs sket) i m k T s)"
      by (auto simp: hit_ok_def fits_at_def starts_ok_def)
    with False show ?thesis using it1 attempt res len it
      by (auto simp: handle_match_def Let_def intro!: exI [of _ ?mt])
  next
    case True
    have tl: "enc_len (take s T) + enc_len k = enc_len (take (s + length k) T)"
      using s(3) by (simp add: take_add)
    have tail: "SegmentTailEnd sket ?x i (encode T @ r) (enc_len T) =
        Some (if ?e \<le> length T then Val (enc_len (take ?e T)) else nullopt)"
      using i(1) advance_take [OF T s(2), of r "suffix_underscore_cnt ?g"] by (simp add: SegmentTailEnd_def tl)
    have last: "ValidLastLiteral sket i (enc_len (take ?e T)) (enc_len T) = Some (i + 1 = length (segs sket) \<longrightarrow> last_ok ?g k T s)"
      if "?e \<le> length T"
    proof -
      have "(enc_len (take ?e T) = enc_len T) = (?e = length T)"
        using enc_len_take_eq [OF T _ that, of "length T"] by auto
      moreover have "i + 1 = length (segs sket) \<Longrightarrow> segs sket ! (length (segs sket) - 1) = ?g" by (metis add_diff_cancel_right')
      ultimately show ?thesis using i(1) by (cases "i + 1 = length (segs sket)") (auto simp: ValidLastLiteral_def last_ok_def)
    qed
    have ok: "hit_ok (segs sket) i m k T s \<longleftrightarrow> ?e \<le> length T \<and> (i + 1 = length (segs sket) \<longrightarrow> last_ok ?g k T s)"
      using True s(3) by (auto simp: hit_ok_def fits_at_def starts_ok_def)
    show ?thesis
    proof (cases "hit_ok (segs sket) i m k T s")
      case False
      with ok True show ?thesis using it1 attempt res len it tail last single_queries(3) [OF i(2)] i(1) idx
        by (auto simp: handle_match_def Let_def intro!: exI [of _ ?mt])
    next
      case hit: True
      with ok have e: "?e \<le> length T" by blast
      note adv = AdvanceNextSegment_at [OF mt e, of sket]
      obtain more mt' where a: "AdvanceNextSegment sket (enc_len (take ?e T)) ?mt = (more, mt')" by force
      with hit ok True adv show ?thesis using it1 attempt res len it tail last [OF e] single_queries(3) [OF i(2)] i(1) idx e
        by (auto simp: handle_match_def Let_def intro!: exI [of _ mt'])
    qed
  qed
qed

end
