(* ===== verification/Compiled.thy ===== *)
theory Compiled
  imports MatcherSteps Probe
begin

text \<open>
  Patterns with at most one literal between two percent signs (\<open>single_literals\<close>): the constructor leaves one
  segment per literal (\<open>compiled_skeleton\<close>), and analyzing a list of such patterns leaves a trie that
  holds exactly their literals with their places (\<open>analyze_eq\<close>).
\<close>

subsection \<open>Patterns with at most one literal between percent signs\<close>

lemma runs_append_no: "\<forall>c \<in> set u. \<not> P c \<Longrightarrow> runs P (u @ x) = runs P x"
  by (induction u) auto

lemma runs_append_run: "k \<noteq> [] \<Longrightarrow> \<forall>c \<in> set k. P c \<Longrightarrow> z = [] \<or> \<not> P (hd z) \<Longrightarrow> runs P (k @ z) = k # runs P z"
proof (cases k)
  case (Cons c k')
  assume "\<forall>c \<in> set k. P c" "z = [] \<or> \<not> P (hd z)"
  then have "takeWhile P (k' @ z) = k'" "dropWhile P (k' @ z) = z" "P c"
    using Cons by (cases z; auto simp: takeWhile_append2 dropWhile_append2)+
  then show ?thesis by (simp add: Cons)
qed simp

lemma chunks_runs: "map snd (chunks D t1 x) = runs (\<lambda>c. \<not> D c) x"
proof (induction t1 x rule: chunks_induct [where D = D])
  case (delims t1 x)
  then show ?case using runs_append_no [of x "\<lambda>c. \<not> D c" "[]"] by simp
next
  case (chunk t1 u k z)
  then show ?case using runs_append_no [of u "\<lambda>c. \<not> D c" "k @ z"] runs_append_run [of k "\<lambda>c. \<not> D c" z] by simp
qed

definition single_literals :: "32 word list \<Rightarrow> bool" where
  "single_literals pat \<longleftrightarrow>
    (\<forall>q \<in> set (runs (\<lambda>c. c \<noteq> PERCENT_CP) pat). length (runs (\<lambda>c. c \<noteq> UNDERSCORE_CP) q) \<le> 1)"

lemma single_literals_places: "single_literals pat \<longleftrightarrow> (\<forall>(t, q) \<in> set (pieces [] pat). length (lit_places t q) \<le> 1)"
proof -
  have "length (lit_places t q) = length (runs (\<lambda>c. \<not> us c) q)" for t q
    using arg_cong [OF chunks_runs [of us t q], of length] by (simp add: lit_places_def)
  moreover have "set (runs (\<lambda>c. \<not> pc c) pat) = snd ` set (pieces [] pat)"
    using arg_cong [OF chunks_runs [of pc "[]" pat], of set] by simp
  ultimately show ?thesis by (auto simp: single_literals_def comp_def)
qed

lemma places_valid:
  assumes "(off, k) \<in> set (places pat)"
  obtains t z where "pat = t @ k @ z" "off = enc_len t" "k \<noteq> []" "\<forall>c \<in> set k. plain c" "z = [] \<or> \<not> plain (hd z)"
proof -
  obtain t q t' where tq: "(t, q) \<in> set (pieces [] pat)" "(t', k) \<in> set (chunks us t q)" "off = enc_len t'"
    using assms by (auto simp: places_def lit_places_def)
  obtain u z where u: "pat = u @ q @ z" "t = u" "\<forall>c \<in> set q. \<not> pc c" "z = [] \<or> pc (hd z)"
    using chunks_valid [OF tq(1)] by auto
  obtain v y where v: "q = v @ k @ y" "t' = t @ v" "k \<noteq> []" "\<forall>c \<in> set k. \<not> us c" "y = [] \<or> us (hd y)"
    using chunks_valid [OF tq(2)] by auto
  show thesis
  proof (rule that [of t' "y @ z"])
    show "y @ z = [] \<or> \<not> plain (hd (y @ z))" using u(4) v(5) by (cases y) auto
  qed (use u v tq(3) in auto)
qed

lemma places_literal: "valid_cps pat \<Longrightarrow> (off, k) \<in> set (places pat) \<Longrightarrow> lit_at pat off = {k}"
  by (elim places_valid) (simp add: lit_at_eq)

lemma places_small: "enc_len pat < 65536 \<Longrightarrow> (off, k) \<in> set (places pat) \<Longrightarrow> off < 65536"
  by (elim places_valid) simp

lemma places_sorted:
  "valid_cps x \<Longrightarrow> (\<And>t q. (t, q) \<in> set (pieces t1 x) \<Longrightarrow> length (lit_places t q) \<le> 1) \<Longrightarrow>
   sorted_wrt (<) (map fst (concat (map (\<lambda>(t, q). lit_places t q) (pieces t1 x)))) \<and>
   (\<forall>off \<in> fst ` set (concat (map (\<lambda>(t, q). lit_places t q) (pieces t1 x))). enc_len t1 \<le> off)"
proof (induction t1 x rule: chunks_induct [where D = pc])
  case (chunk t1 u k z)
  have here: "enc_len (t1 @ u) \<le> off \<and> off < enc_len (t1 @ u @ k)" if off: "(off, k') \<in> set (lit_places (t1 @ u) k)" for off k'
  proof -
    obtain v where v: "(v, k') \<in> set (chunks us (t1 @ u) k)" "off = enc_len v" using off by (auto simp: lit_places_def)
    from chunks_valid [OF v(1)] chunk.prems(1) have "0 < enc_len k'" using enc_len_zero [of k'] by auto
    then show ?thesis using places_bounds [OF off] places_end_bounds [of "t1 @ u" k] by simp
  qed
  have "length (lit_places (t1 @ u) k) \<le> 1" using chunk.prems(2) chunk.hyps(5) by simp
  then have "sorted_wrt (<) (map fst (lit_places (t1 @ u) k))" by (cases "lit_places (t1 @ u) k") auto
  moreover have "sorted_wrt (<) (map fst (concat (map (\<lambda>(t, q). lit_places t q) (pieces (t1 @ u @ k) z)))) \<and>
   (\<forall>off \<in> fst ` set (concat (map (\<lambda>(t, q). lit_places t q) (pieces (t1 @ u @ k) z))). enc_len (t1 @ u @ k) \<le> off)"
    by (rule chunk.IH) (use chunk.prems chunk.hyps(5) in simp_all)
  ultimately show ?case unfolding chunk.hyps(5) using here
    by (auto simp: sorted_wrt_append) (force+)?
qed simp

subsection \<open>The skeleton of such a pattern\<close>

definition compiled :: "32 word list \<Rightarrow> Skeleton \<Rightarrow> bool" where
  "compiled pat sket \<longleftrightarrow> \<not> OnlyWildcard sket \<and> \<not> IsEmpty sket \<and> length (segs sket) = length (places pat) \<and>
     (\<forall>i < length (places pat). single (segs sket ! i) (fst (places pat ! i)) \<and> (0 < i \<longrightarrow> has_prefix_percent (segs sket ! i))) \<and>
     (\<forall>T. like (tokens 0 pat) T \<longleftrightarrow> fit_from (\<lambda>_. True) (zip (segs sket) (map snd (places pat))) 0 T)"

lemma percents_ok_nth: "percents_ok gs \<Longrightarrow> 0 < i \<Longrightarrow> i < length gs \<Longrightarrow> has_prefix_percent (gs ! i)"
proof (induction gs arbitrary: i rule: percents_ok.induct)
  case (3 g h gs)
  then show ?case by (cases "i - 1") (auto simp: nth_Cons split: nat.splits)
qed auto

lemma fold_back_percents:
  "percents_ok (g # hs) \<Longrightarrow> percents_ok (fold_back g hs) \<and> has_prefix_percent (hd (fold_back g hs)) = has_prefix_percent g \<and> fold_back g hs \<noteq> []"
proof (induction g hs rule: fold_back.induct)
  case (2 g h hs)
  show ?case
  proof (cases "HasLiteral h")
    case True
    with 2 show ?thesis by (auto simp: percents_ok_Cons)
  next
    case False
    let ?g = "g\<lparr>suffix_underscore_cnt := u32 (suffix_underscore_cnt g + (prefix_underscore_cnt h + suffix_underscore_cnt h))\<rparr>"
    have "percents_ok (?g # hs)" using "2.prems" by (cases hs) auto
    with "2.IH"(2) [OF False] False show ?thesis by simp
  qed
qed simp

lemma cover_max_percents: "percents_ok (map cover_max gs) = percents_ok gs"
  by (induction gs rule: percents_ok.induct) (simp_all add: cover_max_lang)

lemma Fold_percents:
  assumes "percents_ok gs" "sum_list (map underscores gs) < 2 ^ 32"
  shows "percents_ok (FoldLiteralFreeSegments gs)"
  using fold_front_lang [OF assms, of "\<lambda>_. {}"] fold_back_percents assms(1)
  by (auto simp: FoldLiteralFreeSegments_def cover_max_percents split: list.splits)

lemma literals_of_pieces:
  assumes "\<forall>(t, q) \<in> set ps. length (lit_places t q) \<le> 1 \<and> enc_len (t @ q) < 65536"
  shows "map (\<lambda>g. (literal_offset g, lit_off_p g)) (filter HasLiteral (map piece_segment ps)) =
    map (\<lambda>(off, k). ([off], [(off, 0)])) (concat (map (\<lambda>(t, q). lit_places t q) ps))"
  using assms
proof (induction ps)
  case (Cons p ps)
  obtain t q where p: "p = (t, q)" by force
  with Cons.prems have small: "enc_len (t @ q) < 65536" and one: "length (lit_places t q) \<le> 1" by auto
  have "map (\<lambda>g. (literal_offset g, lit_off_p g)) (filter HasLiteral [piece_segment (t, q)]) =
    map (\<lambda>(off, k). ([off], [(off, 0)])) (lit_places t q)"
  proof (cases "lit_places t q")
    case (Cons l ls)
    then obtain off k where l: "lit_places t q = [(off, k)]" using one by (cases l) auto
    then have "off < 65536" using places_bounds [of off k t q] places_end_bounds [of t q] small by simp
    with l show ?thesis using piece_segment_fields(1,2,7) [OF small]
      by (simp add: segment_of_def Segment_Insert_def empty_segment_def)
  qed (simp add: piece_segment_fields(7) [OF small])
  with Cons show ?case by (cases "HasLiteral (piece_segment (t, q))") (simp_all add: p)
qed simp

lemma fill_literals:
  "map (\<lambda>g. (literal_offset g, lit_off_p g)) (filter HasLiteral (fill_suffix_percent b gs)) =
   map (\<lambda>g. (literal_offset g, lit_off_p g)) (filter HasLiteral gs)"
  by (induction b gs rule: fill_suffix_percent.induct) (auto simp: HasLiteral_def)

lemma compiled_skeleton:
  assumes "valid_cps pat" "enc_len pat < 65536" "single_literals pat" "places pat \<noteq> []"
  shows "compiled pat \<lparr>only_wildcard = False, segs = FoldLiteralFreeSegments (skeleton_segments pat)\<rparr>"
proof -
  let ?gs = "FoldLiteralFreeSegments (skeleton_segments pat)" and ?f = "\<lambda>g. (literal_offset g, lit_off_p g)"
  note flags = segments_flags [OF assms(1,2)]
  have "length (lit_places t q) \<le> 1 \<and> enc_len (t @ q) < 65536" if tq: "(t, q) \<in> set (pieces [] pat)" for t q
  proof
    show "length (lit_places t q) \<le> 1" using assms(3) tq unfolding single_literals_places by blast
    obtain z where "pat = t @ q @ z" using pieces_valid [OF tq] by auto
    with assms(2) show "enc_len (t @ q) < 65536" by simp
  qed
  then have "\<forall>(t, q) \<in> set (pieces [] pat). length (lit_places t q) \<le> 1 \<and> enc_len (t @ q) < 65536" by blast
  from literals_of_pieces [OF this] have lits: "map ?f (filter HasLiteral ?gs) = map (\<lambda>(off, k). ([off], [(off, 0)])) (places pat)"
    unfolding Fold_literals skeleton_segments_def fill_literals places_def .
  have ne: "filter HasLiteral ?gs \<noteq> []"
  proof
    assume "filter HasLiteral ?gs = []"
    with lits assms(4) show False by simp
  qed
  then have "?gs \<noteq> []" by (metis filter.simps(1))
  have all: "\<forall>g \<in> set ?gs. HasLiteral g"
  proof (cases "length ?gs \<le> 1")
    case True
    with ne show ?thesis by (cases ?gs) (auto split: if_splits)
  qed (use Fold_lang [OF flags, of "\<lambda>_. {}"] in blast)
  then have keep: "filter HasLiteral ?gs = ?gs" by (rule filter_True)
  have map: "map ?f ?gs = map (\<lambda>(off, k). ([off], [(off, 0)])) (places pat)"
    using lits unfolding keep .
  have len: "length ?gs = length (places pat)" using arg_cong [OF map, of length] by (simp only: length_map)
  have sgl: "single (?gs ! i) (fst (places pat ! i))" if "i < length (places pat)" for i
  proof -
    obtain off k where ok: "places pat ! i = (off, k)" by force
    have "?f (?gs ! i) = (\<lambda>(off, k). ([off], [(off, 0)])) (places pat ! i)"
      using arg_cong [OF map, of "\<lambda>xs. xs ! i"] that len by simp
    with ok show ?thesis using places_small [OF assms(2), of off k] that nth_mem [OF that] by (simp add: single_def)
  qed
  have "like (tokens 0 pat) T \<longleftrightarrow> fit_from (\<lambda>_. True) (zip ?gs (map snd (places pat))) 0 T" for T
  proof -
    have fst: "map fst (zip ?gs (map snd (places pat))) = ?gs" using len by simp
    have "HasLiteral g \<and> lits_lang pat (literal_offset g) = {k}" if gk: "(g, k) \<in> set (zip ?gs (map snd (places pat)))" for g k
    proof -
      obtain i where i: "i < length (places pat)" "g = ?gs ! i" "k = snd (places pat ! i)"
        using gk len by (auto simp: in_set_zip)
      then show ?thesis using sgl [OF i(1)] places_literal [OF assms(1), of "fst (places pat ! i)" k] nth_mem [OF i(1)]
        by (cases "places pat ! i") (simp add: single_def HasLiteral_def)
    qed
    then have "fit_from (\<lambda>_. True) (zip ?gs (map snd (places pat))) 0 T \<longleftrightarrow> drop 0 T \<in> skeleton_lang (lits_lang pat) ?gs"
      using fit_from_lang [of "zip ?gs (map snd (places pat))" "lits_lang pat" 0 T] Fold_percents [OF flags] len assms(4) \<open>?gs \<noteq> []\<close>
      unfolding fst by simp
    moreover have "skeleton_segments pat \<noteq> []" using Fold_lang [OF flags, of "\<lambda>_. {}"] \<open>?gs \<noteq> []\<close> by blast
    ultimately show ?thesis using skeleton_segments_lang [OF assms(1,2)] Fold_lang [OF flags, of "lits_lang pat"] by simp
  qed
  then show ?thesis
    using len sgl percents_ok_nth [OF Fold_percents [OF flags]] \<open>?gs \<noteq> []\<close>
    by (simp add: compiled_def OnlyWildcard_def IsEmpty_def)
qed

subsection \<open>The build side\<close>

definition skeleton_of :: "32 word list \<Rightarrow> Skeleton" where
  "skeleton_of pat = \<lparr>only_wildcard = (places pat = []), segs = FoldLiteralFreeSegments (skeleton_segments pat)\<rparr>"

lemma head_not_FF:
  assumes "valid_cps t"
  shows "hd (encode t @ [0]) \<noteq> 0xFF"
proof (cases t)
  case (Cons c t')
  with assms have c: "c \<le> 0x7FFFFFFF" by simp
  obtain b bs where w: "writeCodePointUnchecked c = b # bs" using writeCodePoint_nonempty [OF c] by (cases "writeCodePointUnchecked c") auto
  have "b \<noteq> 0xFF"
  proof
    assume "b = 0xFF"
    moreover have "readCodePoint ([] @ writeCodePointUnchecked c @ []) (length ([] :: bytes)) (length ([] :: bytes) + length (writeCodePointUnchecked c) + 0) =
        Some \<lparr>next_pos = length ([] :: bytes) + length (writeCodePointUnchecked c), codePoint = c\<rparr>"
      by (rule read_written [OF c])
    ultimately show False using mb_len_None_iff [of "0xFF"]
      by (simp add: w readCodePoint_def multiByteSequenceLength_eq)
  qed
  then show ?thesis by (simp add: Cons w)
qed simp

lemma insert_literal_ok:
  assumes "containers_ok L" "nonzero_cps pat" "enc_len pat < 65536"
  shows "callback_ok pat [0] (insert_literal L pid)
    (\<lambda>ps ac. built L ac (\<lambda>k. occ k \<union> {ToUint \<lparr>pi_pattern_id = pid, pi_start_pos = off\<rparr> | off. (off, k) \<in> set ps}))"
  unfolding callback_ok_def
proof (intro allI impI)
  fix tok ps ac t1 k t2
  assume tok: "plain_tokenizer tok (encode pat @ [0])" and pat: "pat = t1 @ k @ t2" and k: "k \<noteq> []"
    and b: "built L ac (\<lambda>k. occ k \<union> {ToUint \<lparr>pi_pattern_id = pid, pi_start_pos = off\<rparr> | off. (off, k) \<in> set ps})"
  let ?lit = "\<lparr>start = enc_len t1, len = enc_len k, escape_prefix_before_start = 0\<rparr>"
  let ?x = "\<lparr>pi_pattern_id = pid, pi_start_pos = enc_len t1\<rparr>"
  have p: "tok_p tok = encode t1 @ encode k @ encode t2 @ [0]" "\<not> tok_has_escape tok"
    using tok pat by (simp_all add: plain_tokenizer_def)
  have sv: "StripEscapes tok ?lit = Some (encode k)" using p by (simp add: StripEscapes_def enc_len_def)
  have "insert_literal L pid tok ?lit ac = Insert L (encode k @ encode t2 @ [0]) (length (encode k)) ?x ac"
    using p sv assms(3) pat by (simp add: insert_literal_def Let_def enc_len_def)
  moreover obtain ac' where "Insert L (encode k @ encode t2 @ [0]) (length (encode k)) ?x ac = Some ac'"
      "built L ac' ((\<lambda>k. occ k \<union> {ToUint \<lparr>pi_pattern_id = pid, pi_start_pos = off\<rparr> | off. (off, k) \<in> set ps})
        (k := insert (ToUint ?x) (occ k \<union> {ToUint \<lparr>pi_pattern_id = pid, pi_start_pos = off\<rparr> | off. (off, k) \<in> set ps})))"
    using Insert_built [OF assms(1) b, of k "encode t2 @ [0]" ?x] k assms(2,3) pat
      head_not_FF [of t2] nonzero_valid by (auto simp: enc_len_def)
  moreover have "(\<lambda>k. occ k \<union> {ToUint \<lparr>pi_pattern_id = pid, pi_start_pos = off\<rparr> | off. (off, k) \<in> set ps})
        (k := insert (ToUint ?x) (occ k \<union> {ToUint \<lparr>pi_pattern_id = pid, pi_start_pos = off\<rparr> | off. (off, k) \<in> set ps})) =
      (\<lambda>k'. occ k' \<union> {ToUint \<lparr>pi_pattern_id = pid, pi_start_pos = off\<rparr> | off. (off, k') \<in> set (ps @ [(enc_len t1, k)])})"
    by (auto simp: fun_eq_iff)
  ultimately show "\<exists>s'. insert_literal L pid tok ?lit ac = Some s' \<and>
      built L s' (\<lambda>k'. occ k' \<union> {ToUint \<lparr>pi_pattern_id = pid, pi_start_pos = off\<rparr> | off. (off, k') \<in> set (ps @ [(enc_len t1, k)])})"
    by simp
qed

definition plain_pattern :: "32 word list \<Rightarrow> bool" where
  "plain_pattern pat \<longleftrightarrow> nonzero_cps pat \<and> length (encode pat) < 65536"

definition pattern_ok :: "32 word list \<Rightarrow> bool" where
  "pattern_ok pat \<longleftrightarrow> nonzero_cps pat \<and> length (encode pat) < 65536 \<and> single_literals pat"

lemma analyze_eq:
  assumes "containers_ok L" "built L ac occ" "\<forall>pat \<in> set ps. plain_pattern pat"
  shows "\<exists>ac'. analyze L [] idx (map encode ps) ac = Some (map skeleton_of ps, ac') \<and>
    built L ac' (\<lambda>k. occ k \<union> {ToUint \<lparr>pi_pattern_id = idx + i, pi_start_pos = off\<rparr> | i off. i < length ps \<and> (off, k) \<in> set (places (ps ! i))})"
  using assms(2,3)
proof (induction ps arbitrary: idx ac occ)
  case (Cons pat ps)
  let ?occ = "\<lambda>k. occ k \<union> {ToUint \<lparr>pi_pattern_id = idx, pi_start_pos = off\<rparr> | off. (off, k) \<in> set (places pat)}"
  have ok: "nonzero_cps pat" "enc_len pat < 65536" using Cons.prems(2) by (simp_all add: plain_pattern_def enc_len_def)
  have "built L ac (\<lambda>k. occ k \<union> {ToUint \<lparr>pi_pattern_id = idx, pi_start_pos = off\<rparr> | off. (off, k) \<in> set []})"
    using Cons.prems(1) by simp
  from make_Skeleton_eq [OF insert_literal_ok [OF assms(1) ok] nonzero_valid [OF ok(1)] ok(2) this]
  obtain ac1 where ac1: "make_Skeleton (c_string (encode pat)) (enc_len pat) [] (insert_literal L idx) ac = Some (skeleton_of pat, ac1)"
      "built L ac1 ?occ" by (auto simp: skeleton_of_def)
  from Cons.IH [OF ac1(2), of "idx + 1"] Cons.prems(2) obtain ac2 where
    ac2: "analyze L [] (idx + 1) (map encode ps) ac1 = Some (map skeleton_of ps, ac2)"
      "built L ac2 (\<lambda>k. ?occ k \<union> {ToUint \<lparr>pi_pattern_id = idx + 1 + i, pi_start_pos = off\<rparr> | i off. i < length ps \<and> (off, k) \<in> set (places (ps ! i))})"
    by auto
  have "?occ k \<union> {ToUint \<lparr>pi_pattern_id = idx + 1 + i, pi_start_pos = off\<rparr> | i off. i < length ps \<and> (off, k) \<in> set (places (ps ! i))} =
      occ k \<union> {ToUint \<lparr>pi_pattern_id = idx + i, pi_start_pos = off\<rparr> | i off. i < length (pat # ps) \<and> (off, k) \<in> set (places ((pat # ps) ! i))}" for k
  proof -
    have "{ToUint \<lparr>pi_pattern_id = idx + i, pi_start_pos = off\<rparr> | i off. i < length (pat # ps) \<and> (off, k) \<in> set (places ((pat # ps) ! i))} =
      {ToUint \<lparr>pi_pattern_id = idx + 0, pi_start_pos = off\<rparr> | off. (off, k) \<in> set (places pat)} \<union>
      {ToUint \<lparr>pi_pattern_id = idx + Suc i, pi_start_pos = off\<rparr> | i off. i < length ps \<and> (off, k) \<in> set (places (ps ! i))}"
      (is "?A = ?B \<union> ?C")
    proof (intro equalityI subsetI)
      fix v assume "v \<in> ?A"
      then obtain i off where "v = ToUint \<lparr>pi_pattern_id = idx + i, pi_start_pos = off\<rparr>" "i < length (pat # ps)"
        "(off, k) \<in> set (places ((pat # ps) ! i))" by blast
      then show "v \<in> ?B \<union> ?C" by (cases i) auto
    next
      fix v assume "v \<in> ?B \<union> ?C"
      then show "v \<in> ?A" by (elim UnE CollectE exE conjE) (force intro: exI [of _ 0] exI [of _ "Suc _"])+
    qed
    then show ?thesis by auto
  qed
  with ac1(1) ac2 show ?case
    using ok(2) by (intro exI [of _ ac2]) (simp add: enc_len_def)
qed simp

end
