(* ===== verification/Engine.thy ===== *)
theory Engine
  imports Compiled
begin

text \<open>
  The engine from end to end.  While a text is read every pattern waits for its next segment
  (\<open>waiting\<close>): LIKE holds exactly if the pattern is done or the segments left fit at hits that are still
  to come.  Every hit and every code point keeps that (\<open>waiting_hit\<close>, \<open>waiting_next\<close>), so at the end of
  the text the result is LIKE.
\<close>

subsection \<open>One pattern while a text is read\<close>

text \<open>After \<open>p\<close> code points, with the hits ending there at offsets \<open>D\<close> still to come.\<close>

definition allowed :: "nat \<Rightarrow> nat set \<Rightarrow> nat \<Rightarrow> nat \<Rightarrow> bool" where
  "allowed p D off e \<longleftrightarrow> p < e \<or> (e = p \<and> off \<in> D)"

definition pairs :: "32 word list \<Rightarrow> (Segment \<times> 32 word list) list" where
  "pairs pat = zip (segs (skeleton_of pat)) (map snd (places pat))"

definition waiting :: "32 word list \<Rightarrow> 32 word list \<Rightarrow> nat \<Rightarrow> nat set \<Rightarrow> Matcher \<Rightarrow> bool \<Rightarrow> bool" where
  "waiting pat T p D mt r \<longleftrightarrow>
    (if r then like (tokens 0 pat) T
     else \<exists>i m. i < length (places pat) \<and> matcher_at T mt i m \<and>
       (like (tokens 0 pat) T \<longleftrightarrow> fit_from (allowed p D (fst (places pat ! i))) (drop i (pairs pat)) m T))"

lemma pattern_okD:
  assumes "pattern_ok pat" "places pat \<noteq> []"
  shows "valid_cps pat" "enc_len pat < 65536" "compiled pat (skeleton_of pat)" "distinct (map fst (places pat))"
    "length (segs (skeleton_of pat)) = length (places pat)" "length (pairs pat) = length (places pat)"
proof -
  show v: "valid_cps pat" "enc_len pat < 65536" using assms(1) nonzero_valid by (simp_all add: pattern_ok_def enc_len_def)
  show c: "compiled pat (skeleton_of pat)"
    using compiled_skeleton [OF v _ assms(2)] assms by (simp add: skeleton_of_def pattern_ok_def)
  have "length (lit_places t q) \<le> 1" if "(t, q) \<in> set (pieces [] pat)" for t q
    using assms(1) that unfolding pattern_ok_def single_literals_places by blast
  with places_sorted [OF v(1)] show "distinct (map fst (places pat))"
    unfolding places_def by (metis strict_sorted_iff)
  show "length (segs (skeleton_of pat)) = length (places pat)" "length (pairs pat) = length (places pat)"
    using c by (simp_all add: compiled_def pairs_def)
qed

lemma pairs_step:
  assumes "pattern_ok pat" "i < length (places pat)"
  shows "drop i (pairs pat) = (segs (skeleton_of pat) ! i, snd (places pat ! i)) # drop (i + 1) (pairs pat)"
    "drop (i + 1) (pairs pat) = [] \<longleftrightarrow> i + 1 = length (places pat)"
    "\<forall>(g, k) \<in> set (drop (i + 1) (pairs pat)). has_prefix_percent g \<and> k \<noteq> []"
proof -
  have ne: "places pat \<noteq> []" using assms(2) by auto
  note ok = pattern_okD [OF assms(1) ne]
  show "drop i (pairs pat) = (segs (skeleton_of pat) ! i, snd (places pat ! i)) # drop (i + 1) (pairs pat)"
    using assms(2) ok(5,6) Cons_nth_drop_Suc [of i "pairs pat"] by (simp add: pairs_def)
  show "drop (i + 1) (pairs pat) = [] \<longleftrightarrow> i + 1 = length (places pat)" using assms(2) ok(6) by auto
  show "\<forall>(g, k) \<in> set (drop (i + 1) (pairs pat)). has_prefix_percent g \<and> k \<noteq> []"
  proof clarify
    fix g k assume "(g, k) \<in> set (drop (i + 1) (pairs pat))"
    then obtain j where j: "0 < j" "j < length (places pat)" "(g, k) = pairs pat ! j"
      using ok(6) by (auto simp: in_set_conv_nth) (metis zero_less_Suc add_Suc less_diff_conv add.commute)
    then have "g = segs (skeleton_of pat) ! j" "k = snd (places pat ! j)" using ok(5) by (simp_all add: pairs_def)
    moreover have "places pat ! j \<in> set (places pat)" using j(2) by simp
    ultimately show "has_prefix_percent g \<and> k \<noteq> []"
      using ok(3) j(1,2) places_valid [of "fst (places pat ! j)" "snd (places pat ! j)" pat] by (auto simp: compiled_def)
  qed
qed

lemma place_unique:
  assumes "distinct (map fst (places pat))" "(off, k) \<in> set (places pat)" "i < length (places pat)" "off = fst (places pat ! i)"
  shows "k = snd (places pat ! i)"
  using assms by (metis (no_types) eq_key_imp_eq_value nth_mem prod.collapse)

text \<open>A hit of the pattern is processed.\<close>

lemma waiting_hit:
  assumes pat: "pattern_ok pat" "(off, k) \<in> set (places pat)" and T: "valid_cps T"
    and s: "s + length k = p" "p \<le> length T" "take (length k) (drop s T) = k"
    and it: "it_text it = encode T @ r" "it_text_len it = enc_len T" "pid < length (instances it)" "pid < length (dirty it)"
      "length (instances it) = length build" "build ! pid = skeleton_of pat" "length res = length build"
    and w: "waiting pat T p (insert off D) (instances it ! pid) (res ! pid)"
  shows "\<exists>it1 mt' b. (it1 = it \<or> MarkDirty pid it = Some it1) \<and>
    handle_match build (hit_of pid off k T s) (it, res) = Some (it1\<lparr>instances := (instances it)[pid := mt']\<rparr>, res[pid := b]) \<and>
    waiting pat T p D mt' b"
proof (cases "res ! pid")
  case True
  then have "handle_match build (hit_of pid off k T s) (it, res) = Some (it, res)" using it by (simp add: handle_match_def)
  moreover have "res[pid := True] = res" using True list_update_id [of res pid] by simp
  ultimately show ?thesis using True w it
    by (intro exI [of _ it] exI [of _ "instances it ! pid"] exI [of _ True]) (simp add: waiting_def)
next
  case False
  have same: "res[pid := False] = res" using False list_update_id [of res pid] by simp
  have ne: "places pat \<noteq> []" using pat(2) by auto
  note ok = pattern_okD [OF pat(1) ne]
  let ?sket = "skeleton_of pat" and ?gs = "segs (skeleton_of pat)"
  obtain i m where i: "i < length (places pat)" and mt: "matcher_at T (instances it ! pid) i m"
    and like: "like (tokens 0 pat) T \<longleftrightarrow> fit_from (allowed p (insert off D) (fst (places pat ! i))) (drop i (pairs pat)) m T"
    using w False by (auto simp: waiting_def)
  let ?g = "?gs ! i" and ?k = "snd (places pat ! i)" and ?off = "fst (places pat ! i)"
  note step = pairs_step [OF pat(1) i]
  have k: "k \<noteq> []" "off < 65536" using places_valid [OF pat(2)] places_small [OF ok(2) pat(2)] by blast+
  have g: "single ?g ?off" "0 < i \<Longrightarrow> has_prefix_percent ?g" using ok(3) i by (simp_all add: compiled_def)
  obtain it1 it2 mt' where h: "MarkDirty pid it = Some it1" "it2 = it1\<lparr>instances := (instances it)[pid := mt']\<rparr>"
      "handle_match build (hit_of pid off k T s) (it, res) =
        Some (it2, if off = ?off \<and> hit_ok ?gs i m k T s \<and> i + 1 = length ?gs then res[pid := True] else res)"
      "if off = ?off \<and> hit_ok ?gs i m k T s then matcher_at T mt' (i + 1) (s + length k + suffix_underscore_cnt ?g)
       else mt' = instances it ! pid"
    using handle_match_single [OF T _ g mt k(2) _ s(3) it(1-6) it(7) False] i ok(5) s(1,2) by auto
  show ?thesis
  proof (cases "off = ?off \<and> hit_ok ?gs i m k T s")
    case True
    then have kk: "k = ?k" using place_unique [OF ok(4) pat(2) i] by simp
    have fit: "fits_at ?g ?k m T s" "drop (i + 1) (pairs pat) = [] \<longrightarrow> last_ok ?g ?k T s"
      using True kk ok(5) step(2) by (auto simp: hit_ok_def)
    have rest: "like (tokens 0 pat) T \<longleftrightarrow> fit_from A (drop (i + 1) (pairs pat)) (s + length k + suffix_underscore_cnt ?g) T"
      if "\<And>e. p < e \<Longrightarrow> A e" for A
      unfolding like step(1) kk
      by (rule take_hit [OF fit _ _ _ step(3)]) (use s(1) kk True that in \<open>auto simp: allowed_def\<close>)
    show ?thesis
    proof (cases "i + 1 = length (places pat)")
      case last: True
      have "like (tokens 0 pat) T" using rest [of "\<lambda>_. True"] step(2) last by simp
      with h True last ok(5) show ?thesis
        by (intro exI [of _ it1] exI [of _ mt'] exI [of _ True]) (simp add: waiting_def)
    next
      case more: False
      have "waiting pat T p D mt' False"
        using h(4) True more i rest [of "allowed p D (fst (places pat ! (i + 1)))"]
        unfolding waiting_def
        by (simp, intro exI [of _ "i + 1"] exI [of _ "s + length k + suffix_underscore_cnt ?g"]) (auto simp: allowed_def)
      with h True more ok(5) False it show ?thesis
        by (intro exI [of _ it1] exI [of _ mt'] exI [of _ False]) (auto simp: same)
    qed
  next
    case no: False
    have "like (tokens 0 pat) T \<longleftrightarrow> fit_from (allowed p D ?off) (drop i (pairs pat)) m T"
    proof (cases "off = ?off")
      case True
      then have kk: "k = ?k" using place_unique [OF ok(4) pat(2) i] by simp
      have "\<not> (fits_at ?g ?k m T s \<and> (drop (i + 1) (pairs pat) = [] \<longrightarrow> last_ok ?g ?k T s))"
        using no True kk ok(5) step(2) by (auto simp: hit_ok_def)
      then show ?thesis unfolding like step(1)
        by (rule skip_hit [of _ _ _ _ _ _ p]) (use s(1) kk k(1) in \<open>auto simp: allowed_def\<close>)
    next
      case False
      then have "allowed p (insert off D) ?off = allowed p D ?off" by (simp add: allowed_def fun_eq_iff)
      with like show ?thesis by simp
    qed
    with h no mt i False have "waiting pat T p D mt' False" by (auto simp: waiting_def)
    with h no False it show ?thesis
      by (intro exI [of _ it1] exI [of _ mt'] exI [of _ False]) (auto simp: same)
  qed
qed

subsection \<open>All patterns while a text is read\<close>

definition offs :: "MatchingOutputType list \<Rightarrow> nat \<Rightarrow> nat set" where
  "offs ms pid = {off. \<exists>x \<in> set ms. pattern_index x = \<lparr>pi_pattern_id = pid, pi_start_pos = off\<rparr>}"

definition engine_inv :: "32 word list list \<Rightarrow> 32 word list \<Rightarrow> nat \<Rightarrow> MatchingOutputType list
    \<Rightarrow> TextParserIterator \<Rightarrow> bool list \<Rightarrow> bool" where
  "engine_inv ps T p ms it res \<longleftrightarrow>
    it_text it = encode T @ [0] \<and> it_text_len it = enc_len T \<and> it_queue it = [] \<and>
    length (instances it) = length ps \<and> length (dirty it) = length ps \<and> length res = length ps \<and>
    (\<forall>pid < length ps. if places (ps ! pid) = [] then res ! pid = like (tokens 0 (ps ! pid)) T
       else waiting (ps ! pid) T p (offs ms pid) (instances it ! pid) (res ! pid))"

definition hit_at :: "32 word list list \<Rightarrow> 32 word list \<Rightarrow> nat \<Rightarrow> MatchingOutputType \<Rightarrow> bool" where
  "hit_at ps T p x \<longleftrightarrow> (\<exists>pid off k s. x = hit_of pid off k T s \<and> pid < length ps \<and> (off, k) \<in> set (places (ps ! pid)) \<and>
     s + length k = p \<and> take (length k) (drop s T) = k)"

lemma MarkDirty_fields:
  "MarkDirty pid it = Some it1 \<Longrightarrow> it_text it1 = it_text it \<and> it_text_len it1 = it_text_len it \<and> it_queue it1 = it_queue it \<and>
   instances it1 = instances it \<and> length (dirty it1) = length (dirty it) \<and> text_offset it1 = text_offset it \<and>
   it_ptr it1 = it_ptr it \<and> codepoint_idx it1 = codepoint_idx it"
  by (auto simp: MarkDirty_def bind_eq_Some_conv)

lemma handle_matches_inv:
  assumes "\<forall>pat \<in> set ps. pattern_ok pat" "valid_cps T" "p \<le> length T"
  shows "\<forall>x \<in> set ms. hit_at ps T p x \<Longrightarrow> engine_inv ps T p ms it res \<Longrightarrow>
    \<exists>it' res'. handle_matches (map skeleton_of ps) ms (it, res) = Some (it', res') \<and> engine_inv ps T p [] it' res' \<and>
      text_offset it' = text_offset it \<and> it_ptr it' = it_ptr it \<and> codepoint_idx it' = codepoint_idx it"
proof (induction ms arbitrary: it res)
  case (Cons x ms)
  obtain pid off k s where x: "x = hit_of pid off k T s" "pid < length ps" "(off, k) \<in> set (places (ps ! pid))"
      "s + length k = p" "take (length k) (drop s T) = k"
    using Cons.prems(1) by (auto simp: hit_at_def)
  note inv = Cons.prems(2) [unfolded engine_inv_def]
  have D: "offs (x # ms) pid = insert off (offs ms pid)" "pid' \<noteq> pid \<Longrightarrow> offs (x # ms) pid' = offs ms pid'" for pid'
    by (auto simp: offs_def x(1))
  have "waiting (ps ! pid) T p (insert off (offs ms pid)) (instances it ! pid) (res ! pid)"
  proof -
    have "places (ps ! pid) \<noteq> []" using x(3) by auto
    then show ?thesis using inv x(2) D(1) by metis
  qed
  from waiting_hit [OF _ x(3) assms(2) x(4) assms(3) x(5), of it "[0]" pid "map skeleton_of ps" res, OF _ _ _ _ _ _ _ _ this]
  obtain it1 mt' b where h: "it1 = it \<or> MarkDirty pid it = Some it1"
      "handle_match (map skeleton_of ps) x (it, res) = Some (it1\<lparr>instances := (instances it)[pid := mt']\<rparr>, res[pid := b])"
      "waiting (ps ! pid) T p (offs ms pid) mt' b"
    using inv x(1,2) assms(1) by auto
  let ?it = "it1\<lparr>instances := (instances it)[pid := mt']\<rparr>"
  have f: "it_text it1 = it_text it \<and> it_text_len it1 = it_text_len it \<and> it_queue it1 = it_queue it \<and>
   length (dirty it1) = length (dirty it) \<and> text_offset it1 = text_offset it \<and>
   it_ptr it1 = it_ptr it \<and> codepoint_idx it1 = codepoint_idx it" using h(1) MarkDirty_fields by blast
  have ne: "places (ps ! pid) \<noteq> []" using x(3) by auto
  have "engine_inv ps T p ms ?it (res[pid := b])"
    unfolding engine_inv_def
  proof (intro conjI allI impI)
    fix pid' assume "pid' < length ps"
    then have old: "if places (ps ! pid') = [] then res ! pid' = like (tokens 0 (ps ! pid')) T
       else waiting (ps ! pid') T p (offs (x # ms) pid') (instances it ! pid') (res ! pid')" using inv by blast
    show "if places (ps ! pid') = [] then res[pid := b] ! pid' = like (tokens 0 (ps ! pid')) T
       else waiting (ps ! pid') T p (offs ms pid') (instances ?it ! pid') (res[pid := b] ! pid')"
    proof (cases "pid' = pid")
      case True
      with inv x(2) h(3) ne show ?thesis by simp
    next
      case False
      with old D(2) [OF False] show ?thesis by (cases "places (ps ! pid') = []") simp_all
    qed
  qed (use inv f in simp_all)
  from Cons.IH [OF _ this] Cons.prems(1) h(2) f show ?case by auto
qed auto

text \<open>Before the hits that end at the next position are processed they are all still to come.\<close>

lemma fit_from_cong:
  assumes "\<And>s. fits_at g k m T s \<Longrightarrow> A (s + length k) = A' (s + length k)"
  shows "fit_from A ((g, k) # gs) m T = fit_from A' ((g, k) # gs) m T"
  unfolding fit_from.simps using assms by blast

lemma waiting_next:
  assumes "pattern_ok pat" "waiting pat T p {} mt r"
    "\<And>off k s. (off, k) \<in> set (places pat) \<Longrightarrow> s + length k = Suc p \<Longrightarrow> take (length k) (drop s T) = k \<Longrightarrow> off \<in> D"
  shows "waiting pat T (Suc p) D mt r"
proof (cases r)
  case False
  with assms(2) obtain i m where i: "i < length (places pat)" "matcher_at T mt i m"
      "like (tokens 0 pat) T \<longleftrightarrow> fit_from (allowed p {} (fst (places pat ! i))) (drop i (pairs pat)) m T"
    by (auto simp: waiting_def)
  have "(fst (places pat ! i), snd (places pat ! i)) \<in> set (places pat)" using i(1) by simp
  note hit = assms(3) [OF this]
  have "fit_from (allowed p {} (fst (places pat ! i))) (drop i (pairs pat)) m T =
      fit_from (allowed (Suc p) D (fst (places pat ! i))) (drop i (pairs pat)) m T"
    unfolding pairs_step(1) [OF assms(1) i(1)]
  proof (rule fit_from_cong)
    fix s assume "fits_at (segs (skeleton_of pat) ! i) (snd (places pat ! i)) m T s"
    then have "s + length (snd (places pat ! i)) = Suc p \<Longrightarrow> fst (places pat ! i) \<in> D"
      using hit by (simp add: fits_at_def)
    then show "allowed p {} (fst (places pat ! i)) (s + length (snd (places pat ! i))) =
        allowed (Suc p) D (fst (places pat ! i)) (s + length (snd (places pat ! i)))"
      by (cases "s + length (snd (places pat ! i)) = Suc p") (auto simp: allowed_def)
  qed
  with i False show ?thesis by (auto simp: waiting_def)
qed (use assms(2) in \<open>simp add: waiting_def\<close>)

definition occ_of :: "32 word list list \<Rightarrow> occurrences" where
  "occ_of ps k = {ToUint \<lparr>pi_pattern_id = pid, pi_start_pos = off\<rparr> | pid off. pid < length ps \<and> (off, k) \<in> set (places (ps ! pid))}"

lemma occ_of_ok:
  assumes "\<forall>pat \<in> set ps. pattern_ok pat" "length ps < 2 ^ 32"
  shows "occurrences_ok (occ_of ps)" "finite (occ_of ps k)"
    "pid < length ps \<Longrightarrow> (off, k) \<in> set (places (ps ! pid)) \<Longrightarrow>
      FromUint (ToUint \<lparr>pi_pattern_id = pid, pi_start_pos = off\<rparr>) = \<lparr>pi_pattern_id = pid, pi_start_pos = off\<rparr>"
proof -
  have small: "off < 65536 \<and> length (encode k) < 65536" if "pid < length ps" "(off, k) \<in> set (places (ps ! pid))" for pid off k
  proof -
    have "enc_len (ps ! pid) < 65536" using assms(1) that(1) by (simp add: pattern_ok_def enc_len_def)
    with places_valid [OF that(2)] places_small [OF _ that(2)] show ?thesis by (metis enc_len_def enc_len_simps(2) add_lessD1 add.commute)
  qed
  show "FromUint (ToUint \<lparr>pi_pattern_id = pid, pi_start_pos = off\<rparr>) = \<lparr>pi_pattern_id = pid, pi_start_pos = off\<rparr>"
    if "pid < length ps" "(off, k) \<in> set (places (ps ! pid))"
    using Uint_roundtrip(1) [of "\<lparr>pi_pattern_id = pid, pi_start_pos = off\<rparr>"] small [OF that] that(1) assms(2) by simp
  show "occurrences_ok (occ_of ps)"
    unfolding occurrences_ok_def
  proof (intro conjI allI impI ballI)
    fix k assume "occ_of ps k \<noteq> {}"
    with small show "length (encode k) < 2 ^ 32" by (fastforce simp: occ_of_def)
  next
    fix k v assume "v \<in> occ_of ps k"
    then obtain pid off where v: "v = ToUint \<lparr>pi_pattern_id = pid, pi_start_pos = off\<rparr>" "pid < length ps" "(off, k) \<in> set (places (ps ! pid))"
      by (auto simp: occ_of_def)
    then show "v < 2 ^ 64" using Uint_roundtrip(2) [of "\<lparr>pi_pattern_id = pid, pi_start_pos = off\<rparr>"] small [OF v(2,3)] assms(2) by simp
  qed
  have "occ_of ps k \<subseteq> (\<lambda>(pid, off). ToUint \<lparr>pi_pattern_id = pid, pi_start_pos = off\<rparr>) ` ({..<length ps} \<times> {..<65536})"
    using small by (auto simp: occ_of_def)
  then show "finite (occ_of ps k)" by (rule finite_subset) simp
qed

lemma found_hits:
  assumes "\<forall>pat \<in> set ps. pattern_ok pat" "length ps < 2 ^ 32" "p \<le> length T"
  shows "x \<in> set (found_at (occ_of ps) (take p T)) \<Longrightarrow> hit_at ps T p x"
    "pid < length ps \<Longrightarrow> (off, k) \<in> set (places (ps ! pid)) \<Longrightarrow> s + length k = p \<Longrightarrow> take (length k) (drop s T) = k \<Longrightarrow>
      off \<in> offs (found_at (occ_of ps) (take p T)) pid"
proof -
  note ok = occ_of_ok [OF assms(1,2)]
  assume "x \<in> set (found_at (occ_of ps) (take p T))"
  then obtain k v where kv: "v \<in> occ_of ps k" "suffix k (take p T)" "x = \<lparr>pattern_index = FromUint v, literal_len = length (encode k),
    text_start_pos = length (encode (take p T)) - length (encode k)\<rparr>" using found_at_elem [of x "occ_of ps" "take p T"] ok(2) by metis
  obtain pid off where v: "v = ToUint \<lparr>pi_pattern_id = pid, pi_start_pos = off\<rparr>" "pid < length ps" "(off, k) \<in> set (places (ps ! pid))"
    using kv(1) by (auto simp: occ_of_def)
  obtain u where u: "take p T = u @ k" using kv(2) by (auto simp: suffix_def)
  have len: "length u + length k = p" using arg_cong [OF u, of length] assms(3) by simp
  have "T = u @ k @ drop p T" using u append_take_drop_id [of p T] by simp
  then have s: "take (length u) T = u" "take (length k) (drop (length u) T) = k" by (metis append_eq_conv_conj)+
  have "x = hit_of pid off k T (length u)"
    using kv(3) v(1) ok(3) [OF v(2,3)] s(1) u by (simp add: hit_of_def enc_len_def)
  with v(2,3) len s(2) show "hit_at ps T p x" by (auto simp: hit_at_def)
next
  note ok = occ_of_ok [OF assms(1,2)]
  assume pid: "pid < length ps" "(off, k) \<in> set (places (ps ! pid))" and s: "s + length k = p" "take (length k) (drop s T) = k"
  let ?v = "ToUint \<lparr>pi_pattern_id = pid, pi_start_pos = off\<rparr>"
  have "take p T = take s T @ k" using s by (metis take_add)
  then have "suffix k (take p T)" by (auto simp: suffix_def)
  moreover have "k \<noteq> []" using places_valid [OF pid(2)] by blast
  moreover have v: "?v \<in> occ_of ps k" using pid by (auto simp: occ_of_def)
  ultimately have "k \<in> set (hits {k. occ_of ps k \<noteq> {}} (take p T))" by (auto simp: hits_set)
  moreover have "\<lparr>pattern_index = FromUint ?v, literal_len = length (encode k), text_start_pos = q\<rparr> \<in> set (matches_of (occ_of ps) k q)" for q
    using v ok(2) by (auto simp: matches_of_def)
  ultimately have "\<exists>x \<in> set (found_at (occ_of ps) (take p T)). pattern_index x = FromUint ?v"
    unfolding found_at_def by (auto simp del: enc_len_simps) (metis MatchingOutputType.select_convs(1))
  then show "off \<in> offs (found_at (occ_of ps) (take p T)) pid" using ok(3) [OF pid] by (simp add: offs_def)
qed

subsection \<open>The driver\<close>

lemma drive_loop_inv:
  assumes ps: "\<forall>pat \<in> set ps. pattern_ok pat" "length ps < 2 ^ 32"
    and T: "nonzero_cps T" "length (encode T) < 2 ^ 64"
    and L: "containers_ok L" "ready L ac adr D (occ_of ps)"
  shows "p \<le> length T \<Longrightarrow> engine_inv ps T p [] it res \<Longrightarrow> text_offset it = length (encode (take p T)) \<Longrightarrow>
    it_ptr it = node_of adr (longest_in (stts D) (take p T)) \<Longrightarrow>
    \<exists>it' res'. drive_loop L ac (map skeleton_of ps) (it, res) = Some (it', res') \<and> engine_inv ps T (length T) [] it' res'"
proof (induction "length T - p" arbitrary: p it res)
  case 0
  then have "p = length T" by simp
  with 0 show ?case
    by (subst drive_loop.simps) (simp add: CanAdvanceOneCodePoint_def engine_inv_def enc_len_def)
next
  case (Suc n)
  let ?c = "T ! p" and ?p = "Suc p"
  have p: "p < length T" using Suc.hyps(2) by simp
  have t: "take p T @ ?c # drop ?p T = T" "take p T @ [?c] = take ?p T"
    using p by (simp_all add: Cons_nth_drop_Suc take_Suc_conv_app_nth)
  note inv = Suc.prems(2) [unfolded engine_inv_def]
  have val: "valid_cps T" using T(1) nonzero_valid by simp
  let ?found = "found_at (occ_of ps) (take ?p T)"
  let ?it = "it\<lparr>it_ptr := node_of adr (longest_in (stts D) (take ?p T)),
      text_offset := length (encode (take ?p T)), codepoint_idx := codepoint_idx it + 1\<rparr>"
  have cont: "ContinueParseText L ac it = Some (?it, ?found)"
    using ContinueParseText_eq [OF L occ_of_ok(1) [OF ps], of "take p T" ?c "drop ?p T" it "[0]"]
      T inv Suc.prems(3,4) unfolding t by (simp add: enc_len_def)
  have can: "CanAdvanceOneCodePoint it"
  proof -
    have "enc_len (take p T) < enc_len (take (length T) T)" using enc_len_take_less [OF val, of "length T" p] p by simp
    then show ?thesis using inv Suc.prems(3) by (simp add: CanAdvanceOneCodePoint_def enc_len_def)
  qed
  have "engine_inv ps T ?p ?found (?it\<lparr>emit_buffer := ?found\<rparr>) res"
    unfolding engine_inv_def
  proof (intro conjI allI impI)
    fix pid assume pid: "pid < length ps"
    then have old: "if places (ps ! pid) = [] then res ! pid = like (tokens 0 (ps ! pid)) T
       else waiting (ps ! pid) T p (offs [] pid) (instances it ! pid) (res ! pid)" using inv by blast
    have ok: "pattern_ok (ps ! pid)" using ps(1) pid by simp
    have none: "offs [] pid = {}" by (simp add: offs_def)
    show "if places (ps ! pid) = [] then res ! pid = like (tokens 0 (ps ! pid)) T
       else waiting (ps ! pid) T ?p (offs ?found pid) (instances (?it\<lparr>emit_buffer := ?found\<rparr>) ! pid) (res ! pid)"
    proof (cases "places (ps ! pid) = []")
      case False
      have "waiting (ps ! pid) T ?p (offs ?found pid) (instances it ! pid) (res ! pid)"
        using waiting_next [OF ok, of T p "instances it ! pid" "res ! pid" "offs ?found pid"]
          found_hits(2) [OF ps, of ?p T pid] old False none p pid by simp
      with False show ?thesis by simp
    qed (use old in simp)
  qed (use inv in simp_all)
  moreover have "\<forall>x \<in> set ?found. hit_at ps T ?p x" using found_hits(1) [OF ps, of ?p T] p by simp
  ultimately obtain it' res' where hm: "handle_matches (map skeleton_of ps) ?found (?it\<lparr>emit_buffer := ?found\<rparr>, res) = Some (it', res')"
      "engine_inv ps T ?p [] it' res'" "text_offset it' = length (encode (take ?p T))"
      "it_ptr it' = node_of adr (longest_in (stts D) (take ?p T))"
    using handle_matches_inv [OF ps(1) val, of ?p ?found "?it\<lparr>emit_buffer := ?found\<rparr>" res] p by auto
  have "ProcessDelayedMatching it' = Some it'"
    using hm(2) by (subst ProcessDelayedMatching.simps) (simp add: engine_inv_def FrontReady_def Front_def)
  moreover have "\<exists>it'' res''. drive_loop L ac (map skeleton_of ps) (it', res') = Some (it'', res'') \<and> engine_inv ps T (length T) [] it'' res''"
    by (rule Suc.hyps(1)) (use Suc.hyps(2) p hm in simp_all)
  ultimately show ?case
    using can cont hm(1) by (subst drive_loop.simps) (simp add: IterateOneCodePoint_def)
qed

text \<open>Where the driver starts and what it ends with.\<close>

lemma skeleton_of_wildcard:
  assumes "pattern_ok pat"
  shows "IsEmpty (skeleton_of pat) \<or> OnlyWildcard (skeleton_of pat) \<longleftrightarrow> places pat = []"
proof (cases "places pat = []")
  case True
  then show ?thesis by (simp add: skeleton_of_def OnlyWildcard_def)
next
  case False
  with pattern_okD(3) [OF assms False] show ?thesis by (simp add: compiled_def)
qed

lemma wild_pattern:
  "set pat \<subseteq> {PERCENT_CP, UNDERSCORE_CP} \<Longrightarrow> only_wild (encode pat) \<and> wild_cps (encode pat) = pat"
  by (induction pat) (auto simp: only_wild_def wild_cps_def writeCodePointUnchecked_def PERCENT_CP_def UNDERSCORE_CP_def
      PERCENTAGE_def UNDERSCORE_def)

lemma ApplyWildcardOnly_eq:
  assumes "valid_cps T"
  shows "\<forall>pat \<in> set ps. pattern_ok pat \<Longrightarrow>
    ApplyWildcardOnly (map encode ps) (map skeleton_of ps) (c_string (encode T)) (length (encode T)) =
      Some (map (\<lambda>pat. places pat = [] \<and> like (tokens 0 pat) T) ps)"
proof (induction ps)
  case (Cons pat ps)
  have len: "length (encode pat) < 65536" using Cons.prems by (simp add: pattern_ok_def)
  have "SpecialMatchEmptyPattern (c_string (encode pat)) (length (encode pat)) (c_string (encode T)) (length (encode T)) [] =
      Some (like (tokens 0 pat) T)" if "places pat = []"
    using SpecialMatchEmptyPattern_eq [of "encode pat" T] wild_pattern [of pat] that assms len by (simp add: places_eq_Nil)
  with Cons skeleton_of_wildcard [of pat] len show ?case by simp
qed simp

lemma initial_matchers_eq:
  "\<forall>pat \<in> set ps. pattern_ok pat \<Longrightarrow> \<exists>ms. initial_matchers (map skeleton_of ps) = Some ms \<and> length ms = length ps \<and>
     (\<forall>mt \<in> set ms. matcher_at T mt 0 0)"
proof (induction ps)
  case (Cons pat ps)
  have mk: "matcher_at T (make_Matcher n) 0 0" for n by (simp add: matcher_at_def make_Matcher_def)
  have "segs (skeleton_of pat) \<noteq> []" if "\<not> IsEmpty (skeleton_of pat)" using that by (simp add: IsEmpty_def)
  with Cons mk show ?case by (auto simp: InitializeMatcher_def IsEmpty_def)
qed simp

lemma waiting_start:
  assumes "pattern_ok pat" "places pat \<noteq> []" "matcher_at T mt 0 0"
  shows "waiting pat T 0 {} mt False"
proof -
  note ok = pattern_okD [OF assms(1,2)]
  have 0: "0 < length (places pat)" using assms(2) by simp
  have "places pat ! 0 \<in> set (places pat)" using 0 by simp
  then have "0 < length (snd (places pat ! 0))" using places_valid [of "fst (places pat ! 0)" "snd (places pat ! 0)" pat] by auto
  then have "fit_from (\<lambda>_. True) (drop 0 (pairs pat)) 0 T = fit_from (allowed 0 {} (fst (places pat ! 0))) (drop 0 (pairs pat)) 0 T"
    unfolding pairs_step(1) [OF assms(1) 0] by (intro fit_from_cong) (simp add: allowed_def)
  moreover have "like (tokens 0 pat) T \<longleftrightarrow> fit_from (\<lambda>_. True) (pairs pat) 0 T" using ok(3) by (simp add: compiled_def pairs_def)
  ultimately have "0 < length (places pat) \<and> matcher_at T mt 0 0 \<and>
      (like (tokens 0 pat) T \<longleftrightarrow> fit_from (allowed 0 {} (fst (places pat ! 0))) (drop 0 (pairs pat)) 0 T)"
    using 0 assms(3) by simp
  then show ?thesis unfolding waiting_def by (simp only: if_False) blast
qed

lemma waiting_end:
  assumes "pattern_ok pat" "waiting pat T (length T) {} mt r"
  shows "r = like (tokens 0 pat) T"
proof (cases r)
  case False
  with assms(2) obtain i m where i: "i < length (places pat)"
      "like (tokens 0 pat) T \<longleftrightarrow> fit_from (allowed (length T) {} (fst (places pat ! i))) (drop i (pairs pat)) m T"
    by (auto simp: waiting_def)
  have "\<not> fit_from (allowed (length T) {} (fst (places pat ! i))) (drop i (pairs pat)) m T"
    unfolding pairs_step(1) [OF assms(1) i(1)] by (auto simp: allowed_def fits_at_def elim!: fit_fromE)
  with i False show ?thesis by simp
qed (use assms(2) in \<open>simp add: waiting_def\<close>)

lemma engine_eq:
  assumes "containers_ok L" "\<forall>pat \<in> set pats. nonzero_cps pat \<and> length (encode pat) < 65536 \<and> single_literals pat"
    "length pats < 2 ^ 32" "nonzero_cps t" "length (encode t) < 2 ^ 64"
  shows "AhoCorasickMultiplePatterns L (c_string (encode t)) (length (encode t)) (map encode pats) [] =
    Some (map (\<lambda>pat. like (tokens 0 pat) t) pats)"
proof -
  have ps: "\<forall>pat \<in> set pats. pattern_ok pat" using assms(2) by (simp add: pattern_ok_def)
  have val: "valid_cps t" using assms(4) nonzero_valid by simp
  obtain ac where ac: "analyze L [] 0 (map encode pats) (AhoCorasick L) = Some (map skeleton_of pats, ac)"
      "built L ac (occ_of pats)"
    using analyze_eq [OF assms(1) built_empty [OF assms(1)], of pats 0] ps by (auto simp: occ_of_def [abs_def] pattern_ok_def plain_pattern_def)
  obtain ac' adr D where ac': "BuildSuffixLink ac = Some ac'" "ready L ac' adr D (occ_of pats)"
    using BuildSuffixLink_ready [OF ac(2)] by blast
  let ?res = "map (\<lambda>pat. places pat = [] \<and> like (tokens 0 pat) t) pats"
  obtain ms where ms: "initial_matchers (map skeleton_of pats) = Some ms" "length ms = length pats"
      "\<forall>mt \<in> set ms. matcher_at t mt 0 0"
    using initial_matchers_eq [OF ps, of t] by blast
  obtain it where it: "make_text_iterator (c_string (encode t)) (length (encode t)) (map skeleton_of pats) ac' = Some it"
      "it_text it = encode t @ [0]" "it_text_len it = enc_len t" "it_queue it = []" "instances it = ms"
      "length (dirty it) = length pats" "text_offset it = 0" "it_ptr it = root"
    by (simp add: make_text_iterator_def make_iterator_def ms(1) c_string_def enc_len_def GetRoot_def)
  have "engine_inv pats t 0 [] it ?res"
    unfolding engine_inv_def
  proof (intro conjI allI impI)
    fix pid assume pid: "pid < length pats"
    have "waiting (pats ! pid) t 0 {} (ms ! pid) False" if "places (pats ! pid) \<noteq> []"
      using waiting_start [OF _ that, of t "ms ! pid"] ps pid ms by simp
    then show "if places (pats ! pid) = [] then ?res ! pid = like (tokens 0 (pats ! pid)) t
       else waiting (pats ! pid) t 0 (offs [] pid) (instances it ! pid) (?res ! pid)"
      using pid it(5) by (simp add: offs_def)
  qed (use it ms in simp_all)
  moreover have "it_ptr it = node_of adr (longest_in (stts D) (take 0 t))"
    using it(8) ac'(2) adr_root [of "trie ac'"] by (auto simp: ready_def)
  ultimately obtain it' res' where run: "drive_loop L ac' (map skeleton_of pats) (it, ?res) = Some (it', res')"
      "engine_inv pats t (length t) [] it' res'"
    using drive_loop_inv [OF ps assms(3,4,5,1) ac'(2), of 0 it ?res] it(7) by auto
  have "res' = map (\<lambda>pat. like (tokens 0 pat) t) pats"
  proof (rule nth_equalityI)
    show "length res' = length (map (\<lambda>pat. like (tokens 0 pat) t) pats)" using run(2) by (simp add: engine_inv_def)
  next
    fix pid assume "pid < length res'"
    then have pid: "pid < length pats" using run(2) by (simp add: engine_inv_def)
    have "offs [] pid = {}" by (simp add: offs_def)
    then have "if places (pats ! pid) = [] then res' ! pid = like (tokens 0 (pats ! pid)) t
       else waiting (pats ! pid) t (length t) {} (instances it' ! pid) (res' ! pid)"
      using run(2) pid unfolding engine_inv_def by metis
    then show "res' ! pid = map (\<lambda>pat. like (tokens 0 pat) t) pats ! pid"
      using waiting_end [of "pats ! pid" t] ps pid by (cases "places (pats ! pid) = []") auto
  qed
  then show ?thesis
    using ac(1) ac'(1) it(1) run(1) ApplyWildcardOnly_eq [OF val ps]
    by (simp add: AhoCorasickMultiplePatterns_def PatternAnalyzer_def)
qed

subsection \<open>Properties\<close>

text \<open>Property C3: the wildcard join answers LIKE.  For any list of patterns without escape, of at most
  65535 bytes and at most one literal between two percent signs, and any text without the code point 0,
  compiling the patterns, building the automaton and driving the text through it once returns, never
  faults, and gives for every pattern whether the text matches it as LIKE defines it.\<close>

theorem engine_is_like:
  assumes "containers_ok L" "\<forall>pat \<in> set pats. nonzero_cps pat \<and> length (encode pat) < 65536 \<and> single_literals pat"
    "length pats < 2 ^ 32" "nonzero_cps t" "length (encode t) < 2 ^ 64"
  shows "AhoCorasickMultiplePatterns L (c_string (encode t)) (length (encode t)) (map encode pats) [] =
    Some (map (\<lambda>pat. like (tokens 0 pat) t) pats)"
  by (rule engine_eq [OF assms])

theorem engine_is_like_witness:
  "AhoCorasickMultiplePatterns list_containers (c_string (encode [0x61, 0x20AC, 0x62])) (length (encode [0x61, 0x20AC, 0x62]))
     (map encode [[0x25, 0x20AC, 0x5F], [0x61, 0x25]]) [] = Some [like (tokens 0 [0x25, 0x20AC, 0x5F]) [0x61, 0x20AC, 0x62],
       like (tokens 0 [0x61, 0x25]) [0x61, 0x20AC, 0x62]]"
  using engine_is_like [OF list_containers_ok, of "[[0x25, 0x20AC, 0x5F], [0x61, 0x25]]" "[0x61, 0x20AC, 0x62]"]
  by (simp add: single_literals_def writeCodePointUnchecked_def PERCENT_CP_def UNDERSCORE_CP_def)

end
