(* ===== verification/Reuse.thy ===== *)
theory Reuse
  imports Engine
begin

text \<open>
  One iterator for many texts.  \<open>clean\<close> says that only the matchers on the dirty list have left their initial
  state and that only they have entries in the delayed queue; driving a text keeps it, and from a
  clean iterator \<open>ResetText\<close> makes a new one.  The rows of the probe side can therefore share an
  iterator, which composes with the engine to the whole join.
\<close>

subsection \<open>An iterator between two texts\<close>

definition special :: "Skeleton \<Rightarrow> bool" where
  "special sket \<longleftrightarrow> IsEmpty sket \<or> OnlyWildcard sket"

text \<open>Only matchers on the dirty list have left their initial state, and only they have entries in the queue.\<close>

definition clean :: "analyzer \<Rightarrow> Matcher list \<Rightarrow> TextParserIterator \<Rightarrow> bool" where
  "clean bs ms it \<longleftrightarrow> length (instances it) = length bs \<and> length (dirty it) = length bs \<and>
     (\<forall>p \<in> set (dirty_list it). p < length bs \<and> \<not> special (bs ! p)) \<and>
     (\<forall>p < length bs. p \<notin> set (dirty_list it) \<longrightarrow> instances it ! p = ms ! p \<and> dirty it ! p = 0) \<and>
     (\<forall>x \<in> set (it_queue it). pattern_id x \<in> set (dirty_list it))"

lemma cleanD:
  assumes "clean bs ms it"
  shows "length (instances it) = length bs" "length (dirty it) = length bs"
    "p \<in> set (dirty_list it) \<Longrightarrow> p < length bs \<and> \<not> special (bs ! p)"
    "p < length bs \<Longrightarrow> p \<notin> set (dirty_list it) \<Longrightarrow> instances it ! p = ms ! p \<and> dirty it ! p = 0"
    "x \<in> set (it_queue it) \<Longrightarrow> pattern_id x \<in> set (dirty_list it)"
  using assms by (simp_all add: clean_def)

lemma Reset_fresh: "Reset n c = LRUCache n"
  by (cases c) (simp add: Reset_def LRUCache_def)

lemma ResetMatcher_fresh: "segs sket \<noteq> [] \<Longrightarrow> ResetMatcher sket m = InitializeMatcher sket"
  by (cases m) (simp add: ResetMatcher_def InitializeMatcher_def Matcher_Reset_def make_Matcher_def Reset_fresh)

lemma initial_matchers_nth:
  "initial_matchers bs = Some ms \<Longrightarrow> length ms = length bs \<and>
    (\<forall>p < length bs. \<not> special (bs ! p) \<longrightarrow> InitializeMatcher (bs ! p) = Some (ms ! p))"
proof (induction bs arbitrary: ms)
  case (Cons sket bs)
  then show ?case by (auto simp: special_def nth_Cons split: Option.bind_splits nat.split if_splits)
qed simp

lemma ResetMatcher_initial:
  "initial_matchers bs = Some ms \<Longrightarrow> p < length bs \<Longrightarrow> \<not> special (bs ! p) \<Longrightarrow> ResetMatcher (bs ! p) m = Some (ms ! p)"
  using initial_matchers_nth [of bs ms] by (simp add: ResetMatcher_fresh special_def IsEmpty_def)

lemma reset_dirty_eq:
  assumes "initial_matchers bs = Some ms" "\<forall>p \<in> set ids. p < length bs \<and> \<not> special (bs ! p)"
    "length (instances it) = length bs" "length (dirty it) = length bs"
  shows "\<exists>mt ds. reset_dirty bs ids it = Some (it\<lparr>instances := mt, dirty := ds\<rparr>) \<and>
    length mt = length bs \<and> length ds = length bs \<and>
    (\<forall>p < length bs. mt ! p = (if p \<in> set ids then ms ! p else instances it ! p) \<and>
      ds ! p = (if p \<in> set ids then 0 else dirty it ! p))"
  using assms(2-4)
proof (induction ids arbitrary: it)
  case Nil
  then show ?case by (intro exI [of _ "instances it"] exI [of _ "dirty it"]) simp
next
  case (Cons p ids)
  let ?it = "it\<lparr>instances := (instances it)[p := ms ! p], dirty := (dirty it)[p := 0]\<rparr>"
  have p: "p < length bs" "\<not> special (bs ! p)" using Cons.prems(1) by simp_all
  have "reset_dirty bs (p # ids) it = reset_dirty bs ids ?it"
    using p Cons.prems(2,3) ResetMatcher_initial [OF assms(1) p] by (simp add: rd_def)
  moreover obtain mt ds where "reset_dirty bs ids ?it = Some (?it\<lparr>instances := mt, dirty := ds\<rparr>)"
    "length mt = length bs" "length ds = length bs"
    "\<And>q. q < length bs \<Longrightarrow> mt ! q = (if q \<in> set ids then ms ! q else instances ?it ! q) \<and>
      ds ! q = (if q \<in> set ids then 0 else dirty ?it ! q)"
    using Cons.IH [of ?it] Cons.prems by auto
  ultimately show ?case using p(1) Cons.prems(2,3)
    by (intro exI [of _ mt] exI [of _ ds]) (auto simp: nth_list_update)
qed

lemma ResetText_fresh:
  assumes "initial_matchers bs = Some ms" "clean bs ms it"
  shows "\<exists>it'. make_text_iterator t n bs ac = Some it' \<and> clean bs ms it' \<and>
    ResetText bs ac t n it = Some (it'\<lparr>emit_buffer := emit_buffer it\<rparr>)"
proof -
  note C = cleanD [OF assms(2)]
  obtain mt ds where r: "reset_dirty bs (dirty_list it) it = Some (it\<lparr>instances := mt, dirty := ds\<rparr>)"
    "length mt = length bs" "length ds = length bs"
    "\<And>p. p < length bs \<Longrightarrow> mt ! p = (if p \<in> set (dirty_list it) then ms ! p else instances it ! p) \<and>
      ds ! p = (if p \<in> set (dirty_list it) then 0 else dirty it ! p)"
    using reset_dirty_eq [OF assms(1) _ C(1,2)] C(3) by blast
  have "length ms = length bs" using initial_matchers_nth [OF assms(1)] by blast
  then have "mt = ms" "ds = replicate (length bs) 0" using r C(4) by (auto intro!: nth_equalityI)
  moreover have "Clear q = Some []" for q
    by (induction q) (subst Clear.simps, simp add: Empty_def Pop_def)+
  ultimately show ?thesis using assms(1) r(1) \<open>length ms = length bs\<close>
    by (auto simp: make_text_iterator_def make_iterator_def ResetText_def clean_def)
qed

subsection \<open>The buffer of emitted matches carries nothing over\<close>

lemma ContinueParseText_emit:
  "ContinueParseText L ac (it\<lparr>emit_buffer := e\<rparr>) =
    map_option (\<lambda>(it', out). (it'\<lparr>emit_buffer := e\<rparr>, out)) (ContinueParseText L ac it)"
  by (auto simp: ContinueParseText_def Let_def split: Option.bind_split)

lemma IterateOneCodePoint_emit:
  "IterateOneCodePoint L ac bs (it\<lparr>emit_buffer := e\<rparr>, r) = IterateOneCodePoint L ac bs (it, r)"
  by (auto simp: IterateOneCodePoint_def ContinueParseText_emit split: Option.bind_split)

lemma drive_loop_emit:
  "map_option snd (drive_loop L ac bs (it\<lparr>emit_buffer := e\<rparr>, r)) = map_option snd (drive_loop L ac bs (it, r))"
  by (subst (1 2) drive_loop.simps) (simp add: IterateOneCodePoint_emit CanAdvanceOneCodePoint_def)

subsection \<open>Driving a text keeps the iterator clean\<close>

definition names_ok :: "analyzer \<Rightarrow> MatchingOutputType \<Rightarrow> bool" where
  "names_ok bs x \<longleftrightarrow> pi_pattern_id (pattern_index x) < length bs \<and> \<not> special (bs ! pi_pattern_id (pattern_index x))"

text \<open>Every place in the literal map is in a pattern that has literals.\<close>

definition places_ok :: "('b, 'm) containers \<Rightarrow> 'm automaton \<Rightarrow> analyzer \<Rightarrow> bool" where
  "places_ok L ac bs \<longleftrightarrow> (\<forall>t e v. cmap_find L (literal_map ac) t = Some e \<longrightarrow> v \<in> set (bitmap_elems L (bitmap e)) \<longrightarrow>
     pi_pattern_id (FromUint v) < length bs \<and> \<not> special (bs ! pi_pattern_id (FromUint v)))"

lemma AppendResult_names:
  "places_ok L ac bs \<Longrightarrow> AppendResult L ac offset leaf n out = Some out' \<Longrightarrow> \<forall>x \<in> set out. names_ok bs x \<Longrightarrow>
    \<forall>x \<in> set out'. names_ok bs x"
  by (auto simp: AppendResult_def Let_def names_ok_def places_ok_def split: Option.bind_splits)

lemma append_terminal_names:
  "places_ok L ac bs \<Longrightarrow> append_terminal L ac offset p n out = Some out' \<Longrightarrow> \<forall>x \<in> set out. names_ok bs x \<Longrightarrow>
    \<forall>x \<in> set out'. names_ok bs x"
  using AppendResult_names by (fastforce simp: append_terminal_def split: Option.bind_splits if_splits)

lemma output_chain_names:
  assumes "output_chain L ac offset p n out = Some out'" "places_ok L ac bs" "\<forall>x \<in> set out. names_ok bs x"
  shows "\<forall>x \<in> set out'. names_ok bs x"
proof -
  have "places_ok L ac bs \<longrightarrow> (\<forall>x \<in> set out. names_ok bs x) \<longrightarrow> (\<forall>x \<in> set out'. names_ok bs x)"
  proof (rule output_chain.raw_induct [where P = "\<lambda>L ac offset p n out out'. places_ok L ac bs \<longrightarrow>
      (\<forall>x \<in> set out. names_ok bs x) \<longrightarrow> (\<forall>x \<in> set out'. names_ok bs x)", OF _ assms(1)])
    fix rec L ac offset p n out out'
    assume IH: "\<And>L ac offset p n out out'. rec L ac offset p n out = Some out' \<Longrightarrow>
        places_ok L ac bs \<longrightarrow> (\<forall>x \<in> set out. names_ok bs x) \<longrightarrow> (\<forall>x \<in> set out'. names_ok bs x)"
      and body: "(if p \<noteq> Null then append_terminal L ac offset p n out \<bind>
          (\<lambda>out. getOutputLink (trie ac) p \<bind> (\<lambda>p. rec L ac offset p n out)) else Some out) = Some out'"
    show "places_ok L ac bs \<longrightarrow> (\<forall>x \<in> set out. names_ok bs x) \<longrightarrow> (\<forall>x \<in> set out'. names_ok bs x)"
    proof (cases "p = Null")
      case False
      with body obtain out1 q where rec: "append_terminal L ac offset p n out = Some out1" "rec L ac offset q n out1 = Some out'"
        by (auto split: Option.bind_splits)
      show ?thesis using append_terminal_names [OF _ rec(1)] IH [OF rec(2)] by blast
    qed (use body in simp)
  qed
  with assms(2,3) show ?thesis by blast
qed

lemma ContinueParseText_names:
  assumes "places_ok L ac bs" "ContinueParseText L ac it = Some (it', out)"
  shows "\<forall>x \<in> set out. names_ok bs x" "instances it' = instances it" "dirty it' = dirty it"
    "dirty_list it' = dirty_list it" "it_queue it' = it_queue it"
proof -
  show "\<forall>x \<in> set out. names_ok bs x"
    using assms append_terminal_names [OF assms(1), of _ _ _ "[]"] output_chain_names [OF _ assms(1)]
    by (auto simp: ContinueParseText_def Let_def split: Option.bind_splits if_splits) (blast+)?
  show "instances it' = instances it" "dirty it' = dirty it" "dirty_list it' = dirty_list it" "it_queue it' = it_queue it"
    using assms(2) by (auto simp: ContinueParseText_def Let_def split: Option.bind_splits)
qed

lemma TryMatchingLiteral_queue:
  "TryMatchingLiteral sket x i q t n m = Some (ok, m', q') \<Longrightarrow>
    y \<in> set q' \<Longrightarrow> y \<in> set q \<or> pattern_id y = pi_pattern_id (pattern_index x)"
  by (auto simp: TryMatchingLiteral_def Let_def Schedule_def split: Option.bind_splits if_splits)

lemma clean_write:
  assumes "clean bs ms it" "p \<in> set (dirty_list it)" "dirty it' = dirty it" "dirty_list it' = dirty_list it"
    "instances it' = (instances it)[p := m]" "\<And>x. x \<in> set (it_queue it') \<Longrightarrow> pattern_id x \<in> set (dirty_list it)"
  shows "clean bs ms it'"
  using assms by (auto simp: clean_def nth_list_update)

lemma MarkDirty_clean:
  assumes "clean bs ms it" "p < length bs" "\<not> special (bs ! p)" "MarkDirty p it = Some it'"
  shows "clean bs ms it' \<and> p \<in> set (dirty_list it') \<and> it_queue it' = it_queue it"
  using assms by (auto simp: MarkDirty_def clean_def rd_def nth_list_update split: if_splits Option.bind_splits)

lemma handle_match_clean:
  assumes "clean bs ms it" "names_ok bs x" "handle_match bs x (it, r) = Some (it', r')"
  shows "clean bs ms it'"
proof (cases "r ! pi_pattern_id (pattern_index x)")
  case True
  with assms show ?thesis by (auto simp: handle_match_def Let_def rd_eq_Some_iff split: Option.bind_splits)
next
  case False
  let ?p = "pi_pattern_id (pattern_index x)"
  have p: "?p < length bs" "\<not> special (bs ! ?p)" using assms(2) by (simp_all add: names_ok_def)
  obtain it1 where it1: "MarkDirty ?p it = Some it1"
    using assms(3) False by (auto simp: handle_match_def Let_def rd_eq_Some_iff split: Option.bind_splits)
  note M = MarkDirty_clean [OF assms(1) p it1]
  obtain sket ok m q where tried: "TryMatchingLiteral sket x (codepoint_idx it1) (it_queue it1) (it_text it1) (it_text_len it1)
      (instances it ! ?p) = Some (ok, m, q)"
    and sket: "sket = bs ! ?p"
    using assms(3) False it1
    by (auto simp: handle_match_def Let_def rd_eq_Some_iff split: Option.bind_splits)
  have rest: "dirty it' = dirty it1" "dirty_list it' = dirty_list it1" "it_queue it' = q"
      "\<exists>m'. instances it' = (instances it1)[?p := m']"
    using assms(3) False it1 tried unfolding sket
    by (auto simp: handle_match_def Let_def rd_eq_Some_iff split: Option.bind_splits if_splits prod.splits optional.splits)
  then obtain m' where m': "instances it' = (instances it1)[?p := m']" by blast
  have "pattern_id y \<in> set (dirty_list it1)" if "y \<in> set q" for y
    using TryMatchingLiteral_queue [OF tried that] M cleanD(5) [of bs ms it1 y] by auto
  then show ?thesis using clean_write [OF _ _ rest(1,2) m'] M rest(3) by simp
qed

lemma handle_matches_clean:
  "clean bs ms it \<Longrightarrow> \<forall>x \<in> set xs. names_ok bs x \<Longrightarrow> handle_matches bs xs (it, r) = Some (it', r') \<Longrightarrow> clean bs ms it'"
proof (induction xs arbitrary: it r)
  case (Cons x xs)
  then obtain it1 r1 where "handle_match bs x (it, r) = Some (it1, r1)" "handle_matches bs xs (it1, r1) = Some (it', r')"
    by (auto split: Option.bind_splits)
  then show ?case using Cons.IH [of it1 r1] handle_match_clean [of bs ms it x r it1 r1] Cons.prems(1,2) by simp
qed simp

lemma IterateOneCodePoint_clean:
  assumes "places_ok L ac bs" "clean bs ms it" "IterateOneCodePoint L ac bs (it, r) = Some (it', r')"
  shows "clean bs ms it'"
proof -
  obtain it1 out where c: "ContinueParseText L ac it = Some (it1, out)" "handle_matches bs out (it1\<lparr>emit_buffer := out\<rparr>, r) = Some (it', r')"
    using assms(3) by (auto simp: IterateOneCodePoint_def split: Option.bind_splits)
  have "clean bs ms (it1\<lparr>emit_buffer := out\<rparr>)" using assms(2) ContinueParseText_names(2-5) [OF assms(1) c(1)] by (simp add: clean_def)
  from handle_matches_clean [OF this ContinueParseText_names(1) [OF assms(1) c(1)] c(2)] show ?thesis .
qed

lemma ProcessDelayedMatching_clean:
  assumes "ProcessDelayedMatching it = Some it'" "clean bs ms it"
  shows "clean bs ms it'"
proof -
  have "clean bs ms it \<longrightarrow> clean bs ms it'"
  proof (rule ProcessDelayedMatching.raw_induct [where P = "\<lambda>it it'. clean bs ms it \<longrightarrow> clean bs ms it'", OF _ assms(1)])
    fix rec it it'
    assume IH: "\<And>it it'. rec it = Some it' \<Longrightarrow> clean bs ms it \<longrightarrow> clean bs ms it'"
      and body: "(if FrontReady (codepoint_idx it) (it_queue it)
        then Front (it_queue it) \<bind> (\<lambda>item. rd (instances it) (pattern_id item) \<bind>
          (\<lambda>m. Matcher_Upsert (sub64 (text_offset it) (next_pattern_pos item)) (prev_pattern_pos item) m \<bind>
          (\<lambda>m. Pop (it_queue it) \<bind> (\<lambda>q. rec (it\<lparr>instances := (instances it)[pattern_id item := m], it_queue := q\<rparr>)))))
        else Some it) = Some it'"
    show "clean bs ms it \<longrightarrow> clean bs ms it'"
    proof (cases "FrontReady (codepoint_idx it) (it_queue it)")
      case True
      with body obtain item m q where s: "Front (it_queue it) = Some item" "Pop (it_queue it) = Some q"
        "rec (it\<lparr>instances := (instances it)[pattern_id item := m], it_queue := q\<rparr>) = Some it'"
        by (auto split: Option.bind_splits)
      have "clean bs ms (it\<lparr>instances := (instances it)[pattern_id item := m], it_queue := q\<rparr>)" if "clean bs ms it"
        by (rule clean_write [where m = m, OF that]) (use s cleanD(5) [OF that] in \<open>auto simp: Front_def Pop_def split: list.splits\<close>)
      with IH [OF s(3)] show ?thesis by blast
    qed (use body in simp)
  qed
  with assms(2) show ?thesis by blast
qed

lemma drive_loop_clean:
  assumes "drive_loop L ac bs (it, r) = Some (it', r')" "places_ok L ac bs" "clean bs ms it"
  shows "clean bs ms it'"
proof -
  have "places_ok L ac bs \<longrightarrow> clean bs ms (fst (it, r)) \<longrightarrow> clean bs ms (fst (it', r'))"
  proof (rule drive_loop.raw_induct [where P = "\<lambda>L ac bs st st'. places_ok L ac bs \<longrightarrow> clean bs ms (fst st) \<longrightarrow> clean bs ms (fst st')", OF _ assms(1)])
    fix rec L ac bs st st'
    assume IH: "\<And>L ac bs st st'. rec L ac bs st = Some st' \<Longrightarrow> places_ok L ac bs \<longrightarrow> clean bs ms (fst st) \<longrightarrow> clean bs ms (fst st')"
      and body: "(if CanAdvanceOneCodePoint (fst st)
        then IterateOneCodePoint L ac bs st \<bind> (\<lambda>(it, result). ProcessDelayedMatching it \<bind> (\<lambda>it. rec L ac bs (it, result)))
        else Some st) = Some st'"
    show "places_ok L ac bs \<longrightarrow> clean bs ms (fst st) \<longrightarrow> clean bs ms (fst st')"
    proof (cases "CanAdvanceOneCodePoint (fst st)")
      case True
      with body obtain it1 r1 it2 where s: "IterateOneCodePoint L ac bs st = Some (it1, r1)"
        "ProcessDelayedMatching it1 = Some it2" "rec L ac bs (it2, r1) = Some st'"
        by (auto split: Option.bind_splits)
      then show ?thesis
        using IterateOneCodePoint_clean [of L ac bs ms "fst st" "snd st" it1 r1] ProcessDelayedMatching_clean [OF s(2)] IH [OF s(3)]
        by simp
    qed (use body in simp)
  qed
  with assms(2,3) show ?thesis by simp
qed

subsection \<open>Reused and fresh iterators\<close>

text \<open>One text after the other through one iterator.\<close>

fun drive_all :: "('b, 'm) containers \<Rightarrow> 'm BuildSide \<Rightarrow> TextParserIterator \<Rightarrow> bytes list \<Rightarrow> bool list list option" where
  "drive_all L b it [] = Some []"
| "drive_all L b it (row # rows) = do {
     (it, result) \<leftarrow> Drive L b it row;
     results \<leftarrow> drive_all L b it rows;
     Some (result # results) }"

lemma Drive_fresh:
  assumes "initial_matchers (bs_analyzer b) = Some ms" "clean (bs_analyzer b) ms it"
  shows "map_option snd (Drive L b it row) = ProbeFresh L b row"
proof -
  obtain it' where it': "make_text_iterator (c_string row) (length row) (bs_analyzer b) (bs_trie b) = Some it'"
    "ResetText (bs_analyzer b) (bs_trie b) (c_string row) (length row) it = Some (it'\<lparr>emit_buffer := emit_buffer it\<rparr>)"
    using ResetText_fresh [OF assms] by blast
  have "map_option snd (drive_loop L (bs_trie b) (bs_analyzer b) (it'\<lparr>emit_buffer := emit_buffer it\<rparr>, r)) =
      drive_loop L (bs_trie b) (bs_analyzer b) (it', r) \<bind> (\<lambda>(it, r). Some r)" for r
    unfolding drive_loop_emit by (cases "drive_loop L (bs_trie b) (bs_analyzer b) (it', r)") auto
  with it' show ?thesis
    by (cases "ApplyWildcardOnly (bs_patterns b) (bs_analyzer b) (c_string row) (length row)")
      (simp_all add: Drive_def ProbeFresh_def)
qed

lemma Drive_clean:
  assumes "initial_matchers (bs_analyzer b) = Some ms" "clean (bs_analyzer b) ms it"
    "places_ok L (bs_trie b) (bs_analyzer b)" "Drive L b it row = Some (it', r)"
  shows "clean (bs_analyzer b) ms it'"
proof -
  obtain it0 where it0: "clean (bs_analyzer b) ms it0"
    "ResetText (bs_analyzer b) (bs_trie b) (c_string row) (length row) it = Some (it0\<lparr>emit_buffer := emit_buffer it\<rparr>)"
    using ResetText_fresh [OF assms(1,2)] by blast
  have "clean (bs_analyzer b) ms (it0\<lparr>emit_buffer := emit_buffer it\<rparr>)" using it0(1) by (simp add: clean_def)
  moreover obtain r0 where "drive_loop L (bs_trie b) (bs_analyzer b) (it0\<lparr>emit_buffer := emit_buffer it\<rparr>, r0) = Some (it', r)"
    using assms(4) it0(2) by (auto simp: Drive_def split: Option.bind_splits)
  ultimately show ?thesis using drive_loop_clean assms(3) by blast
qed

lemma drive_all_fresh:
  "initial_matchers (bs_analyzer b) = Some ms \<Longrightarrow> clean (bs_analyzer b) ms it \<Longrightarrow> places_ok L (bs_trie b) (bs_analyzer b) \<Longrightarrow>
    drive_all L b it rows = those (map (ProbeFresh L b) rows)"
proof (induction rows arbitrary: it)
  case (Cons row rows)
  show ?case
  proof (cases "Drive L b it row")
    case None
    with Drive_fresh [OF Cons.prems(1,2), of L row] have "ProbeFresh L b row = None" by simp
    with None show ?thesis by simp
  next
    case (Some ir)
    obtain it' r where "ir = (it', r)" by force
    with Some have d: "Drive L b it row = Some (it', r)" by simp
    with Drive_fresh [OF Cons.prems(1,2), of L row] have p: "ProbeFresh L b row = Some r" by simp
    have IH: "drive_all L b it' rows = those (map (ProbeFresh L b) rows)"
      using Cons.IH [OF Cons.prems(1) Drive_clean [OF Cons.prems d] Cons.prems(3)] .
    show ?thesis by (cases "those (map (ProbeFresh L b) rows)") (simp_all add: d p IH)
  qed
qed simp

subsection \<open>The build side\<close>

lemma skeleton_not_special:
  assumes "enc_len pat < 65536" "places pat \<noteq> []"
  shows "\<not> special (skeleton_of pat)"
proof -
  obtain l where "l \<in> set (places pat)" using assms(2) by (cases "places pat") auto
  then obtain t q where tq: "(t, q) \<in> set (pieces [] pat)" "lit_places t q \<noteq> []"
    by (auto simp: places_def) (metis empty_iff empty_set)
  obtain z where "pat = t @ q @ z" using pieces_valid [OF tq(1)] by auto
  with assms(1) have "enc_len (t @ q) < 65536" by simp
  from piece_segment_fields(7) [OF this] tq have "HasLiteral (piece_segment (t, q))" by simp
  with tq(1) have "filter HasLiteral (map piece_segment (pieces [] pat)) \<noteq> []" by (force simp: filter_empty_conv)
  moreover have "length (filter HasLiteral (skeleton_segments pat)) = length (filter HasLiteral (map piece_segment (pieces [] pat)))"
    unfolding skeleton_segments_def by (rule fill_literals [THEN arg_cong [where f = length], unfolded length_map])
  moreover have "length (filter HasLiteral (FoldLiteralFreeSegments (skeleton_segments pat))) = length (filter HasLiteral (skeleton_segments pat))"
    by (rule Fold_literals [THEN arg_cong [where f = length], unfolded length_map])
  ultimately have "filter HasLiteral (FoldLiteralFreeSegments (skeleton_segments pat)) \<noteq> []"
    by (metis length_0_conv)
  then have "FoldLiteralFreeSegments (skeleton_segments pat) \<noteq> []" by (metis filter.simps(1))
  with assms(2) show ?thesis by (simp add: special_def IsEmpty_def OnlyWildcard_def skeleton_of_def)
qed

lemma entries_surj:
  assumes "entries_ok L m n D occ" "cmap_find L m t = Some e"
  shows "\<exists>k. D k = Some t"
proof -
  note E = assms(1) [unfolded entries_ok_iff]
  have "t < n" using E assms(2) by (metis linorder_not_less option.distinct(1))
  have "(\<lambda>k. the (D k)) ` dom D \<subseteq> {..<n}" using E by force
  moreover have "inj_on (\<lambda>k. the (D k)) (dom D)" using E by (auto simp: inj_on_def dom_def)
  then have "card ((\<lambda>k. the (D k)) ` dom D) = n" using E by (simp add: card_image)
  ultimately have "(\<lambda>k. the (D k)) ` dom D = {..<n}" by (intro card_subset_eq) auto
  with \<open>t < n\<close> have "t \<in> (\<lambda>k. the (D k)) ` dom D" by simp
  then show ?thesis by auto
qed

lemma ready_places_ok:
  assumes "ready L ac adr D (occ_of pats)" "\<forall>pat \<in> set pats. plain_pattern pat" "length pats < 2 ^ 32"
  shows "places_ok L ac (map skeleton_of pats)"
  unfolding places_ok_def
proof (intro allI impI)
  fix t e v
  assume e: "cmap_find L (literal_map ac) t = Some e" and v: "v \<in> set (bitmap_elems L (bitmap e))"
  have ent: "entries_ok L (literal_map ac) (unique_literal_cnt ac) D (occ_of pats)" using assms(1) by (simp add: ready_def)
  obtain k where "D k = Some t" using entries_surj [OF ent e] by blast
  then have "has_entry L (literal_map ac) t k (occ_of pats k)" using ent unfolding entries_ok_iff by blast
  with e v have "v \<in> occ_of pats k" by (auto simp: has_entry_def)
  then obtain p off where p: "v = ToUint \<lparr>pi_pattern_id = p, pi_start_pos = off\<rparr>" "p < length pats" "(off, k) \<in> set (places (pats ! p))"
    by (auto simp: occ_of_def)
  have len: "enc_len (pats ! p) < 65536" using assms(2) p(2) by (simp add: plain_pattern_def enc_len_def)
  from places_small [OF this p(3)] have "off < 2 ^ 32" by simp
  then have "FromUint v = \<lparr>pi_pattern_id = p, pi_start_pos = off\<rparr>"
    using p(1,2) assms(3) Uint_roundtrip(1) [of "\<lparr>pi_pattern_id = p, pi_start_pos = off\<rparr>"] by simp
  moreover have "\<not> special (skeleton_of (pats ! p))" using p(3) by (intro skeleton_not_special [OF len]) auto
  ultimately show "pi_pattern_id (FromUint v) < length (map skeleton_of pats) \<and> \<not> special (map skeleton_of pats ! pi_pattern_id (FromUint v))"
    using p(2) by simp
qed

lemma initial_matchers_total: "\<exists>ms. initial_matchers bs = Some ms"
  by (induction bs) (auto simp: InitializeMatcher_def IsEmpty_def)

lemma fresh_iterator:
  "initial_matchers bs = Some ms \<Longrightarrow> \<exists>it. make_iterator bs ac = Some it \<and> clean bs ms it"
  using initial_matchers_nth [of bs ms] by (auto simp: make_iterator_def clean_def)

lemma build_side:
  assumes "containers_ok L" "\<forall>pat \<in> set pats. plain_pattern pat" "length pats < 2 ^ 32"
  shows "\<exists>b it. make_BuildSide L (map encode pats) = Some b \<and> make_iterator (bs_analyzer b) (bs_trie b) = Some it \<and>
    (\<forall>rows. drive_all L b it rows = those (map (ProbeFresh L b) rows))"
proof -
  obtain ac where ac: "analyze L [] 0 (map encode pats) (AhoCorasick L) = Some (map skeleton_of pats, ac)" "built L ac (occ_of pats)"
    using analyze_eq [OF assms(1) built_empty [OF assms(1)] assms(2), of 0] by (auto simp: occ_of_def [abs_def])
  obtain ac' adr D where ac': "BuildSuffixLink ac = Some ac'" "ready L ac' adr D (occ_of pats)"
    using BuildSuffixLink_ready [OF ac(2)] by blast
  let ?b = "\<lparr>bs_trie = ac', bs_patterns = map encode pats, bs_analyzer = map skeleton_of pats\<rparr>"
  obtain ms where ms: "initial_matchers (map skeleton_of pats) = Some ms" using initial_matchers_total by blast
  obtain it where it: "make_iterator (map skeleton_of pats) ac' = Some it" "clean (map skeleton_of pats) ms it"
    using fresh_iterator [OF ms] by blast
  have "make_BuildSide L (map encode pats) = Some ?b" using ac(1) ac'(1) by (simp add: make_BuildSide_def PatternAnalyzer_def)
  then show ?thesis
    using drive_all_fresh [of ?b ms it L] ms it ready_places_ok [OF ac'(2) assms(2,3)] by (intro exI [of _ ?b] exI [of _ it]) simp
qed

lemma engine_probe:
  "AhoCorasickMultiplePatterns L (c_string row) (length row) pats [] = make_BuildSide L pats \<bind> (\<lambda>b. ProbeFresh L b row)"
  by (auto simp: AhoCorasickMultiplePatterns_def make_BuildSide_def ProbeFresh_def split: Option.bind_split)

lemma those_map: "\<forall>x \<in> set xs. f x = Some (g x) \<Longrightarrow> those (map f xs) = Some (map g xs)"
  by (induction xs) auto

subsection \<open>The properties\<close>

text \<open>Property C2: an iterator that has been reset answers as a new one.  For any list of patterns without escape
  and any sequence of texts, whatever they hold, driving the texts one after the other through one
  iterator gives what building a new iterator for every text gives, faults included.\<close>

theorem reused_iterator_is_fresh:
  assumes "containers_ok L" "\<forall>pat \<in> set pats. nonzero_cps pat \<and> length (encode pat) < 65536" "length pats < 2 ^ 32"
  shows "\<exists>b it. make_BuildSide L (map encode pats) = Some b \<and> make_iterator (bs_analyzer b) (bs_trie b) = Some it \<and>
    (\<forall>rows. drive_all L b it rows = those (map (ProbeFresh L b) rows))"
  using build_side [OF assms(1) _ assms(3)] assms(2) by (simp add: plain_pattern_def)

theorem reused_iterator_is_fresh_witness:
  "\<exists>b it. make_BuildSide list_containers (map encode [[0x25, 0x61, 0x5F, 0x62, 0x25], [0x25]]) = Some b \<and>
    make_iterator (bs_analyzer b) (bs_trie b) = Some it \<and>
    drive_all list_containers b it [[0x61, 0x78, 0x62], [0x61]] = those (map (ProbeFresh list_containers b) [[0x61, 0x78, 0x62], [0x61]])"
proof -
  have "\<forall>pat \<in> set [[0x25, 0x61, 0x5F, 0x62, 0x25], [0x25]]. nonzero_cps pat \<and> length (encode pat) < 65536"
    by (simp add: writeCodePointUnchecked_def)
  moreover have "length [[0x25, 0x61, 0x5F, 0x62, 0x25], [0x25 :: 32 word]] < 2 ^ 32" by simp
  ultimately show ?thesis using reused_iterator_is_fresh [OF list_containers_ok] by blast
qed

text \<open>Property C1: the wildcard join.  The build side is compiled once, one iterator is reused for all rows of the
  probe side, and the answers for every row and every pattern are those of LIKE, for patterns without
  escape and at most one literal between two percent signs.\<close>

theorem join_is_like:
  assumes "containers_ok L" "\<forall>pat \<in> set pats. nonzero_cps pat \<and> length (encode pat) < 65536 \<and> single_literals pat"
    "length pats < 2 ^ 32" "\<forall>row \<in> set rows. nonzero_cps row \<and> length (encode row) < 2 ^ 64"
  shows "\<exists>b it. make_BuildSide L (map encode pats) = Some b \<and> make_iterator (bs_analyzer b) (bs_trie b) = Some it \<and>
    drive_all L b it (map encode rows) = Some (map (\<lambda>row. map (\<lambda>pat. like (tokens 0 pat) row) pats) rows)"
proof -
  have "\<forall>pat \<in> set pats. plain_pattern pat" using assms(2) by (simp add: plain_pattern_def)
  from build_side [OF assms(1) this assms(3)] obtain b it where
    b: "make_BuildSide L (map encode pats) = Some b" "make_iterator (bs_analyzer b) (bs_trie b) = Some it"
      "drive_all L b it (map encode rows) = those (map (ProbeFresh L b) (map encode rows))" by blast
  have "ProbeFresh L b (encode row) = Some (map (\<lambda>pat. like (tokens 0 pat) row) pats)" if "row \<in> set rows" for row
    using engine_eq [OF assms(1-3), of row] assms(4) that engine_probe [of L "encode row" "map encode pats"] b(1) by simp
  then have "those (map (ProbeFresh L b \<circ> encode) rows) = Some (map (\<lambda>row. map (\<lambda>pat. like (tokens 0 pat) row) pats) rows)"
    by (intro those_map) simp
  with b show ?thesis by auto
qed

theorem join_is_like_witness:
  "\<exists>b it. make_BuildSide list_containers (map encode [[0x25, 0x61, 0x5F], [0x62, 0x25]]) = Some b \<and>
    make_iterator (bs_analyzer b) (bs_trie b) = Some it \<and>
    drive_all list_containers b it (map encode [[0x62, 0x61, 0x63], [0x61]]) =
      Some (map (\<lambda>row. map (\<lambda>pat. like (tokens 0 pat) row) [[0x25, 0x61, 0x5F], [0x62, 0x25]]) [[0x62, 0x61, 0x63], [0x61]])"
  by (rule join_is_like [OF list_containers_ok])
    (simp_all add: single_literals_def writeCodePointUnchecked_def PERCENT_CP_def UNDERSCORE_CP_def)

end
