(* ===== verification/ConcurrentInsert.thy ===== *)
theory ConcurrentInsert
  imports AhoCorasick
begin

text \<open>
  \<open>Tree::insert\<close> of \<open>src/src/include/art/tree.h\<close> as several threads run it at once, each inside
  \<open>AhoCorasick::Insert\<close> of \<open>src/src/aho_corasick.cc\<close>.  A thread is a program point and the local
  variables of the function; one step reads or writes one shared location: a version lock, a child
  pointer, the counter of the literals, an entry of the literal map.  The atomics are taken as
  sequentially consistent.  Building the missing chain touches only memory no other thread has, so it
  is one step with the store that publishes it; the bitmap of an entry, which nothing but the version
  lock protects, is read and written in two steps.
\<close>

record 'b insert_locals =
  il_append_null :: bool
  il_isEnd :: "bool list"
  il_node :: ptr
  il_next :: ptr
  il_parent :: ptr
  il_parentVersion :: "64 word"
  il_level :: nat
  il_version :: "64 word"
  il_tid :: nat
  il_entry :: "'b LiteralEntry option"

datatype label =
  Entry           \<comment> \<open>before the call\<close>
| LoopHead        \<comment> \<open>about to read the version of the next node\<close>
| VersionRead     \<comment> \<open>about to read the child\<close>
| ChildRead       \<comment> \<open>about to validate the version\<close>
| Validated       \<comment> \<open>about to validate the version of the parent\<close>
| ParentValidated \<comment> \<open>about to descend or to take the write lock\<close>
| WriteLocked     \<comment> \<open>about to draw a number or to read the entry of the leaf\<close>
| TidDrawn        \<comment> \<open>about to add the entry of a new literal\<close>
| EntryAdded      \<comment> \<open>about to publish the new chain\<close>
| EntryRead       \<comment> \<open>about to write the entry of a known literal\<close>
| Unlocking       \<comment> \<open>about to release the write lock\<close>
| Finished

type_synonym 'b thread = "label \<times> 'b insert_locals"

text \<open>What a thread is called with: the keyword's memory and length, and where the literal occurs.\<close>

type_synonym insert_job = "bytes \<times> nat \<times> PatternIndexType"

definition no_locals :: "'b insert_locals" where
  "no_locals = \<lparr>il_append_null = False, il_isEnd = [], il_node = Null, il_next = Null, il_parent = Null,
     il_parentVersion = 0, il_level = 0, il_version = 0, il_tid = 0, il_entry = None\<rparr>"

text \<open>The label \<open>restart\<close>: the variables of the descent start over.\<close>

definition restart :: "'b insert_locals \<Rightarrow> 'b thread" where
  "restart l = (LoopHead, l\<lparr>il_node := Null, il_next := root, il_parent := Null, il_parentVersion := 0, il_level := 0\<rparr>)"

definition enter_insert :: "insert_job \<Rightarrow> 'b insert_locals \<Rightarrow> 'b thread option" where
  "enter_insert = (\<lambda>(keyword, keywordLen, aux) l. do {
     assert_opt (keywordLen > 0);
     c \<leftarrow> rd keyword (keywordLen - 1);
     let append_null = (c \<noteq> NULL_TERMINATOR);
     isEnd \<leftarrow> mark_code_points keyword (keywordLen + of_bool append_null) 0
       (replicate (keywordLen + of_bool append_null + 1) True);
     Some (restart (l\<lparr>il_append_null := append_null, il_isEnd := isEnd\<rparr>)) })"

definition read_version :: "'b insert_locals \<Rightarrow> heap \<Rightarrow> 'b thread option" where
  "read_version l h = do {
     n \<leftarrow> deref h (il_next l);
     let (v, needRestart) = readLockOrRestart n;
     Some (if needRestart then restart l
           else (VersionRead, l\<lparr>il_parent := il_node l, il_node := il_next l, il_version := v\<rparr>)) }"

definition read_child :: "insert_job \<Rightarrow> 'b insert_locals \<Rightarrow> heap \<Rightarrow> 'b thread option" where
  "read_child = (\<lambda>(keyword, keywordLen, aux) l h. do {
     key \<leftarrow> getNextChar keyword keywordLen (il_append_null l) (il_level l);
     p \<leftarrow> getChild h (il_node l) key;
     Some (ChildRead, l\<lparr>il_next := p\<rparr>) })"

definition validate :: "'b insert_locals \<Rightarrow> heap \<Rightarrow> 'b thread option" where
  "validate l h = do {
     n \<leftarrow> deref h (il_node l);
     Some (if readUnlockOrRestart n (il_version l) then restart l else (Validated, l)) }"

definition validate_parent :: "'b insert_locals \<Rightarrow> heap \<Rightarrow> 'b thread option" where
  "validate_parent l h =
    (if il_parent l = Null then Some (ParentValidated, l)
     else do {
       pn \<leftarrow> deref h (il_parent l);
       Some (if readUnlockOrRestart pn (il_parentVersion l) then restart l else (ParentValidated, l)) })"

text \<open>The compare-and-swap, or one level further down.\<close>

definition lock_or_descend :: "'b insert_locals \<Rightarrow> heap \<Rightarrow> ('b thread \<times> heap) option" where
  "lock_or_descend l h =
    (case il_next l of
       NodePtr a \<Rightarrow> Some ((LoopHead, l\<lparr>il_level := u32 (il_level l + 1), il_parentVersion := il_version l\<rparr>), h)
     | _ \<Rightarrow> do {
         n \<leftarrow> deref h (il_node l);
         let (n, v, needRestart) = upgradeToWriteLockOrRestart n (il_version l);
         if needRestart then Some (restart l, h)
         else do { h \<leftarrow> assign h (il_node l) n; Some ((WriteLocked, l\<lparr>il_version := v\<rparr>), h) } })"

text \<open>\<open>insert_fn\<close> draws the number, \<open>upsert_fn\<close> looks the entry up.\<close>

definition draw_or_find :: "('b, 'm) containers \<Rightarrow> 'b insert_locals \<Rightarrow> 'm automaton \<Rightarrow> ('b thread \<times> 'm automaton) option" where
  "draw_or_find L l ac =
    (if il_next l = Null
     then Some ((TidDrawn, l\<lparr>il_tid := unique_literal_cnt ac\<rparr>), ac\<lparr>unique_literal_cnt := unique_literal_cnt ac + 1\<rparr>)
     else do {
       tid \<leftarrow> getLeaf (il_next l);
       entry \<leftarrow> cmap_find L (literal_map ac) tid;
       Some ((EntryRead, l\<lparr>il_tid := tid, il_entry := Some entry\<rparr>), ac) })"

definition add_entry :: "('b, 'm) containers \<Rightarrow> insert_job \<Rightarrow> 'b insert_locals \<Rightarrow> 'm automaton \<Rightarrow> 'b thread \<times> 'm automaton" where
  "add_entry L = (\<lambda>(keyword, keywordLen, aux) l ac.
     ((EntryAdded, l), ac\<lparr>literal_map := cmap_emplace L (il_tid l)
       \<lparr>bitmap = bitmap_add L (ToUint aux) (bitmap_empty L), entry_literal_len = u32 keywordLen\<rparr> (literal_map ac)\<rparr>))"

definition write_entry :: "('b, 'm) containers \<Rightarrow> insert_job \<Rightarrow> 'b insert_locals \<Rightarrow> 'm automaton
    \<Rightarrow> ('b thread \<times> 'm automaton) option" where
  "write_entry L = (\<lambda>(keyword, keywordLen, aux) l ac. do {
     entry \<leftarrow> il_entry l;
     Some ((Unlocking, l), ac\<lparr>literal_map := cmap_assign L (il_tid l)
       (entry\<lparr>bitmap := bitmap_add L (ToUint aux) (bitmap entry)\<rparr>) (literal_map ac)\<rparr>) })"

definition publish_chain :: "insert_job \<Rightarrow> 'b insert_locals \<Rightarrow> heap \<Rightarrow> ('b thread \<times> heap) option" where
  "publish_chain = (\<lambda>(keyword, keywordLen, aux) l h. do {
     (p, h, u) \<leftarrow> generate_path keyword keywordLen (il_append_null l) (il_isEnd l) (il_level l) (\<lambda>u. Some (il_tid l, u)) h ();
     key \<leftarrow> getNextChar keyword keywordLen (il_append_null l) (il_level l);
     n \<leftarrow> deref h (il_node l);
     h \<leftarrow> assign h (il_node l) (insert_child n key p);
     Some ((Unlocking, l), h) })"

definition release :: "'b insert_locals \<Rightarrow> heap \<Rightarrow> ('b thread \<times> heap) option" where
  "release l h = do {
     n \<leftarrow> deref h (il_node l);
     h \<leftarrow> assign h (il_node l) (writeUnlock n);
     Some ((Finished, l), h) }"

definition with_trie :: "'m automaton \<Rightarrow> ('t \<times> heap) option \<Rightarrow> ('t \<times> 'm automaton) option" where
  "with_trie ac r = do { (th, h) \<leftarrow> r; Some (th, ac\<lparr>trie := h\<rparr>) }"

text \<open>One step of one thread; \<open>None\<close> is a fault, and the end of a finished thread.\<close>

fun thread_step :: "('b, 'm) containers \<Rightarrow> insert_job \<Rightarrow> 'b thread \<Rightarrow> 'm automaton \<Rightarrow> ('b thread \<times> 'm automaton) option" where
  "thread_step L job (Entry, l) ac = do { th \<leftarrow> enter_insert job l; Some (th, ac) }"
| "thread_step L job (LoopHead, l) ac = do { th \<leftarrow> read_version l (trie ac); Some (th, ac) }"
| "thread_step L job (VersionRead, l) ac = do { th \<leftarrow> read_child job l (trie ac); Some (th, ac) }"
| "thread_step L job (ChildRead, l) ac = do { th \<leftarrow> validate l (trie ac); Some (th, ac) }"
| "thread_step L job (Validated, l) ac = do { th \<leftarrow> validate_parent l (trie ac); Some (th, ac) }"
| "thread_step L job (ParentValidated, l) ac = with_trie ac (lock_or_descend l (trie ac))"
| "thread_step L job (WriteLocked, l) ac = draw_or_find L l ac"
| "thread_step L job (TidDrawn, l) ac = Some (add_entry L job l ac)"
| "thread_step L job (EntryAdded, l) ac = with_trie ac (publish_chain job l (trie ac))"
| "thread_step L job (EntryRead, l) ac = write_entry L job l ac"
| "thread_step L job (Unlocking, l) ac = with_trie ac (release l (trie ac))"
| "thread_step L job (Finished, l) ac = None"

text \<open>Any thread that can takes its step.\<close>

inductive insert_step_of :: "('b, 'm) containers \<Rightarrow> insert_job list \<Rightarrow> 'm automaton \<times> 'b thread list
    \<Rightarrow> 'm automaton \<times> 'b thread list \<Rightarrow> bool" for L jobs where
  step: "i < length ths \<Longrightarrow> thread_step L (jobs ! i) (ths ! i) ac = Some (th, ac') \<Longrightarrow>
    insert_step_of L jobs (ac, ths) (ac', ths[i := th])"

inductive insert_runs :: "('b, 'm) containers \<Rightarrow> insert_job list \<Rightarrow> 'm automaton \<times> 'b thread list
    \<Rightarrow> 'm automaton \<times> 'b thread list \<Rightarrow> bool" for L jobs where
  none: "insert_runs L jobs st st"
| more: "insert_runs L jobs st st' \<Longrightarrow> insert_step_of L jobs st' st'' \<Longrightarrow> insert_runs L jobs st st''"

definition threads_start :: "insert_job list \<Rightarrow> 'b thread list" where
  "threads_start jobs = map (\<lambda>_. (Entry, no_locals)) jobs"

end
