(* ===== verification/ConcurrentInvariant.thy ===== *)
theory ConcurrentInvariant
  imports ConcurrentInsert LiteralLaws
begin

text \<open>
  What holds of the shared trie and of every thread while several threads insert.  The trie without its
  version locks satisfies \<open>trie_inv\<close> all the time; a lock is odd exactly while one thread holds it and
  never moves back; a thread knows, from the versions it has read, that the child it has read is still
  the child (\<open>label_inv\<close>).  \<open>interference\<close> is what a thread relies on the others to do, and
  \<open>thread_stable\<close> says that its knowledge survives it.  The steps outside the write lock are here, the
  others in \<open>ConcurrentLaws\<close>.
\<close>

subsection \<open>The invariant\<close>

text \<open>The shape of the trie does not depend on the version locks.\<close>

definition erase :: "heap \<Rightarrow> heap" where
  "erase = map (\<lambda>n. n\<lparr>versionLock := 2\<rparr>)"

definition job_of :: "32 word list \<times> PatternIndexType \<Rightarrow> insert_job" where
  "job_of = (\<lambda>(k, x). (encode k @ [0], length (encode k), x))"

definition holds :: "'b thread \<Rightarrow> nat option" where
  "holds th = (if fst th \<in> {WriteLocked, TidDrawn, EntryAdded, EntryRead, Unlocking}
     then (case il_node (snd th) of NodePtr a \<Rightarrow> Some a | _ \<Rightarrow> None) else None)"

definition weight :: "label \<Rightarrow> nat" where
  "weight lab = (if lab = Finished then 2
     else if lab \<in> {WriteLocked, TidDrawn, EntryAdded, EntryRead, Unlocking} then 1 else 0)"

definition pending :: "'b thread \<Rightarrow> bool" where
  "pending th \<longleftrightarrow> fst th \<in> {TidDrawn, EntryAdded}"

definition inserted :: "'b thread \<Rightarrow> bool" where
  "inserted th \<longleftrightarrow> fst th \<in> {Unlocking, Finished}"

definition on_path :: "(bytes \<Rightarrow> nat) \<Rightarrow> literals \<Rightarrow> 32 word list \<Rightarrow> nat \<Rightarrow> ptr \<Rightarrow> bool" where
  "on_path adr D k i p \<longleftrightarrow> i \<le> length (encode k) \<and> take i (encode k) \<in> tree_nodes D \<and> p = NodePtr (adr (take i (encode k)))"

definition locals_ok :: "32 word list \<Rightarrow> 'b insert_locals \<Rightarrow> bool" where
  "locals_ok k l \<longleftrightarrow> length (encode k) < 2 ^ 32 \<and> il_append_null l \<and> length (encode k) < length (il_isEnd l) \<and>
     (\<forall>i \<le> length (encode k). il_isEnd l ! i = boundary (take i (encode k)))"

definition ptr_ok :: "heap \<Rightarrow> ptr \<Rightarrow> bool" where
  "ptr_ok h p \<longleftrightarrow> p = Null \<or> (\<exists>a < length h. p = NodePtr a)"

definition next_of :: "(bytes \<Rightarrow> nat) \<Rightarrow> literals \<Rightarrow> 32 word list \<Rightarrow> 'b insert_locals \<Rightarrow> ptr" where
  "next_of adr D k l = child_of adr D (take (il_level l) (encode k)) (key_byte (encode k) (il_level l))"

definition version_at :: "heap \<Rightarrow> (bytes \<Rightarrow> nat) \<Rightarrow> 32 word list \<Rightarrow> 'b insert_locals \<Rightarrow> 64 word" where
  "version_at h adr k l = versionLock (h ! adr (take (il_level l) (encode k)))"

definition version_ok :: "heap \<Rightarrow> (bytes \<Rightarrow> nat) \<Rightarrow> 32 word list \<Rightarrow> 'b insert_locals \<Rightarrow> bool" where
  "version_ok h adr k l \<longleftrightarrow> \<not> isLocked (il_version l) \<and> il_version l \<le> version_at h adr k l"

definition child_ok :: "heap \<Rightarrow> (bytes \<Rightarrow> nat) \<Rightarrow> literals \<Rightarrow> 32 word list \<Rightarrow> 'b insert_locals \<Rightarrow> bool" where
  "child_ok h adr D k l \<longleftrightarrow> (il_next l \<noteq> Null \<longrightarrow> next_of adr D k l = il_next l) \<and>
     (il_next l = Null \<longrightarrow> version_at h adr k l = il_version l \<longrightarrow> next_of adr D k l = Null)"

definition fresh_tid :: "literals \<Rightarrow> 'm automaton \<Rightarrow> 'b insert_locals \<Rightarrow> bool" where
  "fresh_tid D ac l \<longleftrightarrow> il_tid l < unique_literal_cnt ac \<and> il_tid l \<notin> ran D"

text \<open>What a thread knows at each label.\<close>

fun label_inv :: "('b, 'm) containers \<Rightarrow> (bytes \<Rightarrow> nat) \<Rightarrow> literals \<Rightarrow> 'm automaton
    \<Rightarrow> 32 word list \<Rightarrow> nat \<Rightarrow> label \<Rightarrow> 'b insert_locals \<Rightarrow> bool" where
  "label_inv L adr D ac k x Entry l = True"
| "label_inv L adr D ac k x LoopHead l = (on_path adr D k (il_level l) (il_next l) \<and> ptr_ok (trie ac) (il_node l))"
| "label_inv L adr D ac k x VersionRead l = (on_path adr D k (il_level l) (il_node l) \<and> ptr_ok (trie ac) (il_parent l) \<and>
     version_ok (trie ac) adr k l)"
| "label_inv L adr D ac k x ChildRead l = (on_path adr D k (il_level l) (il_node l) \<and> ptr_ok (trie ac) (il_parent l) \<and>
     version_ok (trie ac) adr k l \<and> child_ok (trie ac) adr D k l)"
| "label_inv L adr D ac k x Validated l = (on_path adr D k (il_level l) (il_node l) \<and> ptr_ok (trie ac) (il_parent l) \<and>
     version_ok (trie ac) adr k l \<and> child_ok (trie ac) adr D k l)"
| "label_inv L adr D ac k x ParentValidated l = (on_path adr D k (il_level l) (il_node l) \<and>
     version_ok (trie ac) adr k l \<and> child_ok (trie ac) adr D k l)"
| "label_inv L adr D ac k x WriteLocked l = (on_path adr D k (il_level l) (il_node l) \<and>
     next_of adr D k l = il_next l \<and> (il_next l = Null \<or> isLeaf (il_next l)))"
| "label_inv L adr D ac k x TidDrawn l = (on_path adr D k (il_level l) (il_node l) \<and>
     next_of adr D k l = Null \<and> fresh_tid D ac l \<and> cmap_find L (literal_map ac) (il_tid l) = None)"
| "label_inv L adr D ac k x EntryAdded l = (on_path adr D k (il_level l) (il_node l) \<and>
     next_of adr D k l = Null \<and> fresh_tid D ac l \<and> has_entry L (literal_map ac) (il_tid l) k {x})"
| "label_inv L adr D ac k x EntryRead l = (on_path adr D k (il_level l) (il_node l) \<and>
     next_of adr D k l = LeafPtr (il_tid l) \<and> il_entry l \<noteq> None \<and>
     cmap_find L (literal_map ac) (il_tid l) = il_entry l)"
| "label_inv L adr D ac k x Unlocking l = (on_path adr D k (il_level l) (il_node l) \<and> k \<in> dom D)"
| "label_inv L adr D ac k x Finished l = (k \<in> dom D)"

definition thread_inv :: "('b, 'm) containers \<Rightarrow> (bytes \<Rightarrow> nat) \<Rightarrow> literals \<Rightarrow> 'm automaton
    \<Rightarrow> 32 word list \<times> PatternIndexType \<Rightarrow> 'b thread \<Rightarrow> bool" where
  "thread_inv L adr D ac job th \<longleftrightarrow> (fst th \<noteq> Entry \<longrightarrow> locals_ok (fst job) (snd th)) \<and>
     label_inv L adr D ac (fst job) (ToUint (snd job)) (fst th) (snd th)"

text \<open>What the threads are doing, taken together.\<close>

definition holders :: "'b thread list \<Rightarrow> nat \<Rightarrow> nat option" where
  "holders ths i = (if i < length ths then holds (ths ! i) else None)"

definition drawn :: "'b thread list \<Rightarrow> nat \<Rightarrow> nat option" where
  "drawn ths i = (if i < length ths \<and> pending (ths ! i) then Some (il_tid (snd (ths ! i))) else None)"

definition work :: "'b thread list \<Rightarrow> nat" where
  "work ths = sum_list (map (weight \<circ> fst) ths)"

definition inserted_at :: "(32 word list \<times> PatternIndexType) list \<Rightarrow> 'b thread list \<Rightarrow> occurrences" where
  "inserted_at ks ths k = {ToUint (snd (ks ! i)) | i. i < length ths \<and> fst (ks ! i) = k \<and> inserted (ths ! i)}"

definition locks_ok :: "heap \<Rightarrow> (nat \<Rightarrow> nat option) \<Rightarrow> nat \<Rightarrow> bool" where
  "locks_ok h H w \<longleftrightarrow>
     (\<forall>a < length h. isLocked (versionLock (h ! a)) \<longleftrightarrow> a \<in> ran H) \<and> ran H \<subseteq> {..<length h} \<and> inj_on H (dom H) \<and>
     (\<forall>a < length h. unat (versionLock (h ! a)) \<le> 2 + w)"

definition insert_inv :: "('b, 'm) containers \<Rightarrow> (32 word list \<times> PatternIndexType) list
    \<Rightarrow> (bytes \<Rightarrow> nat) \<Rightarrow> literals \<Rightarrow> 'm automaton \<Rightarrow> 'b thread list \<Rightarrow> bool" where
  "insert_inv L ks adr D ac ths \<longleftrightarrow>
     length ths = length ks \<and> trie_inv (erase (trie ac)) adr D \<and> unlinked (trie ac) \<and>
     locks_ok (trie ac) (holders ths) (work ths) \<and> inj_on (drawn ths) (dom (drawn ths)) \<and>
     numbers_ok L (literal_map ac) (unique_literal_cnt ac) D (inserted_at ks ths) (card (dom (drawn ths))) \<and>
     (\<forall>i < length ks. thread_inv L adr D ac (ks ! i) (ths ! i))"

subsection \<open>What other threads may do\<close>

definition interference :: "('b, 'm) containers \<Rightarrow> (bytes \<Rightarrow> nat) \<Rightarrow> literals \<Rightarrow> 'm automaton
    \<Rightarrow> (bytes \<Rightarrow> nat) \<Rightarrow> literals \<Rightarrow> 'm automaton \<Rightarrow> 'b thread \<Rightarrow> bool" where
  "interference L adr D ac adr' D' ac' th \<longleftrightarrow>
     length (trie ac) \<le> length (trie ac') \<and> unique_literal_cnt ac \<le> unique_literal_cnt ac' \<and>
     tree_nodes D \<subseteq> tree_nodes D' \<and> (\<forall>bs \<in> tree_nodes D. adr' bs = adr bs) \<and> dom D \<subseteq> dom D' \<and>
     (\<forall>bs \<in> tree_nodes D. versionLock (trie ac ! adr bs) \<le> versionLock (trie ac' ! adr bs)) \<and>
     (\<forall>bs \<in> tree_nodes D. \<forall>b. child_of adr' D' bs b = child_of adr D bs b \<or>
        child_of adr D bs b = Null \<and> isLocked (versionLock (trie ac' ! adr bs)) \<and> holds th \<noteq> Some (adr bs)) \<and>
     (pending th \<longrightarrow> il_tid (snd th) \<notin> ran D' \<and>
        cmap_find L (literal_map ac') (il_tid (snd th)) = cmap_find L (literal_map ac) (il_tid (snd th))) \<and>
     (fst th = EntryRead \<longrightarrow> cmap_find L (literal_map ac') (il_tid (snd th)) = cmap_find L (literal_map ac) (il_tid (snd th)))"

lemma on_path_mem:
  assumes "on_path adr D k i p"
  shows "take i (encode k) \<in> tree_nodes D" "p = NodePtr (adr (take i (encode k)))"
  using assms by (simp_all add: on_path_def)

lemma interference_facts:
  assumes "interference L adr D ac adr' D' ac' (lab, l)"
  shows stable_path: "on_path adr D k i p \<Longrightarrow> on_path adr' D' k i p"
    and stable_ptr: "ptr_ok (trie ac) p \<Longrightarrow> ptr_ok (trie ac') p"
    and stable_dom: "k \<in> dom D \<Longrightarrow> k \<in> dom D'"
    and stable_version: "on_path adr D k (il_level l) p \<Longrightarrow> version_ok (trie ac) adr k l \<Longrightarrow> version_ok (trie ac') adr' k l"
    and stable_child: "on_path adr D k (il_level l) p \<Longrightarrow> version_ok (trie ac) adr k l \<Longrightarrow> child_ok (trie ac) adr D k l \<Longrightarrow>
      child_ok (trie ac') adr' D' k l"
    and stable_held: "on_path adr D k (il_level l) (il_node l) \<Longrightarrow> holds (lab, l) \<noteq> None \<Longrightarrow> next_of adr' D' k l = next_of adr D k l"
    and stable_fresh: "pending (lab, l) \<Longrightarrow> fresh_tid D ac l \<Longrightarrow> fresh_tid D' ac' l"
    and stable_entry: "pending (lab, l) \<or> lab = EntryRead \<Longrightarrow>
      cmap_find L (literal_map ac') (il_tid l) = cmap_find L (literal_map ac) (il_tid l)"
proof -
  note I = assms [unfolded interference_def fst_conv snd_conv]
  show "on_path adr D k i p \<Longrightarrow> on_path adr' D' k i p" using I by (auto simp: on_path_def)
  show "ptr_ok (trie ac) p \<Longrightarrow> ptr_ok (trie ac') p" using I by (auto simp: ptr_ok_def)
  show "k \<in> dom D \<Longrightarrow> k \<in> dom D'" using I by blast
  show "pending (lab, l) \<Longrightarrow> fresh_tid D ac l \<Longrightarrow> fresh_tid D' ac' l" using I by (simp add: fresh_tid_def)
  show "pending (lab, l) \<or> lab = EntryRead \<Longrightarrow>
      cmap_find L (literal_map ac') (il_tid l) = cmap_find L (literal_map ac) (il_tid l)" using I by blast
  have ver: "version_at (trie ac) adr k l \<le> version_at (trie ac') adr' k l"
    and child: "next_of adr' D' k l = next_of adr D k l \<or>
      next_of adr D k l = Null \<and> isLocked (version_at (trie ac') adr' k l) \<and>
        holds (lab, l) \<noteq> Some (adr (take (il_level l) (encode k)))"
    if "on_path adr D k (il_level l) p" for p
    using I on_path_mem [OF that] by (simp_all add: version_at_def next_of_def)
  show "version_ok (trie ac) adr k l \<Longrightarrow> version_ok (trie ac') adr' k l" if "on_path adr D k (il_level l) p"
    using ver [OF that] by (auto simp: version_ok_def)
  show "child_ok (trie ac') adr' D' k l"
    if "on_path adr D k (il_level l) p" "version_ok (trie ac) adr k l" "child_ok (trie ac) adr D k l"
    using ver [OF that(1)] child [OF that(1)] that(2,3) unfolding child_ok_def version_ok_def by (metis order_antisym)
  show "next_of adr' D' k l = next_of adr D k l"
    if "on_path adr D k (il_level l) (il_node l)" "holds (lab, l) \<noteq> None"
    using child [OF that(1)] on_path_mem(2) [OF that(1)] that(2) by (auto simp: holds_def split: if_splits)
qed

lemma thread_stable:
  assumes "thread_inv L adr D ac job th" "interference L adr D ac adr' D' ac' th"
  shows "thread_inv L adr' D' ac' job th"
proof -
  obtain lab l where th: "th = (lab, l)" by force
  note S = interference_facts [OF assms(2) [unfolded th]]
  have hold: "next_of adr' D' k l = next_of adr D k l"
    if "on_path adr D k (il_level l) (il_node l)" "lab \<in> {WriteLocked, TidDrawn, EntryAdded, EntryRead, Unlocking}" for k
    using S(6) [OF that(1)] on_path_mem(2) [OF that(1)] that(2) by (auto simp: holds_def)
  have known: "D k = Some t \<Longrightarrow> \<exists>t. D' k = Some t" for k t using S(3) by blast
  show ?thesis
    using assms(1) unfolding thread_inv_def th
    by (cases lab) (auto simp: has_entry_def pending_def hold S(8) dest: known intro: S(1,2) S(4) S(5) S(7))
qed

text \<open>Where a thread stands outside the write lock.\<close>

definition roaming :: "'b thread \<Rightarrow> bool" where
  "roaming th \<longleftrightarrow> fst th \<in> {Entry, LoopHead, VersionRead, ChildRead, Validated, ParentValidated}"

subsection \<open>Reading the heap\<close>

lemma erase_simps [simp]: "length (erase h) = length h"
  "a < length h \<Longrightarrow> erase h ! a = (h ! a)\<lparr>versionLock := 2\<rparr>"
  by (simp_all add: erase_def)

lemma shared_node:
  assumes "trie_inv (erase h) adr D" "bs \<in> tree_nodes D"
  shows shared_less: "adr bs < length h"
    and shared_deref: "deref h (NodePtr (adr bs)) = Some (h ! adr bs)"
    and shared_child: "getChild h (NodePtr (adr bs)) b = Some (child_of adr D bs b)"
proof -
  show less: "adr bs < length h" using adr_less [OF assms] by simp
  then show deref: "deref h (NodePtr (adr bs)) = Some (h ! adr bs)" by (simp add: deref_def)
  show "getChild h (NodePtr (adr bs)) b = Some (child_of adr D bs b)"
    using node_at [OF assms] less deref by (simp add: getChild_def node_inv_def)
qed

lemma ptr_deref: "ptr_ok h p \<Longrightarrow> p = Null \<or> (\<exists>n. deref h p = Some n)"
  by (auto simp: ptr_ok_def deref_def)

lemma on_path_ptr: "trie_inv (erase h) adr D \<Longrightarrow> on_path adr D k i p \<Longrightarrow> ptr_ok h p"
  by (auto simp: on_path_def ptr_ok_def dest: shared_less)

lemma on_path_root: "trie_inv (erase h) adr D \<Longrightarrow> on_path adr D k 0 root"
  using adr_root [of "erase h" adr D] by (simp add: on_path_def)

lemma restart_inv:
  "trie_inv (erase (trie ac)) adr D \<Longrightarrow> locals_ok (fst job) l \<Longrightarrow> thread_inv L adr D ac job (restart l)"
  by (simp add: thread_inv_def restart_def on_path_root ptr_ok_def locals_ok_def)

lemma roaming_restart: "roaming (restart l)"
  by (simp add: roaming_def restart_def)

lemma next_getChild:
  assumes "trie_inv (erase h) adr D" "on_path adr D k (il_level l) (il_node l)"
  shows "getChild h (il_node l) (key_byte (encode k) (il_level l)) = Some (next_of adr D k l)"
  using shared_child [OF assms(1)] on_path_mem [OF assms(2)] by (simp add: next_of_def)

lemma node_version:
  assumes "trie_inv (erase h) adr D" "on_path adr D k i p"
  shows "\<exists>n. deref h p = Some n \<and> n = h ! adr (take i (encode k))"
  using shared_deref [OF assms(1)] on_path_mem [OF assms(2)] by simp

lemma child_below:
  assumes "child_of adr D bs b = NodePtr a"
  shows "bs @ [b] \<in> tree_nodes D" "b \<noteq> NULL_TERMINATOR" "a = adr (bs @ [b])"
  using assms by (auto simp: child_of_def leaf_of_def split: if_splits option.splits)

lemma next_on_path:
  assumes "next_of adr D k l = NodePtr a" "on_path adr D k (il_level l) p" "locals_ok k l"
  shows "on_path adr D k (u32 (il_level l + 1)) (NodePtr a)" "u32 (il_level l + 1) = il_level l + 1"
proof -
  note c = child_below [OF assms(1) [unfolded next_of_def]]
  then have "il_level l < length (encode k)" by (auto simp: key_byte_def split: if_splits)
  moreover from this assms(3) show "u32 (il_level l + 1) = il_level l + 1" by (simp add: locals_ok_def)
  ultimately show "on_path adr D k (u32 (il_level l + 1)) (NodePtr a)"
    using c by (auto simp: on_path_def key_byte_def take_Suc_conv_app_nth)
qed

lemma next_leaf:
  assumes "next_of adr D k l = LeafPtr t" "on_path adr D k (il_level l) p" "k \<noteq> []" "nonzero_cps k"
  shows "il_level l = length (encode k)" "D k = Some t"
proof -
  have z: "key_byte (encode k) (il_level l) = NULL_TERMINATOR"
    and leaf: "leaf_of D (take (il_level l) (encode k)) = LeafPtr t"
    using assms(1) by (auto simp: next_of_def child_of_def split: if_splits)
  with key_byte_nonzero [OF assms(4), of "il_level l"] assms(2) show "il_level l = length (encode k)"
    by (force simp: key_byte_def on_path_def NULL_TERMINATOR_def split: if_splits)
  with leaf nonzero_valid [OF assms(4)] show "D k = Some t" by (simp split: option.splits)
qed

subsection \<open>Steps that only read\<close>

lemma enter_ok:
  assumes "trie_inv (erase (trie ac)) adr D" "k \<noteq> []" "nonzero_cps k" "length (encode k) < 2 ^ 32"
  shows "\<exists>th'. thread_step L (job_of (k, x)) (Entry, l) ac = Some (th', ac) \<and> roaming th' \<and>
    thread_inv L adr D ac (k, x) th'"
proof -
  let ?n = "length (encode k)"
  obtain e where e: "mark_code_points (encode k @ [0]) (?n + 1) 0 (replicate (?n + 2) True) = Some e"
      "length e = ?n + 2" "\<And>i. i < ?n + 2 \<Longrightarrow> e ! i = (i = 0 \<or> ?n < i \<or> boundary (take i (encode k)))"
    using mark_code_points_eq [of "[]" k "[0]" "replicate (?n + 2) True"] nonzero_valid [OF assms(3)]
    by (auto simp del: replicate.simps replicate_Suc)
  obtain b where b: "0 < ?n" "b \<noteq> NULL_TERMINATOR" "rd (encode k @ [0]) (?n - 1) = Some b"
    using last_key_byte [OF assms(2,3)] .
  have l: "locals_ok k (l\<lparr>il_append_null := True, il_isEnd := e\<rparr>)" using e(2,3) assms(4) by (auto simp: locals_ok_def)
  have "enter_insert (job_of (k, x)) l = Some (restart (l\<lparr>il_append_null := True, il_isEnd := e\<rparr>))"
    using b e(1) by (simp add: enter_insert_def job_of_def)
  moreover have "thread_inv L adr D ac (k, x) (restart (l\<lparr>il_append_null := True, il_isEnd := e\<rparr>))"
    by (rule restart_inv [OF assms(1)]) (simp add: l)
  ultimately show ?thesis by (simp add: roaming_restart)
qed

lemma read_version_ok:
  assumes "trie_inv (erase (trie ac)) adr D" "thread_inv L adr D ac (k, x) (LoopHead, l)"
  shows "\<exists>th'. thread_step L (job_of (k, x)) (LoopHead, l) ac = Some (th', ac) \<and> roaming th' \<and>
    thread_inv L adr D ac (k, x) th'"
proof -
  have T: "locals_ok k l" "on_path adr D k (il_level l) (il_next l)" "ptr_ok (trie ac) (il_node l)"
    using assms(2) by (simp_all add: thread_inv_def)
  let ?n = "trie ac ! adr (take (il_level l) (encode k))"
  have deref: "deref (trie ac) (il_next l) = Some ?n" using node_version [OF assms(1) T(2)] by simp
  show ?thesis
  proof (cases "isLocked (versionLock ?n)")
    case True
    with deref restart_inv [OF assms(1), of "(k, x)" l] T(1) show ?thesis
      by (simp add: read_version_def readLockOrRestart_def roaming_restart)
  next
    case False
    with deref T show ?thesis
      by (simp add: read_version_def readLockOrRestart_def roaming_def thread_inv_def version_ok_def version_at_def locals_ok_def)
  qed
qed

lemma read_child_ok:
  assumes "trie_inv (erase (trie ac)) adr D" "thread_inv L adr D ac (k, x) (VersionRead, l)"
  shows "\<exists>th'. thread_step L (job_of (k, x)) (VersionRead, l) ac = Some (th', ac) \<and> roaming th' \<and>
    thread_inv L adr D ac (k, x) th'"
proof -
  have T: "locals_ok k l" "on_path adr D k (il_level l) (il_node l)"
    "ptr_ok (trie ac) (il_parent l)" "version_ok (trie ac) adr k l"
    using assms(2) by (simp_all add: thread_inv_def)
  have "il_append_null l" using T(1) by (simp add: locals_ok_def)
  then have "read_child (job_of (k, x)) l (trie ac) = Some (ChildRead, l\<lparr>il_next := next_of adr D k l\<rparr>)"
    using next_getChild [OF assms(1) T(2)] by (simp add: read_child_def job_of_def)
  then show ?thesis using T
    by (simp add: roaming_def thread_inv_def locals_ok_def version_ok_def version_at_def child_ok_def next_of_def)
qed

lemma validate_ok:
  assumes "trie_inv (erase (trie ac)) adr D" "thread_inv L adr D ac (k, x) (ChildRead, l)"
  shows "\<exists>th'. thread_step L (job_of (k, x)) (ChildRead, l) ac = Some (th', ac) \<and> roaming th' \<and>
    thread_inv L adr D ac (k, x) th'"
proof -
  have T: "locals_ok k l" "on_path adr D k (il_level l) (il_node l)" using assms(2) by (simp_all add: thread_inv_def)
  obtain n where n: "deref (trie ac) (il_node l) = Some n" using node_version [OF assms(1) T(2)] by blast
  show ?thesis
  proof (cases "readUnlockOrRestart n (il_version l)")
    case True
    with n restart_inv [OF assms(1), of "(k, x)" l] T(1) show ?thesis
      by (simp add: validate_def roaming_restart)
  next
    case False
    with n assms(2) show ?thesis by (simp add: validate_def roaming_def thread_inv_def)
  qed
qed

lemma validate_parent_ok:
  assumes "trie_inv (erase (trie ac)) adr D" "thread_inv L adr D ac (k, x) (Validated, l)"
  shows "\<exists>th'. thread_step L (job_of (k, x)) (Validated, l) ac = Some (th', ac) \<and> roaming th' \<and>
    thread_inv L adr D ac (k, x) th'"
proof (cases "il_parent l = Null")
  case True
  with assms(2) show ?thesis by (simp add: validate_parent_def roaming_def thread_inv_def)
next
  case False
  have T: "locals_ok k l" "ptr_ok (trie ac) (il_parent l)" using assms(2) by (simp_all add: thread_inv_def)
  obtain n where n: "deref (trie ac) (il_parent l) = Some n" using ptr_deref [OF T(2)] False by blast
  show ?thesis
  proof (cases "readUnlockOrRestart n (il_parentVersion l)")
    case True
    with n False restart_inv [OF assms(1), of "(k, x)" l] T(1) show ?thesis
      by (simp add: validate_parent_def roaming_restart)
  next
    case unchanged: False
    with n False assms(2) show ?thesis by (simp add: validate_parent_def roaming_def thread_inv_def)
  qed
qed

text \<open>The descent, and the compare-and-swap that fails.\<close>

lemma descend_ok:
  assumes "trie_inv (erase (trie ac)) adr D" "thread_inv L adr D ac (k, x) (ParentValidated, l)"
    "(\<exists>a. il_next l = NodePtr a) \<or> version_at (trie ac) adr k l \<noteq> il_version l"
  shows "\<exists>th'. thread_step L (job_of (k, x)) (ParentValidated, l) ac = Some (th', ac) \<and> roaming th' \<and>
    thread_inv L adr D ac (k, x) th'"
proof -
  have T: "locals_ok k l" "on_path adr D k (il_level l) (il_node l)" "child_ok (trie ac) adr D k l"
    using assms(2) by (simp_all add: thread_inv_def)
  obtain n where n: "deref (trie ac) (il_node l) = Some n" "versionLock n = version_at (trie ac) adr k l"
    using node_version [OF assms(1) T(2)] by (auto simp: version_at_def)
  show ?thesis
  proof (cases "\<exists>a. il_next l = NodePtr a")
    case True
    then obtain a where a: "il_next l = NodePtr a" by blast
    then have "next_of adr D k l = NodePtr a" using T(3) by (simp add: child_ok_def)
    from next_on_path [OF this T(2,1)] T(1) on_path_ptr [OF assms(1) T(2)] a show ?thesis
      by (simp add: with_trie_def lock_or_descend_def roaming_def thread_inv_def locals_ok_def)
  next
    case False
    with assms(3) n restart_inv [OF assms(1), of "(k, x)" l] T(1) show ?thesis
      by (cases "il_next l")
        (auto simp: with_trie_def lock_or_descend_def upgradeToWriteLockOrRestart_def roaming_restart)
  qed
qed

subsection \<open>The threads together\<close>

lemma nth_update: "i < length xs \<Longrightarrow> xs[i := y] ! j = (if j = i then y else xs ! j)"
  by simp

lemma holders_update: "i < length ths \<Longrightarrow> holders (ths[i := th]) = (holders ths)(i := holds th)"
  by (auto simp: holders_def fun_eq_iff nth_list_update)

lemma drawn_update:
  "i < length ths \<Longrightarrow> drawn (ths[i := th]) = (drawn ths)(i := (if pending th then Some (il_tid (snd th)) else None))"
  by (auto simp: drawn_def fun_eq_iff nth_list_update)

lemma work_update:
  "i < length ths \<Longrightarrow> work (ths[i := th]) + weight (fst (ths ! i)) = work ths + weight (fst th)"
  unfolding work_def map_update using elem_le_sum_list [of i "map (weight \<circ> fst) ths"]
  by (subst sum_list_update) simp_all

lemma work_bound: "work ths \<le> 2 * length ths"
  unfolding work_def by (induction ths) (auto simp: weight_def)

lemma work_bound_less: "i < length ths \<Longrightarrow> work ths + 2 \<le> 2 * length ths + weight (fst (ths ! i))"
  using work_update [of i ths "(Finished, no_locals)"] work_bound [of "ths[i := (Finished, no_locals)]"]
  by (simp add: weight_def)

lemma inserted_same:
  assumes "i < length ths" "inserted th = inserted (ths ! i)"
  shows "inserted_at ks (ths[i := th]) = inserted_at ks ths"
  using assms by (auto simp: inserted_at_def fun_eq_iff nth_list_update split: if_splits)

lemma inserted_new:
  assumes "i < length ths" "inserted th" "ks ! i = (k, x)"
  shows "inserted_at ks (ths[i := th]) = (inserted_at ks ths)(k := insert (ToUint x) (inserted_at ks ths k))"
proof -
  let ?at = "\<lambda>ths k. {j. j < length ths \<and> fst (ks ! j) = k \<and> inserted (ths ! j)}"
  have at: "inserted_at ks ths k = (\<lambda>j. ToUint (snd (ks ! j))) ` ?at ths k" for ths :: "'a thread list" and k
    by (auto simp: inserted_at_def)
  have "?at (ths[i := th]) k' = (if k' = k then insert i (?at ths k) else ?at ths k')" for k'
    using assms by (auto simp: nth_list_update split: if_splits)
  with assms(3) show ?thesis by (simp add: at fun_eq_iff del: fun_upd_apply) (simp add: at)
qed

lemma finite_drawn: "finite (dom (drawn ths))"
  by (rule finite_subset [of _ "{..<length ths}"]) (auto simp: drawn_def split: if_splits)

lemma insert_invD:
  assumes "insert_inv L ks adr D ac ths"
  shows "length ths = length ks" "trie_inv (erase (trie ac)) adr D" "unlinked (trie ac)"
    "locks_ok (trie ac) (holders ths) (work ths)" "inj_on (drawn ths) (dom (drawn ths))"
    "numbers_ok L (literal_map ac) (unique_literal_cnt ac) D (inserted_at ks ths) (card (dom (drawn ths)))"
    "\<And>i. i < length ths \<Longrightarrow> thread_inv L adr D ac (ks ! i) (ths ! i)"
  using assms by (auto simp: insert_inv_def)

text \<open>The step of one thread, and what the others see of it.\<close>

lemma insert_inv_step:
  assumes inv: "insert_inv L ks adr D ac ths" and i: "i < length ths"
    and own: "thread_inv L adr' D' ac' (ks ! i) th"
    and others: "\<And>j. j < length ths \<Longrightarrow> j \<noteq> i \<Longrightarrow> interference L adr D ac adr' D' ac' (ths ! j)"
    and shared: "trie_inv (erase (trie ac')) adr' D'" "unlinked (trie ac')"
      "locks_ok (trie ac') (holders (ths[i := th])) (work (ths[i := th]))"
      "inj_on (drawn (ths[i := th])) (dom (drawn (ths[i := th])))"
      "numbers_ok L (literal_map ac') (unique_literal_cnt ac') D' (inserted_at ks (ths[i := th]))
        (card (dom (drawn (ths[i := th]))))"
  shows "insert_inv L ks adr' D' ac' (ths[i := th])"
proof -
  have "thread_inv L adr' D' ac' (ks ! j) (ths[i := th] ! j)" if "j < length ks" for j
    using thread_stable [OF insert_invD(7) [OF inv] others, of j] own that i insert_invD(1) [OF inv]
    by (cases "j = i") simp_all
  then show ?thesis using shared insert_invD(1) [OF inv] by (simp add: insert_inv_def)
qed

lemma pending_fresh: "thread_inv L adr D ac job th \<Longrightarrow> pending th \<Longrightarrow> fresh_tid D ac (snd th)"
  by (auto simp: thread_inv_def pending_def)

lemma reads_entry:
  "thread_inv L adr D ac (k, x) th \<Longrightarrow> fst th = EntryRead \<Longrightarrow>
    on_path adr D k (il_level (snd th)) (il_node (snd th)) \<and> next_of adr D k (snd th) = LeafPtr (il_tid (snd th))"
  by (auto simp: thread_inv_def)

text \<open>The trie does not change and no number moves: only versions, the counter and the literal map may.\<close>

lemma same_tree_interference:
  assumes "thread_inv L adr D ac job th" "trie_inv (erase (trie ac)) adr D"
    and "length (trie ac') = length (trie ac)" "unique_literal_cnt ac \<le> unique_literal_cnt ac'"
    and "\<And>a. a < length (trie ac) \<Longrightarrow> versionLock (trie ac ! a) \<le> versionLock (trie ac' ! a)"
    and "pending th \<or> fst th = EntryRead \<Longrightarrow>
      cmap_find L (literal_map ac') (il_tid (snd th)) = cmap_find L (literal_map ac) (il_tid (snd th))"
  shows "interference L adr D ac adr D ac' th"
  using assms shared_less [OF assms(2)] pending_fresh [OF assms(1)]
  by (auto simp: interference_def fresh_tid_def)

lemma roaming_step:
  assumes inv: "insert_inv L ks adr D ac ths" and i: "i < length ths"
    and "roaming (ths ! i)" "roaming th" "thread_inv L adr D ac (ks ! i) th"
  shows "insert_inv L ks adr D ac (ths[i := th])"
proof -
  have free: "holds th = None" "\<not> pending th" "\<not> inserted th" "weight (fst th) = 0" if "roaming th" for th :: "'a thread"
    using that by (auto simp: roaming_def holds_def pending_def inserted_def weight_def)
  note old = free [OF assms(3)] and new = free [OF assms(4)]
  have "(holders ths)(i := None) = holders ths" "(drawn ths)(i := None) = drawn ths"
    using old i by (auto simp: fun_eq_iff holders_def drawn_def)
  moreover have "work (ths[i := th]) = work ths" using work_update [OF i, of th] old new by simp
  moreover have "inserted_at ks (ths[i := th]) = inserted_at ks ths" using inserted_same [OF i] old new by blast
  ultimately show ?thesis
    using insert_inv_step [OF inv i assms(5) same_tree_interference [OF insert_invD(7) [OF inv] insert_invD(2) [OF inv]]
      insert_invD(2,3) [OF inv]] insert_invD(4-6) [OF inv] new
    by (simp add: holders_update [OF i] drawn_update [OF i])
qed

subsection \<open>The write lock\<close>

lemma isLocked_odd: "isLocked v \<longleftrightarrow> odd v"
  by (simp add: isLocked_def and_one_eq odd_iff_mod_2_eq_one)

lemma isLocked_Suc [simp]: "isLocked (v + 1) \<longleftrightarrow> \<not> isLocked v"
  by (simp add: isLocked_odd)

lemma version_Suc:
  assumes "unat v \<le> 2 + w" "2 + w + 1 < 2 ^ 64"
  shows "unat (v + 1 :: 64 word) \<le> 2 + (w + 1)" "v \<le> v + 1"
proof -
  have "unat (v + 1) = unat v + 1" using assms by (simp add: unat_word_ariths)
  then show "unat (v + 1) \<le> 2 + (w + 1)" "v \<le> v + 1" using assms by (simp_all add: word_le_nat_alt)
qed

lemma erase_relock: "a < length h \<Longrightarrow> erase (h[a := (h ! a)\<lparr>versionLock := v\<rparr>]) = erase h"
  by (simp add: erase_def list_eq_iff_nth_eq nth_list_update)

lemma unlinked_relock: "unlinked h \<Longrightarrow> a < length h \<Longrightarrow> unlinked (h[a := (h ! a)\<lparr>versionLock := v\<rparr>])"
  unfolding unlinked_def by (auto dest!: set_update_subset_insert [THEN subsetD] split: if_splits) (metis nth_mem subsetD singletonD)

lemma locks_acquire:
  assumes "locks_ok h H w" "a < length h" "\<not> isLocked (versionLock (h ! a))" "H i = None" "w + 3 < 2 ^ 64"
  shows "locks_ok (h[a := (h ! a)\<lparr>versionLock := versionLock (h ! a) + 1\<rparr>]) (H(i := Some a)) (w + 1)"
proof -
  note L = assms(1) [unfolded locks_ok_def]
  have a: "a \<notin> ran H" using L assms(2,3) by blast
  have "ran (H(i := Some a)) = insert a (ran H)" using assms(4) by (simp add: ran_map_upd)
  moreover have "inj_on (H(i := Some a)) (dom (H(i := Some a)))"
    using L a assms(4) by (auto simp: inj_on_def ran_def dom_def) 
  moreover have "unat (versionLock (h ! a) + 1) \<le> 2 + (w + 1)"
    by (rule version_Suc) (use L assms(2,5) in auto)
  moreover have "unat (versionLock (h ! b)) \<le> 2 + (w + 1)" if "b < length h" for b
    using L that by (meson le_SucI add_mono le_add1 order.trans order_refl)
  ultimately show ?thesis using L a assms(2,3) unfolding locks_ok_def
    by (simp add: nth_list_update) 
qed

lemma locks_release:
  assumes "locks_ok h H w" "H i = Some a" "w + 3 < 2 ^ 64" "versionLock n = versionLock (h ! a) + 1"
  shows "locks_ok (h[a := n]) (H(i := None)) (w + 1)"
proof -
  note L = assms(1) [unfolded locks_ok_def]
  have a: "a < length h" "isLocked (versionLock (h ! a))" using L assms(2) by (auto simp: ran_def)
  have ran: "ran (H(i := None)) = ran H - {a}"
  proof -
    have "j = i" if "H j = Some a" for j
      using L assms(2) that by (metis domI inj_onD)
    then have "(\<exists>j. (H(i := None)) j = Some b) \<longleftrightarrow> (\<exists>j. H j = Some b) \<and> b \<noteq> a" for b
      using assms(2) by (metis fun_upd_apply option.distinct(1) option.inject)
    then show ?thesis by (simp add: ran_def set_eq_iff)
  qed
  have inj: "inj_on (H(i := None)) (dom (H(i := None)))" using L by (auto simp: inj_on_def dom_def)
  have "unat (versionLock (h ! a) + 1) \<le> 2 + (w + 1)"
    by (rule version_Suc) (use L a(1) assms(3) in auto)
  moreover have "unat (versionLock (h ! b)) \<le> 2 + (w + 1)" if "b < length h" for b
    using L that by (meson le_SucI add_mono le_add1 order.trans order_refl)
  ultimately have "unat (versionLock (h[a := n] ! b)) \<le> 2 + (w + 1)" if "b < length h" for b
    using assms(4) that a(1) by (cases "b = a") simp_all
  moreover have "isLocked (versionLock (h[a := n] ! b)) \<longleftrightarrow> b \<in> ran H - {a}" if "b < length h" for b
  proof -
    have "isLocked (versionLock (h ! b)) \<longleftrightarrow> b \<in> ran H" using L that by blast
    then show ?thesis using a assms(4) that by (cases "b = a") simp_all
  qed
  moreover have "ran H - {a} \<subseteq> {..<length h}" using L by blast
  ultimately show ?thesis using inj unfolding locks_ok_def ran by simp
qed

end
