(* ===== verification/ConcurrentLaws.thy ===== *)
theory ConcurrentLaws
  imports ConcurrentInvariant
begin

text \<open>
  The steps under the write lock, and with them every step of every thread: no thread faults
  (\<open>every_step\<close>), a thread that runs while no other is inside the lock finishes (\<open>alone_finishes\<close>, by
  the measure \<open>remaining\<close>), and when all have finished the automaton holds exactly the literals of
  the threads (\<open>finished_built\<close>), whatever the interleaving was.
\<close>

subsection \<open>Steps under the write lock\<close>

text \<open>What every step starts from.\<close>

definition at_label :: "('b, 'm) containers \<Rightarrow> (32 word list \<times> PatternIndexType) list
    \<Rightarrow> (bytes \<Rightarrow> nat) \<Rightarrow> literals \<Rightarrow> 'm automaton \<Rightarrow> 'b thread list \<Rightarrow> nat \<Rightarrow> label \<Rightarrow> 'b insert_locals \<Rightarrow> 32 word list \<Rightarrow> PatternIndexType \<Rightarrow> bool" where
  "at_label L ks adr D ac ths i lab l k x \<longleftrightarrow> insert_inv L ks adr D ac ths \<and> i < length ths \<and> ths ! i = (lab, l) \<and>
     ks ! i = (k, x) \<and> k \<noteq> [] \<and> nonzero_cps k \<and> length (encode k) < 2 ^ 32 \<and> containers_ok L \<and> 2 * length ths + 2 < 2 ^ 64"

definition steps :: "('b, 'm) containers \<Rightarrow> (32 word list \<times> PatternIndexType) list
    \<Rightarrow> 'm automaton \<Rightarrow> 'b thread list \<Rightarrow> nat \<Rightarrow> bool" where
  "steps L ks ac ths i \<longleftrightarrow> (\<exists>th ac' adr D. thread_step L (job_of (ks ! i)) (ths ! i) ac = Some (th, ac') \<and>
     insert_inv L ks adr D ac' (ths[i := th]))"

lemma at_labelD:
  assumes "at_label L ks adr D ac ths i lab l k x"
  shows "insert_inv L ks adr D ac ths" "i < length ths" "ths ! i = (lab, l)" "ks ! i = (k, x)" "k \<noteq> []" "nonzero_cps k"
    "containers_ok L" "2 * length ths + 2 < 2 ^ 64" "thread_inv L adr D ac (k, x) (lab, l)"
    "trie_inv (erase (trie ac)) adr D"
proof -
  show "insert_inv L ks adr D ac ths" "i < length ths" "ths ! i = (lab, l)" "ks ! i = (k, x)" "k \<noteq> []" "nonzero_cps k"
    "containers_ok L" "2 * length ths + 2 < 2 ^ 64" using assms by (simp_all add: at_label_def)
  then show "thread_inv L adr D ac (k, x) (lab, l)" "trie_inv (erase (trie ac)) adr D"
    using insert_invD(7) [of L ks adr D ac ths i] insert_invD(2) by metis+
qed

lemma acquire_ok:
  assumes R: "at_label L ks adr D ac ths i ParentValidated l k x"
    and free: "il_next l = Null \<or> (\<exists>t. il_next l = LeafPtr t)" "version_at (trie ac) adr k l = il_version l"
  shows "steps L ks ac ths i"
proof -
  note inv = at_labelD(1) [OF R] and i = at_labelD(2) [OF R]
  let ?a = "adr (take (il_level l) (encode k))" and ?v = "il_version l"
  have T: "locals_ok k l" "on_path adr D k (il_level l) (il_node l)" "version_ok (trie ac) adr k l"
    "child_ok (trie ac) adr D k l" using at_labelD(9) [OF R] by (simp_all add: thread_inv_def)
  let ?h = "(trie ac)[?a := (trie ac ! ?a)\<lparr>versionLock := versionLock (trie ac ! ?a) + 1\<rparr>]"
  let ?ac = "ac\<lparr>trie := ?h\<rparr>" and ?th = "(WriteLocked, l\<lparr>il_version := ?v + 1\<rparr>)"
  have a: "?a < length (trie ac)" "il_node l = NodePtr ?a" "versionLock (trie ac ! ?a) = ?v"
    using on_path_mem [OF T(2)] shared_less [OF at_labelD(10) [OF R]] free(2) by (auto simp: version_at_def)
  have step: "thread_step L (job_of (ks ! i)) (ths ! i) ac = Some (?th, ?ac)"
    using at_labelD(3) [OF R] free(1) a
    by (auto simp: with_trie_def lock_or_descend_def deref_def assign_def upgradeToWriteLockOrRestart_def)
  have w: "work ths + 3 < 2 ^ 64" using work_bound_less [OF i] at_labelD(3,8) [OF R] by (simp add: weight_def)
  have unlocked: "\<not> isLocked (versionLock (trie ac ! ?a))" using T(3) a(3) by (simp add: version_ok_def)
  have idle: "holds (ths ! i) = None" "\<not> pending (ths ! i)" "\<not> inserted (ths ! i)"
    using at_labelD(3) [OF R] by (simp_all add: holds_def pending_def inserted_def)
  have busy: "holds ?th = Some ?a" "\<not> pending ?th" "\<not> inserted ?th" "weight (fst ?th) = weight (fst (ths ! i)) + 1"
    using at_labelD(3) [OF R] a(2) by (simp_all add: holds_def pending_def inserted_def weight_def)
  have "holders ths i = None" "drawn ths i = None" using idle by (simp_all add: holders_def drawn_def)
  then have locks: "locks_ok ?h (holders (ths[i := ?th])) (work (ths[i := ?th]))"
    using locks_acquire [OF insert_invD(4) [OF inv] a(1) unlocked _ w, of i] work_update [OF i, of ?th] busy
    by (simp add: holders_update [OF i])
  have le: "versionLock (trie ac ! b) \<le> versionLock (?h ! b)" if "b < length (trie ac)" for b
    using version_Suc(2) [of ?v "work ths"] insert_invD(4) [OF inv] a w that
    by (cases "b = ?a") (auto simp: locks_ok_def)
  have own: "thread_inv L adr D ?ac (ks ! i) ?th"
    using T free a(2) at_labelD(4) [OF R]
    by (auto simp: thread_inv_def locals_ok_def child_ok_def next_of_def isLeaf_def)
  have "drawn (ths[i := ?th]) = drawn ths" using \<open>drawn ths i = None\<close> busy(2) by (simp add: drawn_update [OF i] fun_upd_idem)
  moreover have "inserted_at ks (ths[i := ?th]) = inserted_at ks ths" using inserted_same [OF i] busy(3) idle(3) by blast
  ultimately have "insert_inv L ks adr D ?ac (ths[i := ?th])"
    using locks insert_invD(2-6) [OF inv] le
    by (intro insert_inv_step [OF inv i own same_tree_interference [OF insert_invD(7) [OF inv] at_labelD(10) [OF R]]])
      (simp_all add: erase_relock [OF a(1)] unlinked_relock [OF _ a(1)])
  with step show ?thesis unfolding steps_def by blast
qed

lemma same_view:
  assumes "i < length ths"
  shows same_holders: "holds th = holds (ths ! i) \<Longrightarrow> holders (ths[i := th]) = holders ths"
    and same_work: "weight (fst th) = weight (fst (ths ! i)) \<Longrightarrow> work (ths[i := th]) = work ths"
    and same_drawn: "pending th = pending (ths ! i) \<Longrightarrow> (pending th \<Longrightarrow> il_tid (snd th) = il_tid (snd (ths ! i))) \<Longrightarrow>
      drawn (ths[i := th]) = drawn ths"
  using assms work_update [OF assms, of th]
  by (auto simp: holders_update drawn_update fun_eq_iff holders_def drawn_def)

lemma drawn_other: "drawn ths j = Some t \<Longrightarrow> j < length ths \<and> pending (ths ! j) \<and> t = il_tid (snd (ths ! j))"
  by (auto simp: drawn_def split: if_splits)

lemma draw_ok:
  assumes R: "at_label L ks adr D ac ths i WriteLocked l k x" and null: "il_next l = Null"
  shows "steps L ks ac ths i"
proof -
  note inv = at_labelD(1) [OF R] and i = at_labelD(2) [OF R] and ths = at_labelD(3) [OF R]
  let ?n = "unique_literal_cnt ac"
  let ?ac = "ac\<lparr>unique_literal_cnt := ?n + 1\<rparr>" and ?th = "(TidDrawn, l\<lparr>il_tid := ?n\<rparr>)"
  have step: "thread_step L (job_of (ks ! i)) (ths ! i) ac = Some (?th, ?ac)"
    using ths null by (simp add: draw_or_find_def)
  note N = insert_invD(6) [OF inv, unfolded numbers_ok_def]
  have fresh: "?n \<notin> ran D" using numbers_entry [OF insert_invD(6) [OF inv]] by (fastforce simp: ran_def)
  have own: "thread_inv L adr D ?ac (ks ! i) ?th"
    using at_labelD(9) [OF R] at_labelD(4) [OF R] fresh N null
    by (simp add: thread_inv_def locals_ok_def next_of_def fresh_tid_def)
  have none: "drawn ths i = None" using ths by (simp add: drawn_def pending_def)
  have same: "holders (ths[i := ?th]) = holders ths" "work (ths[i := ?th]) = work ths"
      "inserted_at ks (ths[i := ?th]) = inserted_at ks ths"
    using ths by (simp_all add: same_view [OF i] inserted_same [OF i] holds_def weight_def inserted_def)
  have drawn: "drawn (ths[i := ?th]) = (drawn ths)(i \<mapsto> ?n)"
    by (simp add: drawn_update [OF i] pending_def)
  have less: "t < ?n" if "drawn ths j = Some t" for j t
    using pending_fresh [OF insert_invD(7) [OF inv]] drawn_other [OF that] by (auto simp: fresh_tid_def)
  then have "inj_on ((drawn ths)(i \<mapsto> ?n)) (dom ((drawn ths)(i \<mapsto> ?n)))"
    using insert_invD(5) [OF inv] none by (fastforce simp: inj_on_def)
  moreover have "card (dom ((drawn ths)(i \<mapsto> ?n))) = card (dom (drawn ths)) + 1"
    using none finite_drawn [of ths] by (simp add: domIff)
  ultimately have "insert_inv L ks adr D ?ac (ths[i := ?th])"
    using insert_invD(2-6) [OF inv] numbers_draw [OF insert_invD(6) [OF inv]]
    by (intro insert_inv_step [OF inv i own same_tree_interference [OF insert_invD(7) [OF inv] at_labelD(10) [OF R]]])
      (simp_all add: same drawn)
  with step show ?thesis unfolding steps_def by blast
qed

lemma leaf_entry:
  assumes "insert_inv L ks adr D ac ths" "D k = Some t"
  shows "\<exists>entry. cmap_find L (literal_map ac) t = Some entry"
  using numbers_entry [OF insert_invD(6) [OF assms(1)] assms(2)] by (auto simp: has_entry_def)

lemma find_ok:
  assumes R: "at_label L ks adr D ac ths i WriteLocked l k x" and leaf: "il_next l = LeafPtr t"
  shows "steps L ks ac ths i"
proof -
  note inv = at_labelD(1) [OF R] and i = at_labelD(2) [OF R] and ths = at_labelD(3) [OF R]
  have T: "locals_ok k l" "on_path adr D k (il_level l) (il_node l)" "next_of adr D k l = LeafPtr t"
    using at_labelD(9) [OF R] leaf by (simp_all add: thread_inv_def)
  obtain entry where entry: "cmap_find L (literal_map ac) t = Some entry"
    using leaf_entry [OF inv next_leaf(2) [OF T(3,2) at_labelD(5,6) [OF R]]] by blast
  let ?th = "(EntryRead, l\<lparr>il_tid := t, il_entry := Some entry\<rparr>)"
  have step: "thread_step L (job_of (ks ! i)) (ths ! i) ac = Some (?th, ac)"
    using ths leaf entry by (simp add: draw_or_find_def getLeaf_def)
  have own: "thread_inv L adr D ac (ks ! i) ?th"
    using T entry at_labelD(4) [OF R] by (simp add: thread_inv_def locals_ok_def next_of_def)
  have same: "holders (ths[i := ?th]) = holders ths" "work (ths[i := ?th]) = work ths"
      "inserted_at ks (ths[i := ?th]) = inserted_at ks ths"
    using ths by (simp_all add: same_view [OF i] inserted_same [OF i] holds_def weight_def inserted_def)
  have "drawn (ths[i := ?th]) = drawn ths"
    using ths by (intro same_drawn [OF i]) (simp_all add: pending_def)
  then have "insert_inv L ks adr D ac (ths[i := ?th])"
    using insert_invD(2-6) [OF inv]
    by (intro insert_inv_step [OF inv i own same_tree_interference [OF insert_invD(7) [OF inv] at_labelD(10) [OF R]]])
      (simp_all add: same)
  with step show ?thesis unfolding steps_def by blast
qed

lemma add_ok:
  assumes R: "at_label L ks adr D ac ths i TidDrawn l k x"
  shows "steps L ks ac ths i"
proof -
  note inv = at_labelD(1) [OF R] and i = at_labelD(2) [OF R] and ths = at_labelD(3) [OF R] and L = at_labelD(7) [OF R]
  have T: "locals_ok k l" "on_path adr D k (il_level l) (il_node l)" "next_of adr D k l = Null" "fresh_tid D ac l"
    "cmap_find L (literal_map ac) (il_tid l) = None"
    using at_labelD(9) [OF R] by (simp_all add: thread_inv_def)
  let ?e = "\<lparr>bitmap = bitmap_add L (ToUint x) (bitmap_empty L), entry_literal_len = u32 (length (encode k))\<rparr>"
  let ?ac = "ac\<lparr>literal_map := cmap_emplace L (il_tid l) ?e (literal_map ac)\<rparr>" and ?th = "(EntryAdded, l)"
  have step: "thread_step L (job_of (ks ! i)) (ths ! i) ac = Some (?th, ?ac)"
    using ths at_labelD(4) [OF R] by (simp add: add_entry_def job_of_def)
  have find: "cmap_find L (literal_map ?ac) = (cmap_find L (literal_map ac))(il_tid l \<mapsto> ?e)"
    using L T(5) by (simp add: containers_ok_def)
  have "set (bitmap_elems L (bitmap_add L (ToUint x) (bitmap_empty L))) = {ToUint x}"
    using L by (simp add: containers_ok_def)
  then have own: "thread_inv L adr D ?ac (ks ! i) ?th"
    using T at_labelD(4) [OF R] unfolding thread_inv_def has_entry_def
    by (simp add: find [simplified] fresh_tid_def has_entry_def)
  have same: "holders (ths[i := ?th]) = holders ths" "work (ths[i := ?th]) = work ths"
      "inserted_at ks (ths[i := ?th]) = inserted_at ks ths"
    using ths by (simp_all add: same_view [OF i] inserted_same [OF i] holds_def weight_def inserted_def)
  have view: "drawn (ths[i := ?th]) = drawn ths"
    using ths by (intro same_drawn [OF i]) (simp_all add: pending_def)
  have mine: "drawn ths i = Some (il_tid l)" using ths i by (simp add: pending_def drawn_def)
  have "il_tid (snd (ths ! j)) \<noteq> il_tid l" if "j < length ths" "j \<noteq> i" "pending (ths ! j) \<or> fst (ths ! j) = EntryRead" for j
  proof (cases "pending (ths ! j)")
    case True
    then have "drawn ths j = Some (il_tid (snd (ths ! j)))" using that(1) by (simp add: drawn_def)
    with mine that(2) insert_invD(5) [OF inv] show ?thesis by (metis domI inj_onD)
  next
    case False
    then have "next_of adr D (fst (ks ! j)) (snd (ths ! j)) = LeafPtr (il_tid (snd (ths ! j)))"
      using that(1,3) insert_invD(7) [OF inv that(1)] by (auto simp: thread_inv_def)
    then have "il_tid (snd (ths ! j)) \<in> ran D"
      by (auto simp: next_of_def child_of_def leaf_of_def ran_def split: if_splits option.splits)
    with T(4) show ?thesis by (auto simp: fresh_tid_def)
  qed
  then have "insert_inv L ks adr D ?ac (ths[i := ?th])"
    using insert_invD(2-6) [OF inv] T(4) numbers_add [OF L insert_invD(6) [OF inv] _ _ T(5), of ?e]
    by (intro insert_inv_step [OF inv i own same_tree_interference [OF insert_invD(7) [OF inv] at_labelD(10) [OF R]]])
      (simp_all add: same view find [simplified] fresh_tid_def)
  with step show ?thesis unfolding steps_def by blast
qed

lemma held_by:
  assumes "fst th \<in> {WriteLocked, TidDrawn, EntryAdded, EntryRead, Unlocking}" "on_path adr D k (il_level (snd th)) (il_node (snd th))"
  shows "holds th = Some (adr (take (il_level (snd th)) (encode k)))"
  using assms(1) on_path_mem(2) [OF assms(2)] by (auto simp: holds_def)

lemma holders_inj:
  assumes "insert_inv L ks adr D ac ths" "i < length ths" "j < length ths" "holds (ths ! i) = Some a" "holds (ths ! j) = Some a"
  shows "i = j"
proof -
  have "holders ths i = Some a" "holders ths j = Some a" using assms(2-5) by (simp_all add: holders_def)
  with insert_invD(4) [OF assms(1)] show ?thesis unfolding locks_ok_def by (metis domI inj_onD)
qed

lemma drawn_inj:
  assumes "insert_inv L ks adr D ac ths" "i < length ths" "j < length ths" "pending (ths ! i)" "pending (ths ! j)" "i \<noteq> j"
  shows "il_tid (snd (ths ! j)) \<noteq> il_tid (snd (ths ! i))"
proof -
  have "drawn ths i = Some (il_tid (snd (ths ! i)))" "drawn ths j = Some (il_tid (snd (ths ! j)))"
    using assms(2-5) by (simp_all add: drawn_def)
  with insert_invD(5) [OF assms(1)] assms(6) show ?thesis by (metis domI inj_onD)
qed

lemma leaf_child: "child_of adr D bs b = LeafPtr t \<Longrightarrow> \<exists>xs. bs = encode xs \<and> D xs = Some t"
  by (auto simp: child_of_def leaf_of_def boundary_def split: if_splits option.splits)

lemma write_ok:
  assumes R: "at_label L ks adr D ac ths i EntryRead l k x"
  shows "steps L ks ac ths i"
proof -
  note inv = at_labelD(1) [OF R] and i = at_labelD(2) [OF R] and ths = at_labelD(3) [OF R] and L = at_labelD(7) [OF R]
  have T: "locals_ok k l" "on_path adr D k (il_level l) (il_node l)" "next_of adr D k l = LeafPtr (il_tid l)"
    "il_entry l \<noteq> None" "cmap_find L (literal_map ac) (il_tid l) = il_entry l"
    using at_labelD(9) [OF R] by (simp_all add: thread_inv_def)
  obtain e where e: "il_entry l = Some e" using T(4) by blast
  have D: "D k = Some (il_tid l)" using next_leaf(2) [OF T(3,2) at_labelD(5,6) [OF R]] .
  let ?e = "e\<lparr>bitmap := bitmap_add L (ToUint x) (bitmap e)\<rparr>"
  let ?ac = "ac\<lparr>literal_map := cmap_assign L (il_tid l) ?e (literal_map ac)\<rparr>" and ?th = "(Unlocking, l)"
  have step: "thread_step L (job_of (ks ! i)) (ths ! i) ac = Some (?th, ?ac)"
    using ths at_labelD(4) [OF R] e by (simp add: write_entry_def job_of_def)
  have find: "cmap_find L (literal_map ?ac) = (cmap_find L (literal_map ac))(il_tid l \<mapsto> ?e)"
    using L by (simp add: containers_ok_def)
  have own: "thread_inv L adr D ?ac (ks ! i) ?th"
    using T(1,2) D at_labelD(4) [OF R] by (simp add: thread_inv_def domI)
  have same: "holders (ths[i := ?th]) = holders ths" "work (ths[i := ?th]) = work ths"
    using ths by (simp_all add: same_view [OF i] holds_def weight_def)
  have occ: "inserted_at ks (ths[i := ?th]) = (inserted_at ks ths)(k := insert (ToUint x) (inserted_at ks ths k))"
    by (rule inserted_new [where ks = ks, OF i _ at_labelD(4) [OF R]]) (simp add: inserted_def)
  have view: "drawn (ths[i := ?th]) = drawn ths" using ths by (intro same_drawn [OF i]) (simp_all add: pending_def)
  have "il_tid (snd (ths ! j)) \<noteq> il_tid l" if j: "j < length ths" "j \<noteq> i" "pending (ths ! j) \<or> fst (ths ! j) = EntryRead" for j
  proof (cases "pending (ths ! j)")
    case True
    then show ?thesis using pending_fresh [OF insert_invD(7) [OF inv j(1)]] D by (auto simp: fresh_tid_def ran_def)
  next
    case False
    with j have reads: "fst (ths ! j) = EntryRead" by blast
    let ?k = "fst (ks ! j)" and ?l = "snd (ths ! j)"
    have other: "on_path adr D ?k (il_level ?l) (il_node ?l)" "next_of adr D ?k ?l = LeafPtr (il_tid ?l)"
      using insert_invD(7) [OF inv j(1)] reads by (auto simp: thread_inv_def)
    show ?thesis
    proof
      assume "il_tid ?l = il_tid l"
      with other(2) T(3) obtain xs ys where "take (il_level ?l) (encode ?k) = encode xs" "D xs = Some (il_tid l)"
          "take (il_level l) (encode k) = encode ys" "D ys = Some (il_tid l)"
        unfolding next_of_def by (metis leaf_child)
      moreover from this have "xs = ys" using insert_invD(6) [OF inv] unfolding numbers_ok_def by (metis domI inj_onD)
      ultimately have "holds (ths ! j) = holds (ths ! i)"
        using held_by [of "ths ! j", OF _ other(1)] held_by [of "ths ! i" adr D k] T(2) reads ths by simp
      moreover have "holds (ths ! i) \<noteq> None" using held_by [of "ths ! i" adr D k] T(2) ths by simp
      ultimately show False using holders_inj [OF inv j(1) i] j(2) by force
    qed
  qed
  then have "insert_inv L ks adr D ?ac (ths[i := ?th])"
    using insert_invD(2-6) [OF inv] numbers_known [OF L insert_invD(6) [OF inv] D, of e "ToUint x"] T(5) e
    by (intro insert_inv_step [OF inv i own same_tree_interference [OF insert_invD(7) [OF inv] at_labelD(10) [OF R]]])
      (simp_all add: same view occ find [simplified])
  with step show ?thesis unfolding steps_def by blast
qed

lemma release_ok:
  assumes R: "at_label L ks adr D ac ths i Unlocking l k x"
  shows "steps L ks ac ths i"
proof -
  note inv = at_labelD(1) [OF R] and i = at_labelD(2) [OF R] and ths = at_labelD(3) [OF R]
  let ?a = "adr (take (il_level l) (encode k))"
  have T: "locals_ok k l" "on_path adr D k (il_level l) (il_node l)" "k \<in> dom D"
    using at_labelD(9) [OF R] by (simp_all add: thread_inv_def)
  have a: "?a < length (trie ac)" "il_node l = NodePtr ?a"
    using on_path_mem [OF T(2)] shared_less [OF at_labelD(10) [OF R]] by auto
  let ?h = "(trie ac)[?a := (trie ac ! ?a)\<lparr>versionLock := versionLock (trie ac ! ?a) + 1\<rparr>]"
  let ?ac = "ac\<lparr>trie := ?h\<rparr>" and ?th = "(Finished, l)"
  have step: "thread_step L (job_of (ks ! i)) (ths ! i) ac = Some (?th, ?ac)"
    using ths a by (simp add: with_trie_def release_def deref_def assign_def writeUnlock_def)
  have w: "work ths + 3 < 2 ^ 64" using work_bound_less [OF i] at_labelD(3,8) [OF R] by (simp add: weight_def)
  have held: "holders ths i = Some ?a" using ths a(2) i by (simp add: holders_def holds_def)
  have locks: "locks_ok ?h (holders (ths[i := ?th])) (work (ths[i := ?th]))"
    using locks_release [where i = i, OF insert_invD(4) [OF inv] held w, of "(trie ac ! ?a)\<lparr>versionLock := versionLock (trie ac ! ?a) + 1\<rparr>"]
      work_update [OF i, of ?th] ths
    by (simp add: holders_update [OF i] holds_def weight_def)
  have le: "versionLock (trie ac ! b) \<le> versionLock (?h ! b)" if "b < length (trie ac)" for b
    using version_Suc(2) [of "versionLock (trie ac ! ?a)" "work ths"] insert_invD(4) [OF inv] a w that
    by (cases "b = ?a") (auto simp: locks_ok_def)
  have own: "thread_inv L adr D ?ac (ks ! i) ?th" using T at_labelD(4) [OF R] by (simp add: thread_inv_def)
  have same: "drawn (ths[i := ?th]) = drawn ths" "inserted_at ks (ths[i := ?th]) = inserted_at ks ths"
    using ths by (simp_all add: same_drawn [OF i] inserted_same [OF i] pending_def inserted_def)
  have "insert_inv L ks adr D ?ac (ths[i := ?th])"
    using locks insert_invD(2-6) [OF inv] le
    by (intro insert_inv_step [OF inv i own same_tree_interference [OF insert_invD(7) [OF inv] at_labelD(10) [OF R]]])
      (simp_all add: same erase_relock [OF a(1)] unlinked_relock [OF _ a(1)])
  with step show ?thesis unfolding steps_def by blast
qed

subsection \<open>Publishing a chain\<close>

lemma null_leaves:
  assumes "trie_inv (erase h) adr D" "on_path adr D k (il_level l) p" "next_of adr D k l = Null" "k \<noteq> []" "nonzero_cps k"
  shows "leaves_at (erase h) adr D k (il_level l)"
proof (cases "il_level l = length (encode k)")
  case True
  then have "leaf_of D (encode k) = Null" using assms(3) by (simp add: next_of_def child_of_def key_byte_def)
  then have "D k = None" using nonzero_valid [OF assms(5)] by (simp split: option.splits)
  moreover note on_path_mem(1) [OF assms(2)]
  ultimately show ?thesis using assms(1,4,5) new_nodes [of "il_level l" k D] True by (simp add: leaves_at_def)
next
  case False
  with assms(2) have less: "il_level l < length (encode k)" by (simp add: on_path_def)
  then have "take (il_level l + 1) (encode k) \<notin> tree_nodes D"
    using assms(3) key_byte_nonzero [OF assms(5) less]
    by (auto simp: next_of_def child_of_def key_byte_def take_Suc_conv_app_nth NULL_TERMINATOR_def split: if_splits)
  moreover from this have "D k = None" using key_nodes [OF _ take_is_prefix] by blast
  moreover note on_path_mem(1) [OF assms(2)]
  ultimately show ?thesis using assms(1,4,5) new_nodes [of "il_level l" k D] less by (simp add: leaves_at_def)
qed

lemma locks_grow:
  assumes "locks_ok h H w" "a < length h" "versionLock n = versionLock (h ! a)" "\<And>n. n \<in> set new \<Longrightarrow> versionLock n = 2"
  shows "locks_ok (h[a := n] @ new) H w"
proof -
  note L = assms(1) [unfolded locks_ok_def]
  have old: "versionLock ((h[a := n] @ new) ! b) = versionLock (h ! b)" if "b < length h" for b
    using that assms(2,3) by (cases "b = a") (simp_all add: nth_append)
  have new: "versionLock ((h[a := n] @ new) ! b) = 2" if "\<not> b < length h" "b < length h + length new" for b
    using that assms(4) by (simp add: nth_append)
  have "isLocked (versionLock ((h[a := n] @ new) ! b)) \<longleftrightarrow> b \<in> ran H" "unat (versionLock ((h[a := n] @ new) ! b)) \<le> 2 + w"
    if "b < length h + length new" for b
    using old [of b] new [OF _ that] L by (cases "b < length h", auto simp: isLocked_odd)+
  moreover have "ran H \<subseteq> {..<length h + length new}" using L by auto
  ultimately show ?thesis using L by (simp add: locks_ok_def)
qed

definition new_chain :: "heap \<Rightarrow> 32 word list \<Rightarrow> 'b insert_locals \<Rightarrow> heap" where
  "new_chain h k l = map (chain_node (encode k) (il_isEnd l) (LeafPtr (il_tid l)) (length h))
     (rev [il_level l + 1..<length (encode k) + 1])"

definition chain_top :: "heap \<Rightarrow> 32 word list \<Rightarrow> 'b insert_locals \<Rightarrow> ptr" where
  "chain_top h k l = (if il_level l = length (encode k) then LeafPtr (il_tid l)
     else NodePtr (length h + (length (encode k) - (il_level l + 1))))"

definition published :: "heap \<Rightarrow> (bytes \<Rightarrow> nat) \<Rightarrow> 32 word list \<Rightarrow> 'b insert_locals \<Rightarrow> heap" where
  "published h adr k l = (let a = adr (take (il_level l) (encode k)) in
     h[a := insert_child (h ! a) (key_byte (encode k) (il_level l)) (chain_top h k l)] @ new_chain h k l)"

lemma publish_eq:
  assumes "locals_ok k l" "trie_inv (erase h) adr D" "on_path adr D k (il_level l) (il_node l)"
  shows "publish_chain (job_of (k, x)) l h = Some ((Unlocking, l), published h adr k l)"
proof -
  let ?a = "adr (take (il_level l) (encode k))"
  have a: "?a < length h" "il_node l = NodePtr ?a"
    using on_path_mem [OF assms(3)] shared_less [OF assms(2)] by auto
  have l: "il_level l \<le> length (encode k)" "il_append_null l" "length (encode k) < length (il_isEnd l)"
    using assms(1,3) by (simp_all add: locals_ok_def on_path_def)
  show ?thesis
    using generate_path_eq [OF l(1,3), of "\<lambda>u. Some (il_tid l, u)" "()" "il_tid l" "()" "[0]" h] a l(2)
    unfolding publish_chain_def job_of_def published_def new_chain_def chain_top_def
    by (simp add: Let_def deref_def assign_def nth_append list_update_append del: upt_Suc)
qed

lemma published_parts:
  assumes "adr (take (il_level l) (encode k)) < length h"
  shows "length h \<le> length (published h adr k l)"
    and "b < length h \<Longrightarrow> versionLock (published h adr k l ! b) = versionLock (h ! b)"
  using assms by (auto simp: published_def Let_def nth_append nth_list_update insert_child_def)

lemma erase_published:
  assumes "adr (take (il_level l) (encode k)) < length h"
  shows "\<exists>c. erase (published h adr k l) =
    (erase h)[adr (take (il_level l) (encode k)) := (erase h ! adr (take (il_level l) (encode k)))\<lparr>
      children := (children (erase h ! adr (take (il_level l) (encode k))))(key_byte (encode k) (il_level l) := chain_top (erase h) k l),
      cnt := c, versionLock := 2\<rparr>] @ new_chain (erase h) k l"
proof -
  have "erase (new_chain h k l) = new_chain h k l"
    by (simp add: new_chain_def erase_def chain_node_def insert_child_def makeNode_def del: upt_Suc)
  moreover have "new_chain (erase h) k l = new_chain h k l" "chain_top (erase h) k l = chain_top h k l"
    by (simp_all add: new_chain_def chain_top_def)
  ultimately show ?thesis using assms
    by (intro exI [of _ "u16 (cnt (h ! adr (take (il_level l) (encode k))) + 1)"])
      (simp add: published_def Let_def erase_def map_update insert_child_def)
qed

lemma published_inv:
  assumes "trie_inv (erase h) adr D" "unlinked h" "locals_ok k l" "on_path adr D k (il_level l) (il_node l)"
    "next_of adr D k l = Null" "k \<noteq> []" "nonzero_cps k"
  shows "trie_inv (erase (published h adr k l)) (grown (erase h) adr D (encode k)) (D(k \<mapsto> il_tid l))"
    "unlinked (published h adr k l)"
proof -
  note a = shared_less [OF assms(1) on_path_mem(1) [OF assms(4)]]
  have e: "\<And>i. i \<le> length (encode k) \<Longrightarrow> il_isEnd l ! i = boundary (take i (encode k))"
    using assms(3) by (simp add: locals_ok_def)
  obtain c where c: "erase (published h adr k l) =
    (erase h)[adr (take (il_level l) (encode k)) := (erase h ! adr (take (il_level l) (encode k)))\<lparr>
      children := (children (erase h ! adr (take (il_level l) (encode k))))(key_byte (encode k) (il_level l) := chain_top (erase h) k l),
      cnt := c, versionLock := 2\<rparr>] @ new_chain (erase h) k l" using erase_published [of adr l k h, OF a] by blast
  show "trie_inv (erase (published h adr k l)) (grown (erase h) adr D (encode k)) (D(k \<mapsto> il_tid l))"
    unfolding c new_chain_def chain_top_def
    by (rule attach_inv [OF null_leaves [OF assms(1,4-7)] e refl]) (simp_all add: isLocked_odd)
  show "unlinked (published h adr k l)"
    unfolding published_def Let_def new_chain_def
    by (rule attach_unlinked [OF assms(2) a]) (simp add: insert_child_def)
qed

lemma publish_interference:
  assumes inv: "insert_inv L ks adr D ac ths" and i: "i < length ths" "j < length ths" "j \<noteq> i"
    and held: "holds (ths ! i) = Some (adr (take (il_level l) (encode k)))"
    and draws: "pending (ths ! i)" "il_tid (snd (ths ! i)) = il_tid l"
    and path: "on_path adr D k (il_level l) (il_node l)" and null: "next_of adr D k l = Null"
    and k: "k \<noteq> []" "nonzero_cps k"
  shows "interference L adr D ac (grown (erase (trie ac)) adr D (encode k)) (D(k \<mapsto> il_tid l))
    (ac\<lparr>trie := published (trie ac) adr k l\<rparr>) (ths ! j)"
proof -
  let ?bs = "take (il_level l) (encode k)" and ?adr = "grown (erase (trie ac)) adr D (encode k)" and ?D = "D(k \<mapsto> il_tid l)"
  note tr = insert_invD(2) [OF inv]
  have leaves: "leaves_at (erase (trie ac)) adr D k (il_level l)" by (rule null_leaves [OF tr path null k])
  note a = shared_less [OF tr on_path_mem(1) [OF path]]
  have locked: "isLocked (versionLock (trie ac ! adr ?bs))"
    using insert_invD(4) [OF inv] held i(1) a unfolding locks_ok_def holders_def ran_def by auto
  have other: "holds (ths ! j) \<noteq> Some (adr ?bs)" using holders_inj [OF inv i(1,2) held] i(3) by blast
  have child: "child_of ?adr ?D bs b = child_of adr D bs b \<or>
        child_of adr D bs b = Null \<and> bs = ?bs" if "bs \<in> tree_nodes D" for bs b
    using child_of_old [OF leaves that, of "il_tid l"] null by (auto simp: next_of_def)
  have "tree_nodes D \<subseteq> tree_nodes ?D" by (auto simp: tree_nodes_def)
  moreover have "?adr bs = adr bs" if "bs \<in> tree_nodes D" for bs using that by (simp add: grown_def)
  moreover have "pending (ths ! j) \<Longrightarrow> il_tid (snd (ths ! j)) \<notin> ran ?D"
    using drawn_inj [OF inv i(1,2) draws(1)] draws(2) i(3) pending_fresh [OF insert_invD(7) [OF inv i(2)]]
      leaves_atD(4) [OF leaves] by (auto simp: fresh_tid_def)
  moreover have "child_of ?adr ?D bs b = child_of adr D bs b \<or> child_of adr D bs b = Null \<and>
      isLocked (versionLock (published (trie ac) adr k l ! adr bs)) \<and> holds (ths ! j) \<noteq> Some (adr bs)"
    if "bs \<in> tree_nodes D" for bs b
    using child [OF that, of b] locked other published_parts(2) [of adr l k "trie ac", OF a a] by auto
  ultimately show ?thesis
    using published_parts [of adr l k "trie ac", OF a] shared_less [OF tr]
    unfolding interference_def by auto
qed

lemma publish_ok:
  assumes R: "at_label L ks adr D ac ths i EntryAdded l k x"
  shows "steps L ks ac ths i"
proof -
  note inv = at_labelD(1) [OF R] and i = at_labelD(2) [OF R] and ths = at_labelD(3) [OF R] and k = at_labelD(5,6) [OF R]
  have T: "locals_ok k l" "on_path adr D k (il_level l) (il_node l)" "next_of adr D k l = Null" "fresh_tid D ac l"
    "has_entry L (literal_map ac) (il_tid l) k {ToUint x}"
    using at_labelD(9) [OF R] by (simp_all add: thread_inv_def)
  note tr = at_labelD(10) [OF R]
  note a = shared_less [OF tr on_path_mem(1) [OF T(2)]]
  have leaves: "leaves_at (erase (trie ac)) adr D k (il_level l)" by (rule null_leaves [OF tr T(2,3) k])
  let ?h = "published (trie ac) adr k l" and ?adr = "grown (erase (trie ac)) adr D (encode k)" and ?D = "D(k \<mapsto> il_tid l)"
  let ?ac = "ac\<lparr>trie := ?h\<rparr>" and ?th = "(Unlocking, l)"
  have step: "thread_step L (job_of (ks ! i)) (ths ! i) ac = Some (?th, ?ac)"
    using ths at_labelD(4) [OF R] publish_eq [OF T(1) tr T(2)] by (simp add: with_trie_def)
  have "take (il_level l) (encode k) \<in> tree_nodes D" using on_path_mem [OF T(2)] by blast
  then have own: "thread_inv L ?adr ?D ?ac (ks ! i) ?th"
    using T(1,2) at_labelD(4) [OF R] by (simp add: thread_inv_def on_path_def tree_nodes_upd grown_def)
  have same: "holders (ths[i := ?th]) = holders ths" "work (ths[i := ?th]) = work ths"
    using ths by (simp_all add: same_view [OF i] holds_def weight_def)
  have occ: "inserted_at ks (ths[i := ?th]) = (inserted_at ks ths)(k := insert (ToUint x) (inserted_at ks ths k))"
    by (rule inserted_new [where ks = ks, OF i _ at_labelD(4) [OF R]]) (simp add: inserted_def)
  have drawn: "drawn (ths[i := ?th]) = (drawn ths)(i := None)" by (simp add: drawn_update [OF i] pending_def)
  have mine: "drawn ths i = Some (il_tid l)" using ths i by (simp add: pending_def drawn_def)
  then have "i \<in> dom (drawn ths)" by blast
  then have card: "card (dom (drawn ths)) = card (dom (drawn ths) - {i}) + 1"
    using card.remove [OF finite_drawn] by (metis Suc_eq_plus1)
  have inj: "inj_on ((drawn ths)(i := None)) (dom (drawn ths) - {i})"
    using insert_invD(5) [OF inv] by (auto simp: inj_on_def dom_def)
  have locks: "locks_ok ?h (holders ths) (work ths)"
    unfolding published_def Let_def
    by (rule locks_grow [OF insert_invD(4) [OF inv] a])
      (auto simp: insert_child_def new_chain_def chain_node_def makeNode_def)
  have others: "interference L adr D ac ?adr ?D ?ac (ths ! j)" if "j < length ths" "j \<noteq> i" for j
    by (rule publish_interference [OF inv i that _ _ _ T(2,3) k])
      (use ths held_by [of "ths ! i" adr D k] T(2) in \<open>simp_all add: pending_def\<close>)
  have numbers: "numbers_ok L (literal_map ac) (unique_literal_cnt ac) ?D (inserted_at ks (ths[i := ?th])) (card (dom (drawn ths) - {i}))"
    unfolding occ
    by (rule numbers_publish [OF insert_invD(6) [OF inv, unfolded card] leaves_atD(4) [OF leaves] _ _ T(5)])
      (use T(4) in \<open>simp_all add: fresh_tid_def\<close>)
  have "insert_inv L ks ?adr ?D ?ac (ths[i := ?th])"
    using published_inv [OF tr insert_invD(3) [OF inv] T(1-3) k] locks numbers inj
    by (intro insert_inv_step [OF inv i own others]) (simp_all add: same drawn)
  with step show ?thesis unfolding steps_def by blast
qed

subsection \<open>Every step\<close>

lemma roaming_steps:
  assumes R: "at_label L ks adr D ac ths i lab l k x" and "roaming (lab, l)"
    and "\<exists>th. thread_step L (job_of (k, x)) (lab, l) ac = Some (th, ac) \<and> roaming th \<and> thread_inv L adr D ac (k, x) th"
  shows "steps L ks ac ths i"
proof -
  obtain th where th: "thread_step L (job_of (k, x)) (lab, l) ac = Some (th, ac)" "roaming th" "thread_inv L adr D ac (k, x) th"
    using assms(3) by blast
  have "insert_inv L ks adr D ac (ths[i := th])"
    by (rule roaming_step [OF at_labelD(1,2) [OF R]]) (use at_labelD(3,4) [OF R] assms(2) th(2,3) in simp_all)
  with th(1) at_labelD(3,4) [OF R] show ?thesis unfolding steps_def by auto
qed

text \<open>A thread that has not finished never faults, and its step keeps the invariant.\<close>

lemma every_step:
  assumes R: "at_label L ks adr D ac ths i lab l k x" and "lab \<noteq> Finished"
  shows "steps L ks ac ths i"
proof -
  note T = at_labelD(9) [OF R] and tr = at_labelD(10) [OF R] and k = at_labelD(5,6) [OF R]
  show ?thesis
  proof (cases lab)
    case Entry
    have "length (encode k) < 2 ^ 32" using R by (simp add: at_label_def)
    with R Entry enter_ok [OF tr k] show ?thesis by (intro roaming_steps [OF R]) (simp_all add: roaming_def)
  next
    case LoopHead
    with R read_version_ok [OF tr] T show ?thesis by (intro roaming_steps [OF R]) (simp_all add: roaming_def)
  next
    case VersionRead
    with R read_child_ok [OF tr] T show ?thesis by (intro roaming_steps [OF R]) (simp_all add: roaming_def)
  next
    case ChildRead
    with R validate_ok [OF tr] T show ?thesis by (intro roaming_steps [OF R]) (simp_all add: roaming_def)
  next
    case Validated
    with R validate_parent_ok [OF tr] T show ?thesis by (intro roaming_steps [OF R]) (simp_all add: roaming_def)
  next
    case ParentValidated
    show ?thesis
    proof (cases "(\<exists>a. il_next l = NodePtr a) \<or> version_at (trie ac) adr k l \<noteq> il_version l")
      case True
      with ParentValidated descend_ok [OF tr _ True] T show ?thesis
        by (intro roaming_steps [OF R]) (simp_all add: roaming_def)
    next
      case False
      then have "il_next l = Null \<or> (\<exists>t. il_next l = LeafPtr t)" by (cases "il_next l") simp_all
      with False R [unfolded ParentValidated] show ?thesis using acquire_ok by blast
    qed
  next
    case WriteLocked
    then have "il_next l = Null \<or> (\<exists>t. il_next l = LeafPtr t)"
      using T by (cases "il_next l") (simp_all add: thread_inv_def isLeaf_def)
    with draw_ok [OF R [unfolded WriteLocked]] find_ok [OF R [unfolded WriteLocked]] show ?thesis by auto
  next
    case TidDrawn
    then show ?thesis using R add_ok by blast
  next
    case EntryAdded
    then show ?thesis using R publish_ok by blast
  next
    case EntryRead
    then show ?thesis using R write_ok by blast
  next
    case Unlocking
    then show ?thesis using R release_ok by blast
  next
    case Finished
    with assms(2) show ?thesis by simp
  qed
qed

subsection \<open>Runs of all threads\<close>

definition insert_jobs :: "(32 word list \<times> PatternIndexType) list \<Rightarrow> insert_job list" where
  "insert_jobs ks = map job_of ks"

definition jobs_ok :: "(32 word list \<times> PatternIndexType) list \<Rightarrow> bool" where
  "jobs_ok ks \<longleftrightarrow> (\<forall>(k, x) \<in> set ks. k \<noteq> [] \<and> nonzero_cps k \<and> length (encode k) < 2 ^ 32) \<and> 2 * length ks + 2 < 2 ^ 64"

lemma at_label_known:
  assumes "insert_inv L ks adr D ac ths" "containers_ok L" "jobs_ok ks" "i < length ths"
  shows "at_label L ks adr D ac ths i (fst (ths ! i)) (snd (ths ! i)) (fst (ks ! i)) (snd (ks ! i))"
proof -
  have len: "length ths = length ks" using insert_invD(1) [OF assms(1)] .
  then have "ks ! i \<in> set ks" using assms(4) by simp
  then have "fst (ks ! i) \<noteq> []" "nonzero_cps (fst (ks ! i))" "length (encode (fst (ks ! i))) < 2 ^ 32" using assms(3) by (auto simp: jobs_ok_def)
  then show ?thesis using assms len by (simp add: at_label_def jobs_ok_def)
qed

lemma insert_step_inv:
  assumes "insert_inv L ks adr D ac ths" "containers_ok L" "jobs_ok ks"
    "insert_step_of L (insert_jobs ks) (ac, ths) (ac', ths')"
  shows "\<exists>adr D. insert_inv L ks adr D ac' ths'"
  using assms(4)
proof (cases rule: insert_step_of.cases)
  case (step i th)
  have len: "length ths = length ks" using insert_invD(1) [OF assms(1)] .
  have R: "thread_step L (job_of (ks ! i)) (ths ! i) ac = Some (th, ac')"
    using step(2,3) len by (simp add: insert_jobs_def)
  then have "fst (ths ! i) \<noteq> Finished" by (cases "ths ! i") auto
  from every_step [OF at_label_known [OF assms(1-3) step(2)] this] R step(1) show ?thesis
    by (auto simp: steps_def)
qed

lemma insert_inv_initial:
  fixes L :: "('b, 'm) containers"
  assumes "containers_ok L"
  shows "insert_inv L ks (\<lambda>_. 0) Map.empty (AhoCorasick L) (threads_start (insert_jobs ks))" (is "insert_inv L ks _ _ _ ?ths")
proof -
  have "trie (AhoCorasick L) = Tree" by (simp add: AhoCorasick_def)
  moreover have "erase Tree = Tree" by (simp add: erase_def Tree_def makeNode_def)
  moreover have "holders ?ths = Map.empty" "drawn ?ths = Map.empty"
    by (auto simp: threads_start_def holders_def drawn_def holds_def pending_def fun_eq_iff)
  moreover have "inserted_at ks ?ths = (\<lambda>_. {})"
    by (intro ext) (auto simp: threads_start_def inserted_at_def inserted_def insert_jobs_def)
  moreover have "locks_ok Tree Map.empty w" for w
    by (simp add: locks_ok_def Tree_def makeNode_def isLocked_odd)
  moreover have "thread_inv L (\<lambda>_. 0) Map.empty (AhoCorasick L) (ks ! i) (?ths ! i)" if "i < length ks" for i
    using that by (simp add: thread_inv_def threads_start_def insert_jobs_def)
  ultimately show ?thesis using trie_inv_empty assms
    by (simp add: insert_inv_def numbers_ok_def containers_ok_def threads_start_def AhoCorasick_def insert_jobs_def)
qed

lemma insert_runs_inv:
  assumes "insert_runs L (insert_jobs ks) st st'" "containers_ok L" "jobs_ok ks"
    and "\<exists>adr D. insert_inv L ks adr D (fst st) (snd st)"
  shows "\<exists>adr D. insert_inv L ks adr D (fst st') (snd st')"
  using assms(1,4)
proof (induction rule: insert_runs.induct)
  case (more st st' st'')
  then show ?case using insert_step_inv [OF _ assms(2,3)] by (metis prod.collapse)
qed simp

lemma insert_runs_trans:
  "insert_runs L js st' st'' \<Longrightarrow> insert_runs L js st st' \<Longrightarrow> insert_runs L js st st''"
  by (induction rule: insert_runs.induct) (auto intro: insert_runs.more)

subsection \<open>A thread that runs alone\<close>

definition critical :: "label \<Rightarrow> bool" where
  "critical lab \<longleftrightarrow> lab \<in> {WriteLocked, TidDrawn, EntryAdded, EntryRead, Unlocking}"

definition current :: "heap \<Rightarrow> ptr \<Rightarrow> 64 word \<Rightarrow> bool" where
  "current h p v = (case p of NodePtr a \<Rightarrow> versionLock (h ! a) = v | _ \<Rightarrow> True)"

text \<open>The versions that the thread has read have not moved since.\<close>

definition up_to_date :: "heap \<Rightarrow> 'b thread \<Rightarrow> bool" where
  "up_to_date h = (\<lambda>(lab, l).
     (lab = LoopHead \<longrightarrow> current h (il_node l) (il_parentVersion l)) \<and>
     (lab \<in> {VersionRead, ChildRead, Validated} \<longrightarrow> current h (il_parent l) (il_parentVersion l)) \<and>
     (lab \<in> {VersionRead, ChildRead, Validated, ParentValidated} \<longrightarrow> current h (il_node l) (il_version l)))"

fun rank :: "label \<Rightarrow> nat" where
  "rank Entry = 10"
| "rank LoopHead = 9"
| "rank VersionRead = 8"
| "rank ChildRead = 7"
| "rank Validated = 6"
| "rank ParentValidated = 5"
| "rank WriteLocked = 4"
| "rank TidDrawn = 3"
| "rank EntryAdded = 2"
| "rank EntryRead = 2"
| "rank Unlocking = 1"
| "rank Finished = 0"

definition remaining :: "heap \<Rightarrow> 32 word list \<Rightarrow> 'b thread \<Rightarrow> nat" where
  "remaining h k th = (if fst th = Entry then 40 * (length (encode k) + 2)
     else (if up_to_date h th then 0 else 20 * (length (encode k) + 2)) +
       10 * (length (encode k) + 1 - il_level (snd th)) + rank (fst th))"

lemma restart_remaining: "\<not> up_to_date h (lab, l) \<Longrightarrow> lab \<noteq> Entry \<Longrightarrow> remaining h k (restart l) < remaining h k (lab, l)"
  by (simp add: remaining_def restart_def) (simp add: up_to_date_def current_def)

lemma onward_remaining:
  "(up_to_date h (lab, l) \<Longrightarrow> up_to_date h (lab', l')) \<Longrightarrow> lab \<noteq> Entry \<Longrightarrow> lab' \<noteq> Entry \<Longrightarrow>
    il_level l' = il_level l \<Longrightarrow> rank lab' < rank lab \<Longrightarrow> remaining h k (lab', l') < remaining h k (lab, l)"
  by (simp add: remaining_def)

definition alone :: "'b thread list \<Rightarrow> nat \<Rightarrow> bool" where
  "alone ths i \<longleftrightarrow> critical (fst (ths ! i)) \<or> (\<forall>j < length ths. j \<noteq> i \<longrightarrow> \<not> critical (fst (ths ! j)))"

lemma alone_unlocked:
  assumes "insert_inv L ks adr D ac ths" "i < length ths" "alone ths i" "\<not> critical (fst (ths ! i))" "a < length (trie ac)"
  shows "\<not> isLocked (versionLock (trie ac ! a))"
proof -
  have "holders ths j = None" for j
    using assms(2-4) by (cases "j = i") (auto simp: holders_def alone_def critical_def holds_def)
  then have "holders ths = Map.empty" by blast
  then show ?thesis using insert_invD(4) [OF assms(1)] assms(5) by (simp add: locks_ok_def)
qed

lemma critical_step:
  "thread_step L job (lab, l) ac = Some (th, ac') \<Longrightarrow> critical lab \<Longrightarrow>
    fst th \<noteq> Entry \<and> (critical (fst th) \<or> fst th = Finished) \<and> rank (fst th) < rank lab \<and> il_level (snd th) = il_level l"
  by (cases lab) (auto simp: critical_def draw_or_find_def add_entry_def write_entry_def publish_chain_def release_def
      with_trie_def split: Option.bind_splits if_splits prod.splits)

lemma critical_remaining:
  assumes "thread_step L job (lab, l) ac = Some (th, ac')" "critical lab"
  shows "remaining h k th < remaining h' k (lab, l)"
proof -
  have "up_to_date h (lab, l)" "lab \<noteq> Entry" for h and l :: "'a insert_locals"
    using assms(2) by (auto simp: critical_def up_to_date_def)
  moreover have "up_to_date h th"
    using critical_step [OF assms] by (cases th) (auto simp: critical_def up_to_date_def)
  ultimately show ?thesis using critical_step [OF assms] by (simp add: remaining_def)
qed

lemma roaming_remaining:
  assumes inv: "insert_inv L ks adr D ac ths" and i: "i < length ths" and th: "ths ! i = (lab, l)"
    and k: "ks ! i = (k, x)" and alone: "alone ths i" "\<not> critical lab" "lab \<noteq> Finished"
    and step: "thread_step L (job_of (k, x)) (lab, l) ac = Some (th', ac')"
  shows "remaining (trie ac') k th' < remaining (trie ac) k (lab, l)"
proof -
  note T = insert_invD(7) [OF inv i, unfolded th k thread_inv_def fst_conv snd_conv]
  note tr = insert_invD(2) [OF inv]
  show ?thesis
  proof (cases lab)
    case Entry
    then have "\<exists>l'. th' = restart l'"
      using step by (auto simp: enter_insert_def job_of_def Let_def split: Option.bind_splits)
    then obtain l' where "th' = restart l'" ..
    then show ?thesis using Entry by (simp add: remaining_def restart_def up_to_date_def current_def)
  next
    case LoopHead
    have path: "on_path adr D k (il_level l) (il_next l)" using T LoopHead by simp
    let ?n = "trie ac ! adr (take (il_level l) (encode k))"
    have n: "deref (trie ac) (il_next l) = Some ?n" "il_next l = NodePtr (adr (take (il_level l) (encode k)))"
      using node_version [OF tr path] on_path_mem [OF path] by auto
    have "\<not> isLocked (versionLock ?n)"
      using alone_unlocked [OF inv i alone(1)] alone(2) th shared_less [OF tr on_path_mem(1) [OF path]] by simp
    with step LoopHead n have th': "ac' = ac"
        "th' = (VersionRead, l\<lparr>il_parent := il_node l, il_node := il_next l, il_version := versionLock ?n\<rparr>)"
      by (auto simp: read_version_def readLockOrRestart_def)
    then have "up_to_date (trie ac) th' = up_to_date (trie ac) (lab, l)"
      using LoopHead n(2) by (simp add: up_to_date_def current_def split: ptr.split)
    with th' LoopHead show ?thesis by (simp add: remaining_def Let_def)
  next
    case VersionRead
    then have "ac' = ac \<and> (\<exists>p. th' = (ChildRead, l\<lparr>il_next := p\<rparr>))"
      using step by (auto simp: read_child_def job_of_def split: Option.bind_splits)
    then show ?thesis using VersionRead by (auto intro!: onward_remaining simp: up_to_date_def)
  next
    case ChildRead
    have path: "on_path adr D k (il_level l) (il_node l)" using T ChildRead by simp
    then have "ac' = ac \<and> (th' = (Validated, l) \<or> th' = restart l \<and> \<not> current (trie ac) (il_node l) (il_version l))"
      using step ChildRead node_version [OF tr path] on_path_mem [OF path]
      by (auto simp: validate_def readUnlockOrRestart_def current_def split: if_splits)
    then show ?thesis
      using ChildRead restart_remaining [of "trie ac" lab l k] by (auto intro!: onward_remaining simp: up_to_date_def)
  next
    case Validated
    then have "validate_parent l (trie ac) = Some th'" "ac' = ac" using step by (auto split: Option.bind_splits)
    then consider "th' = (ParentValidated, l)" | "th' = restart l" "\<not> current (trie ac) (il_parent l) (il_parentVersion l)"
      by (cases "il_parent l")
        (auto simp: validate_parent_def readUnlockOrRestart_def current_def deref_def rd_eq_Some_iff
          split: if_splits Option.bind_splits)
    then show ?thesis
      using \<open>ac' = ac\<close> Validated restart_remaining [of "trie ac" lab l k]
      by cases (auto intro!: onward_remaining simp: up_to_date_def)
  next
    case ParentValidated
    have path: "on_path adr D k (il_level l) (il_node l)" using T ParentValidated by simp
    have le: "il_level l < length (encode k)" if "il_next l = NodePtr a" for a
    proof -
      have "next_of adr D k l = NodePtr a" using T ParentValidated that by (auto simp: child_ok_def)
      moreover have "locals_ok k l" using T ParentValidated by simp
      ultimately show ?thesis using next_on_path [OF _ path] by (fastforce simp: on_path_def)
    qed
    have up: "u32 (il_level l + 1) = il_level l + 1" if "il_next l = NodePtr a" for a
    proof -
      have "locals_ok k l" using T ParentValidated by simp
      with le [OF that] show ?thesis by (simp add: locals_ok_def)
    qed
    consider a where "il_next l = NodePtr a" | "il_next l = Null \<or> (\<exists>t. il_next l = LeafPtr t)"
      by (cases "il_next l") auto
    then show ?thesis
    proof cases
      case 1
      then have th': "ac' = ac" "th' = (LoopHead, l\<lparr>il_level := u32 (il_level l + 1), il_parentVersion := il_version l\<rparr>)"
        using step ParentValidated by (simp_all add: with_trie_def lock_or_descend_def)
      then have "up_to_date (trie ac) th' = up_to_date (trie ac) (lab, l)"
        using ParentValidated by (simp add: up_to_date_def current_def split: ptr.split)
      with th' ParentValidated le [OF 1] up [OF 1] show ?thesis by (simp add: remaining_def)
    next
      case 2
      let ?n = "trie ac ! adr (take (il_level l) (encode k))"
      have n: "deref (trie ac) (il_node l) = Some ?n" "il_node l = NodePtr (adr (take (il_level l) (encode k)))"
        using node_version [OF tr path] on_path_mem [OF path] by auto
      show ?thesis
      proof (cases "versionLock ?n = il_version l")
        case True
        with 2 n step ParentValidated have "th' = (WriteLocked, l\<lparr>il_version := il_version l + 1\<rparr>)"
          by (auto simp: with_trie_def lock_or_descend_def upgradeToWriteLockOrRestart_def split: Option.bind_splits)
        then show ?thesis using ParentValidated by (simp add: remaining_def up_to_date_def)
      next
        case False
        with 2 n step ParentValidated have "th' = restart l" "ac' = ac"
          by (auto simp: with_trie_def lock_or_descend_def upgradeToWriteLockOrRestart_def)
        moreover have "\<not> up_to_date (trie ac) (lab, l)" using ParentValidated n(2) False by (simp add: up_to_date_def current_def)
        ultimately show ?thesis using restart_remaining [of "trie ac" lab l k] ParentValidated by simp
      qed
    qed
  qed (use alone in \<open>simp_all add: critical_def\<close>)
qed

text \<open>Alone, a thread finishes.\<close>

lemma alone_step:
  assumes inv: "insert_inv L ks adr D ac ths" and ok: "containers_ok L" "jobs_ok ks"
    and i: "i < length ths" "alone ths i" "fst (ths ! i) \<noteq> Finished"
  shows "\<exists>th ac' adr' D'. thread_step L (insert_jobs ks ! i) (ths ! i) ac = Some (th, ac') \<and>
    insert_inv L ks adr' D' ac' (ths[i := th]) \<and> (fst th = Finished \<or> alone (ths[i := th]) i) \<and>
    remaining (trie ac') (fst (ks ! i)) th < remaining (trie ac) (fst (ks ! i)) (ths ! i)"
proof -
  obtain lab l where th: "ths ! i = (lab, l)" by force
  obtain k x where k: "ks ! i = (k, x)" by force
  from every_step [OF at_label_known [OF inv ok i(1)] i(3)] th k obtain th ac' adr' D' where
    step: "thread_step L (job_of (k, x)) (lab, l) ac = Some (th, ac')" "insert_inv L ks adr' D' ac' (ths[i := th])"
    by (auto simp: steps_def)
  have "thread_step L (insert_jobs ks ! i) (ths ! i) ac = Some (th, ac')"
    using step(1) th k i(1) insert_invD(1) [OF inv] by (simp add: insert_jobs_def)
  moreover have "fst th = Finished \<or> alone (ths[i := th]) i"
    using critical_step [OF step(1)] i(1,2) th by (cases "critical lab") (auto simp: alone_def nth_list_update)
  moreover have "remaining (trie ac') k th < remaining (trie ac) k (lab, l)"
    using critical_remaining [OF step(1)] roaming_remaining [OF inv i(1) th k i(2) _ _ step(1)] i(3) th by auto
  ultimately show ?thesis using step(2) unfolding th k fst_conv by blast
qed

lemma alone_finishes:
  assumes "insert_inv L ks adr D ac ths" "containers_ok L" "jobs_ok ks" "i < length ths" "alone ths i"
    "fst (ths ! i) \<noteq> Finished"
  shows "\<exists>th ac' adr' D'. insert_runs L (insert_jobs ks) (ac, ths) (ac', ths[i := th]) \<and>
    insert_inv L ks adr' D' ac' (ths[i := th]) \<and> fst th = Finished"
  using assms
proof (induction "remaining (trie ac) (fst (ks ! i)) (ths ! i)" arbitrary: ac ths adr D rule: less_induct)
  case less
  from alone_step [OF less.prems] obtain th ac' adr' D' where
    s: "thread_step L (insert_jobs ks ! i) (ths ! i) ac = Some (th, ac')" "insert_inv L ks adr' D' ac' (ths[i := th])"
    "fst th = Finished \<or> alone (ths[i := th]) i"
    "remaining (trie ac') (fst (ks ! i)) th < remaining (trie ac) (fst (ks ! i)) (ths ! i)" by blast
  have one: "insert_runs L (insert_jobs ks) (ac, ths) (ac', ths[i := th])"
    by (rule insert_runs.more [OF insert_runs.none insert_step_of.step [where L = L and jobs = "insert_jobs ks", OF less.prems(4) s(1)]])
  show ?case
  proof (cases "fst th = Finished")
    case True
    with one s(2) show ?thesis by blast
  next
    case False
    then have "\<exists>th' ac'' adr' D'. insert_runs L (insert_jobs ks) (ac', ths[i := th]) (ac'', ths[i := th, i := th']) \<and>
        insert_inv L ks adr' D' ac'' (ths[i := th, i := th']) \<and> fst th' = Finished"
      using less.prems(4) s by (intro less.hyps [OF _ s(2) less.prems(2,3)]) simp_all
    then show ?thesis using insert_runs_trans [OF _ one] by (metis list_update_overwrite)
  qed
qed

definition unfinished :: "'b thread list \<Rightarrow> nat" where
  "unfinished ths = length (filter (\<lambda>th. fst th \<noteq> Finished) ths)"

lemma unfinished_update:
  "i < length ths \<Longrightarrow> fst (ths ! i) \<noteq> Finished \<Longrightarrow> fst th = Finished \<Longrightarrow> unfinished (ths[i := th]) < unfinished ths"
proof (induction ths arbitrary: i)
  case (Cons a ths)
  then show ?case by (cases i) (auto simp: unfinished_def)
qed simp

definition all_finished :: "'b thread list \<Rightarrow> bool" where
  "all_finished ths \<longleftrightarrow> (\<forall>th \<in> set ths. fst th = Finished)"

lemma one_alone:
  assumes "\<not> all_finished ths"
  shows "\<exists>i < length ths. alone ths i \<and> fst (ths ! i) \<noteq> Finished"
proof (cases "\<exists>i < length ths. critical (fst (ths ! i))")
  case True
  then show ?thesis by (auto simp: alone_def critical_def)
next
  case False
  moreover have "\<exists>i < length ths. fst (ths ! i) \<noteq> Finished"
    using assms by (metis all_finished_def in_set_conv_nth)
  ultimately show ?thesis by (auto simp: alone_def)
qed

lemma all_finish:
  assumes "insert_inv L ks adr D ac ths" "containers_ok L" "jobs_ok ks"
  shows "\<exists>ac' ths'. insert_runs L (insert_jobs ks) (ac, ths) (ac', ths') \<and> all_finished ths'"
  using assms(1)
proof (induction "unfinished ths" arbitrary: ac ths adr D rule: less_induct)
  case less
  show ?case
  proof (cases "all_finished ths")
    case True
    then show ?thesis using insert_runs.none by blast
  next
    case False
    then obtain i where i: "i < length ths" "alone ths i" "fst (ths ! i) \<noteq> Finished" using one_alone by blast
    from alone_finishes [OF less.prems assms(2,3) i] obtain th ac' adr' D' where
      r: "insert_runs L (insert_jobs ks) (ac, ths) (ac', ths[i := th])" "insert_inv L ks adr' D' ac' (ths[i := th])"
        "fst th = Finished" by blast
    from less.hyps [OF unfinished_update [OF i(1,3) r(3)] r(2)] show ?thesis
      using insert_runs_trans [OF _ r(1)] by blast
  qed
qed

subsection \<open>What the threads build\<close>

definition occurrences_of :: "(32 word list \<times> PatternIndexType) list \<Rightarrow> occurrences" where
  "occurrences_of ks k = {ToUint x |x. (k, x) \<in> set ks}"

lemma finished_built:
  assumes "insert_inv L ks adr D ac ths" "all_finished ths"
  shows "built L ac (occurrences_of ks)"
proof -
  have len: "length ths = length ks" using insert_invD(1) [OF assms(1)] .
  have fin: "fst (ths ! i) = Finished" if "i < length ths" for i using assms(2) that by (simp add: all_finished_def)
  then have none: "holders ths = Map.empty" "drawn ths = Map.empty"
    by (auto simp: holders_def drawn_def holds_def pending_def fun_eq_iff)
  have "inserted_at ks ths k = occurrences_of ks k" for k
    using fin len by (force simp: inserted_at_def occurrences_of_def inserted_def in_set_conv_nth)
  then have occ: "inserted_at ks ths = occurrences_of ks" ..
  have unlocked: "\<not> isLocked (versionLock (trie ac ! a))" if "a < length (trie ac)" for a
    using insert_invD(4) [OF assms(1)] none(1) that by (simp add: locks_ok_def)
  have tr: "trie_inv (erase (trie ac)) adr D" using insert_invD(2) [OF assms(1)] .
  have "node_inv adr D bs (trie ac ! adr bs)" if "bs \<in> tree_nodes D" for bs
    using node_at [OF tr that] unlocked shared_less [OF tr that] by (simp add: node_inv_def)
  then have "trie_inv (trie ac) adr D" using tr by (simp add: trie_inv_def)
  moreover have "entries_ok L (literal_map ac) (unique_literal_cnt ac) D (occurrences_of ks)"
    using insert_invD(6) [OF assms(1)] unfolding none(2) occ entries_ok_def dom_empty card.empty .
  ultimately show ?thesis using insert_invD(3) [OF assms(1)] by (auto simp: built_def)
qed

lemma threads_inv:
  assumes "containers_ok L" "jobs_ok ks"
    "insert_runs L (insert_jobs ks) (AhoCorasick L, threads_start (insert_jobs ks)) (ac, ths)"
  shows "\<exists>adr D. insert_inv L ks adr D ac ths"
  using insert_runs_inv [OF assms(3,1,2)] insert_inv_initial [OF assms(1), of ks] by auto

lemma threads_can_finish:
  assumes "containers_ok L" "jobs_ok ks"
    "insert_runs L (insert_jobs ks) (AhoCorasick L, threads_start (insert_jobs ks)) (ac, ths)"
  shows "\<exists>ac' ths'. insert_runs L (insert_jobs ks) (ac, ths) (ac', ths') \<and> all_finished ths'"
  using threads_inv [OF assms] all_finish [OF _ assms(1,2)] by blast

subsection \<open>One thread, step after step\<close>

fun run_thread :: "('b, 'm) containers \<Rightarrow> insert_job \<Rightarrow> nat \<Rightarrow> 'b thread \<Rightarrow> 'm automaton \<Rightarrow> ('b thread \<times> 'm automaton) option" where
  "run_thread L job 0 th ac = (if fst th = Finished then Some (th, ac) else None)"
| "run_thread L job (Suc n) th ac = (if fst th = Finished then Some (th, ac)
     else do { (th, ac) \<leftarrow> thread_step L job th ac; run_thread L job n th ac })"

lemma remaining_bound: "remaining h k th \<le> 40 * (length (encode k) + 2)"
proof -
  define m where "m = length (encode k) + 1 - il_level (snd th)"
  have "m \<le> length (encode k) + 1" by (simp add: m_def)
  moreover have "rank (fst th) \<le> 10" by (cases "fst th") simp_all
  ultimately show ?thesis by (auto simp: remaining_def simp flip: m_def)
qed

lemma run_thread_returns:
  assumes "insert_inv L ks adr D ac ths" "containers_ok L" "jobs_ok ks" "i < length ths" "alone ths i"
    "remaining (trie ac) (fst (ks ! i)) (ths ! i) \<le> n"
  shows "\<exists>th ac'. run_thread L (insert_jobs ks ! i) n (ths ! i) ac = Some (th, ac') \<and> fst th = Finished"
  using assms
proof (induction n arbitrary: ac ths adr D)
  case 0
  then show ?case using alone_step [OF "0.prems"(1-5)] by (cases "fst (ths ! i) = Finished") auto
next
  case (Suc n)
  show ?case
  proof (cases "fst (ths ! i) = Finished")
    case False
    from alone_step [OF Suc.prems(1-5) False] obtain th ac' adr' D' where
      s: "thread_step L (insert_jobs ks ! i) (ths ! i) ac = Some (th, ac')" "insert_inv L ks adr' D' ac' (ths[i := th])"
      "fst th = Finished \<or> alone (ths[i := th]) i"
      "remaining (trie ac') (fst (ks ! i)) th < remaining (trie ac) (fst (ks ! i)) (ths ! i)" by blast
    have "\<exists>th' ac''. run_thread L (insert_jobs ks ! i) n th ac' = Some (th', ac'') \<and> fst th' = Finished"
    proof (cases "fst th = Finished")
      case True
      then show ?thesis by (cases n) simp_all
    next
      case unfinished: False
      then show ?thesis using Suc.IH [OF s(2) Suc.prems(2,3)] Suc.prems(4,6) s(3,4) by simp
    qed
    then show ?thesis using False s(1) by simp
  qed simp
qed

subsection \<open>The properties\<close>

text \<open>Property C7: however the threads that insert at once interleave, when all have returned the automaton
  holds exactly their literals, each with its own number, its length and the set of all its places, as
  after inserting them one after the other: no update is lost and no chain is overwritten.\<close>

theorem threads_build_the_dictionary:
  assumes "containers_ok L" "jobs_ok ks"
    "insert_runs L (insert_jobs ks) (AhoCorasick L, threads_start (insert_jobs ks)) (ac, ths)" "all_finished ths"
  shows "built L ac (occurrences_of ks)"
  using threads_inv [OF assms(1-3)] finished_built [OF _ assms(4)] by blast

text \<open>Three threads, two of them with the same literal.\<close>

definition three_jobs :: "(32 word list \<times> PatternIndexType) list" where
  "three_jobs = [([97, 98], \<lparr>pi_pattern_id = 0, pi_start_pos = 0\<rparr>), ([97, 98], \<lparr>pi_pattern_id = 1, pi_start_pos = 0\<rparr>), ([97], \<lparr>pi_pattern_id = 2, pi_start_pos = 1\<rparr>)]"

lemma three_jobs_ok: "jobs_ok three_jobs"
  by (simp add: jobs_ok_def three_jobs_def nonzero_cps_def writeCodePointUnchecked_def)

theorem threads_build_the_dictionary_witness:
  "\<exists>ac ths. insert_runs list_containers (insert_jobs three_jobs)
      (AhoCorasick list_containers, threads_start (insert_jobs three_jobs)) (ac, ths) \<and>
    built list_containers ac (occurrences_of three_jobs)"
  using threads_can_finish [OF list_containers_ok three_jobs_ok insert_runs.none]
    threads_build_the_dictionary [OF list_containers_ok three_jobs_ok] by blast

text \<open>Property C8: no thread faults while others insert: whatever state the threads have reached, one that has
  not returned can take its next step, so every pointer it follows points to a node and every entry it
  looks up is in the literal map.\<close>

theorem threads_never_fault:
  assumes "containers_ok L" "jobs_ok ks"
    "insert_runs L (insert_jobs ks) (AhoCorasick L, threads_start (insert_jobs ks)) (ac, ths)"
    "i < length ths" "fst (ths ! i) \<noteq> Finished"
  shows "\<exists>th ac'. thread_step L (insert_jobs ks ! i) (ths ! i) ac = Some (th, ac')"
proof -
  obtain adr D where inv: "insert_inv L ks adr D ac ths" using threads_inv [OF assms(1-3)] by blast
  show ?thesis
    using every_step [OF at_label_known [OF inv assms(1,2,4)] assms(5)] assms(4) insert_invD(1) [OF inv]
    by (auto simp: steps_def insert_jobs_def)
qed

theorem threads_never_fault_witness:
  "\<exists>th ac'. thread_step list_containers (insert_jobs three_jobs ! 2) (threads_start (insert_jobs three_jobs) ! 2)
    (AhoCorasick list_containers) = Some (th, ac')"
  by (rule threads_never_fault [OF list_containers_ok three_jobs_ok insert_runs.none])
    (simp_all add: threads_start_def insert_jobs_def three_jobs_def)

text \<open>Property C9: the locks never get stuck: from every state that the threads can reach, there is a way for all
  of them to return.\<close>

theorem threads_never_stuck:
  assumes "containers_ok L" "jobs_ok ks"
    "insert_runs L (insert_jobs ks) (AhoCorasick L, threads_start (insert_jobs ks)) (ac, ths)"
  shows "\<exists>ac' ths'. insert_runs L (insert_jobs ks) (ac, ths) (ac', ths') \<and> all_finished ths'"
  by (rule threads_can_finish [OF assms])

theorem threads_never_stuck_witness:
  "\<exists>ac ths. insert_runs list_containers (insert_jobs three_jobs)
      (AhoCorasick list_containers, threads_start (insert_jobs three_jobs)) (ac, ths) \<and> all_finished ths"
  by (rule threads_never_stuck [OF list_containers_ok three_jobs_ok insert_runs.none])

text \<open>Property C10: a thread returns after at most \<open>40 * (length (encode k) + 2)\<close> steps of its own when the
  others pause outside the lock, whatever the threads did before: it restarts at most once, because the
  versions that it reads afterwards stay.\<close>

theorem thread_alone_returns:
  assumes "containers_ok L" "jobs_ok ks"
    "insert_runs L (insert_jobs ks) (AhoCorasick L, threads_start (insert_jobs ks)) (ac, ths)"
    "i < length ths" "alone ths i" "n = 40 * (length (encode (fst (ks ! i))) + 2)"
  shows "\<exists>th ac'. run_thread L (insert_jobs ks ! i) n (ths ! i) ac = Some (th, ac') \<and> fst th = Finished"
  unfolding assms(6)
  using threads_inv [OF assms(1-3)] run_thread_returns [OF _ assms(1,2,4,5) remaining_bound] by blast

theorem thread_alone_returns_witness:
  "\<exists>th ac'. run_thread list_containers (insert_jobs three_jobs ! 0) 160 (threads_start (insert_jobs three_jobs) ! 0)
    (AhoCorasick list_containers) = Some (th, ac') \<and> fst th = Finished"
  by (rule thread_alone_returns [OF list_containers_ok three_jobs_ok insert_runs.none])
    (simp_all add: threads_start_def insert_jobs_def three_jobs_def alone_def critical_def nth_Cons' writeCodePointUnchecked_def)

end
