(* ===== verification/Spec2Isabelle.thy ===== *)
theory Spec2Isabelle
  imports Utf8 Tokenizer LruCache DelayQueue Kmp Art AhoCorasick Skeleton SkeletonLaws Parser Reference Probe FlatMapLaws SegmentedVector Util Divergences Reuse ConcurrentLaws
begin

text \<open>
  A verification library for the wildcard join: SQL LIKE patterns of a build side are compiled into
  skeletons and one Aho-Corasick automaton, and every text of the probe side is driven through the
  automaton once and matched against all patterns at the same time.

  The program and its theories, from the bottom up (paths under \<open>src/src\<close> unless given in full).

  \<^item> \<open>Prelude\<close>: integers that are narrowed (\<open>u16\<close>, \<open>u32\<close>, \<open>sub32\<close>, \<open>sub64\<close>), reads of memory that
    fault out of range (\<open>rd\<close>), \<open>assert\<close> as a fault, runs of a predicate over a range.
  \<^item> \<open>Utf8\<close>: \<open>include/common/utf8.h\<close>; code points are read and written bit by bit on words.
  \<^item> \<open>Like\<close>: the specification, LIKE over code points.
  \<^item> \<open>Tokenizer\<close>: \<open>tokenizer.cc\<close>; a pattern is cut at unescaped percent signs into segments and a
    segment at unescaped underscores into literals; where this differs from the escapes that the
    documentation of the class describes (\<open>made_literal\<close>).
  \<^item> \<open>Interfaces\<close>: the locales of a cache, a priority queue, a dictionary and a sequence.
  \<^item> \<open>LruCache\<close>, \<open>DelayQueue\<close>: \<open>include/common/lrucache.h\<close> and
    \<open>include/aho_corasick/delay_queue.h\<close>, interpretations \<open>lru\<close> and \<open>dq\<close>.
  \<^item> \<open>Kmp\<close>: \<open>include/kmp/kmp.h\<close>; the table is written beyond the size of its vector, so it is modelled
    for both readings of \<open>operator[]\<close>, held to \<open>size()\<close> (where it faults) and reaching the reserved storage.
  \<^item> \<open>Art\<close>: \<open>include/art/node.h\<close> and \<open>include/art/tree.h\<close>; the heap is the list of allocated
    nodes and a pointer an index into it, a tagged pointer or null.
  \<^item> \<open>AhoCorasick\<close>: \<open>aho_corasick.cc\<close>; inserting literals, suffix and output links, code point steps.
  \<^item> \<open>CodeStrings\<close>, \<open>Suffixes\<close>: encoded strings as byte strings, and the states, longest suffixes and
    hits of the automaton of Aho and Corasick over code points.
  \<^item> \<open>TrieLaws\<close>, \<open>LiteralLaws\<close>, \<open>TrieDestroy\<close>: the trie as the set of prefixes of its keys, what an
    insertion does to it and to the literal map, and the pointers its destruction frees.
  \<^item> \<open>SuffixLinks\<close>, \<open>Occurrences\<close>: the breadth-first pass leaves at every node the links of the
    specification, and parsing a text then emits exactly the occurrences of the literals, or faults at a
    code point 0 right behind one.
  \<^item> \<open>ConcurrentInsert\<close>: \<open>Tree::insert\<close> as several threads run it at once, one step per access to shared
    memory.  \<open>ConcurrentInvariant\<close>, \<open>ConcurrentLaws\<close>: what a thread knows at each program point, that the
    steps of the others do not break it, and what all of them together leave in the trie.
  \<^item> \<open>Skeleton\<close>, \<open>SkeletonLaws\<close>: \<open>skeleton.cc\<close> and \<open>include/aho_corasick/skeleton.h\<close>; the compiled
    pattern and the matcher of one pattern.
  \<^item> \<open>Constructor\<close>, \<open>PatternLanguage\<close>: the two loops of the constructor of a skeleton find the literals
    between wildcards, and the segments they leave have the language of the pattern.
  \<^item> \<open>Alignment\<close>, \<open>MatcherSteps\<close>: where a segment with one literal can lie in the text, and the matcher
    as it takes or drops one hit.
  \<^item> \<open>Parser\<close>: \<open>parser.cc\<close>; the analyzer of the build side and the iterator over a text.
  \<^item> \<open>Compiled\<close>, \<open>Engine\<close>: what the analyzer leaves for a list of patterns, and the invariant of a whole
    pass over a text, from which the engine answers what LIKE asks for.
  \<^item> \<open>Reuse\<close>: an iterator that has been reset is as good as a new one, and with it the whole join of
    patterns and rows.
  \<^item> \<open>Reference\<close>, \<open>Probe\<close>: the two oracles and the drivers of \<open>src/benchmark\<close> and \<open>src/test\<close>.
  \<^item> \<open>Wyhash\<close>, \<open>FlatMap\<close>, \<open>RobinHood\<close>, \<open>FlatMapLaws\<close>: \<open>include/common/flat_map.h\<close>; the hash
    function, the table, the invariant of its bucket ring and the table as a dictionary
    (interpretation \<open>fm\<close>).
  \<^item> \<open>SegmentedVector\<close>: the container of blocks of the same file, as a list (interpretation \<open>sv\<close>).
  \<^item> \<open>Util\<close>: \<open>include/common/util.h\<close> and \<open>common/util.cc\<close>.
  \<^item> \<open>Divergences\<close>: closed runs on which the engine does not answer what LIKE asks for.

  Faults and loops.  Every operation that can assert, read outside a buffer, follow a null pointer or
  throw returns an option, and \<open>None\<close> is the fault.  Loops whose end is not structural are
  \<open>partial_function (option)\<close>, for which \<open>None\<close> is also not returning; a theorem that gives \<open>Some\<close>
  therefore says that the code returns.  Only \<open>run_thread\<close> has fuel, the bound that
  \<open>thread_alone_returns\<close> states.

  Bounds.  Pattern offsets are narrowed to 16 and 32 bits where the code narrows them.  The hash
  table is proved for up to \<open>2^23\<close> buckets, the bound on the probe distance that the bucket format
  stores; the constants of the segmented vector are computed in 32 bits; the load factor is counted in units of \<open>2^-24\<close>, in which the code's float is exact.  A version
  lock counts two steps per insertion and is proved not to come round for fewer than \<open>2^63 - 1\<close> of them.
  The level of an insertion counts in 32 bits, so literals are shorter than \<open>2^32\<close> bytes.

  Not modelled: memory mapping, thread pinning, barriers and floating-point statistics of
  \<open>common/util.cc\<close>; the hardware counters of \<open>include/common/perf_event.h\<close>; the benchmark harness
  and the test cases, which call what is modelled; unequal allocators and the set instance of
  \<open>flat_map.h\<close>; weaker memory orders than sequential consistency of the atomics in \<open>node.h\<close>.  The roaring bitmaps
  and the concurrent map of the automaton are the parameter \<open>containers\<close>, whose documented laws are
  \<open>containers_ok\<close>.
\<close>

end
